(* ===== verification/Prelude.thy ===== *)
theory Prelude
  imports Main "HOL-Library.Word"
begin

text \<open>
  The vocabulary shared by every component of the development: Go's fixed-width integers
  as words, the outcome of running a piece of Go code (it returns, it panics, or it
  blocks), Go's slices as lists with the run-time bounds checks written out, and the
  generic lemmas on lists, masks and powers of two that carry the component proofs.

  \<^item> \<open>int64\<close>, \<open>uint64\<close>, \<open>int32\<close>: machine integers; signed code compares with
    \<^const>\<open>sint\<close>, addition and subtraction wrap.
  \<^item> \<open>outcome\<close>: \<open>Return\<close> is a normal return, \<open>Panic\<close> a run-time panic, and \<open>Block\<close>
    a call that cannot make progress when it runs alone (a held mutex, a spin loop on a
    flag nobody else will clear).
  \<^item> \<open>slice_get\<close>, \<open>slice_set\<close>, \<open>slice_range\<close>, \<open>make_slice\<close>, \<open>copy_into\<close>,
    \<open>clear_range\<close>: the slice operations the sources use.
  \<^item> The collections \<open>outcome_simps\<close> and \<open>ring_simps\<close> gather the rewrite rules for the
    outcome type and for cursor arithmetic.
\<close>

unbundle bit_operations_syntax

named_theorems outcome_simps \<open>rewrite rules for running outcomes\<close>
named_theorems ring_simps \<open>rewrite rules for masked cursor arithmetic\<close>

section \<open>Machine integers\<close>

type_synonym int64 = "64 word"
type_synonym uint64 = "64 word"
type_synonym int32 = "32 word"

section \<open>Outcomes\<close>

datatype go_panic = IndexOutOfRange | SliceBounds | MakeSliceLen

datatype 'a outcome = Return 'a | Panic go_panic | Block

fun obind :: "'a outcome \<Rightarrow> ('a \<Rightarrow> 'b outcome) \<Rightarrow> 'b outcome" where
  "obind (Return x) f = f x"
| "obind (Panic p) f = Panic p"
| "obind Block f = Block"

fun returned :: "'a outcome \<Rightarrow> 'a option" where
  "returned (Return x) = Some x"
| "returned (Panic p) = None"
| "returned Block = None"

lemma obind_Return_iff [outcome_simps]:
  "obind m f = Return y \<longleftrightarrow> (\<exists>x. m = Return x \<and> f x = Return y)"
  by (cases m) auto

lemma obind_cong [fundef_cong]:
  "m = m' \<Longrightarrow> (\<And>x. m' = Return x \<Longrightarrow> f x = g x) \<Longrightarrow> obind m f = obind m' g"
  by (cases m') auto

lemma obind_assoc [outcome_simps]:
  "obind (obind m f) g = obind m (\<lambda>x. obind (f x) g)"
  by (cases m) auto

section \<open>Slices\<close>

definition slice_get :: "'a list \<Rightarrow> int64 \<Rightarrow> 'a outcome" where
  "slice_get xs i =
     (if 0 \<le> sint i \<and> sint i < int (length xs) then Return (xs ! nat (sint i))
      else Panic IndexOutOfRange)"

definition slice_set :: "'a list \<Rightarrow> int64 \<Rightarrow> 'a \<Rightarrow> 'a list outcome" where
  "slice_set xs i x =
     (if 0 \<le> sint i \<and> sint i < int (length xs) then Return (xs[nat (sint i) := x])
      else Panic IndexOutOfRange)"

definition slice_range :: "'a list \<Rightarrow> int64 \<Rightarrow> int64 \<Rightarrow> 'a list outcome" where
  "slice_range xs lo hi =
     (if 0 \<le> sint lo \<and> sint lo \<le> sint hi \<and> sint hi \<le> int (length xs)
      then Return (take (nat (sint hi) - nat (sint lo)) (drop (nat (sint lo)) xs))
      else Panic SliceBounds)"

definition make_slice :: "'a \<Rightarrow> int64 \<Rightarrow> 'a list outcome" where
  "make_slice zero n =
     (if 0 \<le> sint n then Return (replicate (nat (sint n)) zero) else Panic MakeSliceLen)"

definition copy_into :: "'a list \<Rightarrow> int64 \<Rightarrow> 'a list \<Rightarrow> 'a list outcome" where
  "copy_into dst off src =
     (if 0 \<le> sint off \<and> sint off \<le> int (length dst)
      then (let o' = nat (sint off); n = min (length dst - o') (length src)
            in Return (take o' dst @ take n src @ drop (o' + n) dst))
      else Panic SliceBounds)"

definition clear_range :: "'a \<Rightarrow> 'a list \<Rightarrow> int64 \<Rightarrow> int64 \<Rightarrow> 'a list outcome" where
  "clear_range zero xs lo hi =
     (if 0 \<le> sint lo \<and> sint lo \<le> sint hi \<and> sint hi \<le> int (length xs)
      then Return (take (nat (sint lo)) xs @ replicate (nat (sint hi) - nat (sint lo)) zero
                   @ drop (nat (sint hi)) xs)
      else Panic SliceBounds)"

section \<open>Non-negative int64 values\<close>

text \<open>
  On values below \<open>2 ^ 63\<close> the signed and the unsigned reading agree, so the cursor
  arithmetic of the ring buffer can be done on natural numbers.
\<close>

declare of_nat_unat [simp del]

lemma sint_unat_small:
  fixes w :: int64
  assumes "unat w < 2 ^ 63"
  shows "sint w = int (unat w)"
proof -
  have 1: "int (unat w) < 2 ^ 63"
    using assms by (metis of_nat_less_iff of_nat_numeral of_nat_power)
  have 2: "int (unat w) = uint w" by (rule of_nat_unat)
  have "uint w < 2 ^ 63" using 1 by (simp only: 2)
  moreover have "- (2 ^ 63) \<le> uint w"
    by (rule order_trans [OF _ uint_ge_0]) simp
  ultimately have "signed_take_bit 63 (uint w) = uint w"
    by (intro signed_take_bit_int_eq_self)
  then show ?thesis by (simp add: sint_uint 2)
qed

lemma sint_nonneg_unat:
  fixes w :: int64
  assumes "0 \<le> sint w"
  shows "unat w < 2 ^ 63" and "nat (sint w) = unat w"
proof -
  have "uint w = take_bit 64 (sint w)" by (simp add: uint_sint)
  moreover have lt: "sint w < 2 ^ 63" using sint_lt [of w] by simp
  ultimately have u: "uint w = sint w" using assms by (simp add: take_bit_eq_mod)
  then show "nat (sint w) = unat w" by (metis nat_uint_eq)
  then show "unat w < 2 ^ 63" using lt assms by (metis nat_less_numeral_power_cancel_iff)
qed

lemma sint_less_small:
  fixes a b :: int64
  assumes "unat a < 2 ^ 63" "unat b < 2 ^ 63"
  shows "sint a < sint b \<longleftrightarrow> unat a < unat b"
  by (simp only: sint_unat_small [OF assms(1)] sint_unat_small [OF assms(2)] of_nat_less_iff)

lemma sint_le_small:
  fixes a b :: int64
  assumes "unat a < 2 ^ 63" "unat b < 2 ^ 63"
  shows "sint a \<le> sint b \<longleftrightarrow> unat a \<le> unat b"
  by (simp only: sint_unat_small [OF assms(1)] sint_unat_small [OF assms(2)] of_nat_le_iff)

lemma unat_and_mask:
  fixes w :: int64
  shows "unat (w AND (2 ^ k - 1)) = unat w mod 2 ^ k"
proof -
  have "w AND (2 ^ k - 1) = take_bit k w"
    by (simp only: take_bit_eq_mask mask_eq_exp_minus_1)
  then have "unat (w AND (2 ^ k - 1)) = take_bit k (unat w)"
    by (simp only: unsigned_take_bit_eq)
  then show ?thesis by (simp only: take_bit_eq_mod)
qed
lemma unat_pow2: "k < 64 \<Longrightarrow> unat (2 ^ k :: int64) = 2 ^ k"
proof -
  assume "k < 64"
  then have "(2 :: nat) ^ k < 2 ^ 64" by (rule power_strict_increasing) simp
  moreover have "unat (of_nat (2 ^ k) :: int64) = 2 ^ k mod 2 ^ LENGTH(64)"
    by (rule unat_of_nat)
  ultimately show ?thesis by simp
qed
lemma unat_pow2_minus_1: assumes "k < 64" shows "unat (2 ^ k - 1 :: int64) = 2 ^ k - 1"
proof -
  have "unat (2 ^ k - 1 :: int64) = unat (2 ^ k :: int64) - unat (1 :: int64)"
    by (rule unat_sub) (use assms in \<open>simp add: word_le_nat_alt unat_pow2\<close>)
  then show ?thesis using assms by (simp add: unat_pow2)
qed

lemma unat_add_small:
  fixes a b :: int64
  shows "unat a + unat b < 2 ^ 64 \<Longrightarrow> unat (a + b) = unat a + unat b"
  by (simp add: unat_word_ariths)

lemma unat_sub_small:
  fixes a b :: int64
  shows "unat b \<le> unat a \<Longrightarrow> unat (a - b) = unat a - unat b"
  by (simp add: unat_sub word_le_nat_alt)
lemma sint_add_one:
  fixes i t :: int64
  assumes "sint i < sint t"
  shows "sint (i + 1) = sint i + 1"
proof -
  have "sint t < 2 ^ 63" using sint_lt [of t] by simp
  moreover have "- (2 ^ 63) \<le> sint i" using sint_ge [of i] by simp
  ultimately have "signed_take_bit 63 (sint i + 1) = sint i + 1"
    using assms by (intro signed_take_bit_int_eq_self) linarith+
  then show ?thesis by (simp add: sint_word_ariths)
qed

section \<open>Windows of a circular array\<close>

text \<open>
  The live part of a ring buffer is a window of absolute indices \<open>h ..< t\<close>, at most as
  long as the array, each index stored at its residue.
\<close>

definition window :: "'a list \<Rightarrow> nat \<Rightarrow> nat \<Rightarrow> 'a list" where
  "window xs h t = map (\<lambda>j. xs ! (j mod length xs)) [h..<t]"

lemma length_window [simp]: "length (window xs h t) = t - h"
  by (simp add: window_def)

lemma window_empty [simp]: "t \<le> h \<Longrightarrow> window xs h t = []"
  by (simp add: window_def)

lemma window_nth: "j < t - h \<Longrightarrow> window xs h t ! j = xs ! ((h + j) mod length xs)"
  by (simp add: window_def)

lemma mod_window_inj:
  fixes i j n h :: nat
  assumes "i mod n = j mod n" "h \<le> i" "i < h + n" "h \<le> j" "j < h + n"
  shows "i = j"
proof -
  have *: "a = b" if "a mod n = b mod n" "h \<le> a" "a \<le> b" "b < h + n" for a b
  proof (rule ccontr)
    assume "a \<noteq> b"
    then have "0 < b - a" "b - a < n" using that by linarith+
    moreover have "n dvd b - a" using that by (metis mod_eq_dvd_iff_nat)
    ultimately show False by (simp add: nat_dvd_not_less)
  qed
  show ?thesis
    using * [of i j] * [of j i] assms by (metis nat_le_linear)
qed

lemma window_update_outside:
  assumes "t \<le> h + length xs" "h' \<le> i" "i < h' + length xs" "h' \<le> h" "t \<le> h' + length xs"
    and "i < h \<or> t \<le> i"
  shows "window (xs[i mod length xs := x]) h t = window xs h t"
proof -
  have "i mod length xs \<noteq> j mod length xs" if "h \<le> j" "j < t" for j
    using mod_window_inj [of j "length xs" i h'] assms that by fastforce
  then show ?thesis
    by (simp add: window_def)
qed

lemma window_push:
  assumes "h \<le> t" "t < h + length xs"
  shows "window (xs[t mod length xs := x]) h (Suc t) = window xs h t @ [x]"
proof -
  have "window (xs[t mod length xs := x]) h t = window xs h t"
    using assms by (intro window_update_outside [of _ _ _ h]) auto
  moreover have "t mod length xs < length xs"
    using assms by (intro mod_less_divisor) linarith
  ultimately show ?thesis
    using assms by (simp add: window_def)
qed

lemma window_Cons:
  assumes "h < t"
  shows "window xs h t = xs ! (h mod length xs) # window xs (Suc h) t"
  using assms by (simp add: window_def upt_conv_Cons)

lemma window_clear_head:
  assumes "h < t" "t \<le> h + length xs"
  shows "window (xs[h mod length xs := z]) (Suc h) t = window xs (Suc h) t"
  using assms by (intro window_update_outside [of _ _ _ h]) auto

lemma window_append:
  assumes "h \<le> m" "m \<le> t"
  shows "window xs h t = window xs h m @ window xs m t"
  using assms by (metis le_add_diff_inverse map_append upt_add_eq_append window_def)

lemma take_window: "take n (window xs h t) = window xs h (min t (h + n))"
  by (simp add: window_def take_map min_def)

lemma drop_window: "drop n (window xs h t) = window xs (h + n) t"
  by (simp add: window_def drop_map)

text \<open>Copying a window, item by item, into an array at least as long as the window.\<close>

definition blit :: "(nat \<Rightarrow> 'a) \<Rightarrow> 'a list \<Rightarrow> nat \<Rightarrow> nat \<Rightarrow> 'a list" where
  "blit f dst h t = foldl (\<lambda>xs j. xs[j mod length dst := f j]) dst [h..<t]"

lemma blit_self [simp]: "t \<le> h \<Longrightarrow> blit f dst h t = dst"
  by (simp add: blit_def)

lemma blit_Suc: "h \<le> t \<Longrightarrow> blit f dst h (Suc t) = (blit f dst h t)[t mod length dst := f t]"
  by (simp add: blit_def)

lemma length_blit [simp]: "length (blit f dst h t) = length dst"
proof (induction t)
  case (Suc t)
  then show ?case by (cases "h \<le> t") (simp_all add: blit_Suc not_le)
qed simp

lemma blit_Cons:
  assumes "h < t"
  shows "blit f (dst[h mod length dst := f h]) (Suc h) t = blit f dst h t"
  using assms by (simp add: blit_def upt_conv_Cons)

lemma blit_nth:
  assumes "h \<le> j" "j < h + length dst" "t \<le> h + length dst"
  shows "blit f dst h t ! (j mod length dst) = (if j < t then f j else dst ! (j mod length dst))"
  using assms(3)
proof (induction t)
  case (Suc t)
  show ?case
  proof (cases "h \<le> t")
    case True
    have "j mod length dst = t mod length dst \<longleftrightarrow> j = t"
      using mod_window_inj [of j "length dst" t h] True Suc.prems assms by auto
    moreover have "j mod length dst < length dst"
      using assms by (intro mod_less_divisor) linarith
    ultimately show ?thesis
      using True Suc by (auto simp: blit_Suc nth_list_update)
  qed (use assms in auto)
qed (use assms in auto)

lemma window_blit:
  assumes "t \<le> h + length dst"
  shows "window (blit f dst h t) h t = map f [h..<t]"
  using assms by (simp add: window_def blit_nth)

lemma blit_append:
  assumes "h \<le> m" "m \<le> t"
  shows "blit f (blit f dst h m) m t = blit f dst h t"
proof -
  have "[h..<t] = [h..<m] @ [m..<t]"
    using assms by (metis le_add_diff_inverse upt_add_eq_append)
  then show ?thesis
    using length_blit [of f dst h m] by (simp add: blit_def)
qed

lemma mod_contiguous:
  fixes h i n :: nat
  assumes "h mod n + i < n"
  shows "(h + i) mod n = h mod n + i"
  using assms by (metis mod_add_left_eq mod_less)

lemma window_contiguous:
  assumes "h mod length xs + m \<le> length xs"
  shows "window xs h (h + m) = take m (drop (h mod length xs) xs)"
  using assms by (intro nth_equalityI) (auto simp: window_nth mod_contiguous)

lemma clear_contiguous:
  assumes "h mod length xs + m \<le> length xs"
  shows "take (h mod length xs) xs @ replicate m z @ drop (h mod length xs + m) xs
         = blit (\<lambda>_. z) xs h (h + m)"
  using assms
proof (induction m)
  case (Suc m)
  let ?s = "h mod length xs"
  have "blit (\<lambda>_. z) xs h (h + Suc m) = (blit (\<lambda>_. z) xs h (h + m))[?s + m := z]"
    using Suc.prems by (simp add: blit_Suc mod_contiguous)
  also have "blit (\<lambda>_. z) xs h (h + m) = take ?s xs @ replicate m z @ drop (?s + m) xs"
    using Suc by simp
  also have "(take ?s xs @ replicate m z @ drop (?s + m) xs)[?s + m := z]
      = take ?s xs @ replicate m z @ (drop (?s + m) xs)[0 := z]"
    using Suc.prems by (simp add: list_update_append)
  also have "(drop (?s + m) xs)[0 := z] = z # drop (?s + Suc m) xs"
    using Suc.prems by (simp add: Cons_nth_drop_Suc [symmetric])
  also have "replicate m z @ z # drop (?s + Suc m) xs
      = replicate (Suc m) z @ drop (?s + Suc m) xs"
    by (simp add: replicate_append_same flip: append_assoc append_Cons)
  finally show ?case by simp
qed simp

lemma map_nth_segment:
  "h + n \<le> length xs \<Longrightarrow> map (nth xs) [h..<h + n] = take n (drop h xs)"
  by (intro nth_equalityI) auto

section \<open>Goroutines indexed by numbers\<close>

text \<open>
  A system keeps a program counter per goroutine, all but finitely many of them idle. A step changes
  one; a measure is the sum of a weight over those that are not idle.
\<close>

lemma finite_update_bool:
  "finite {x. f x} \<Longrightarrow> finite {x. (f(a := b)) x}"
  by (rule finite_subset [of _ "insert a {x. f x}"]) auto

lemma finite_update_pred:
  "finite {x. f x \<noteq> c} \<Longrightarrow> finite {x. (f(a := b)) x \<noteq> c}"
  by (rule finite_subset [of _ "insert a {x. f x \<noteq> c}"]) auto

lemma card_update_False:
  assumes "finite {i. f i}" "f a"
  shows "card {i. (f(a := False)) i} < card {i. f i}"
  using assms by (intro psubset_card_mono) auto

lemma sum_update_decreases:
  fixes w :: "'p \<Rightarrow> nat"
  assumes fin: "finite {h. f h \<noteq> c}" and less: "w x < w (f g)" and idle: "w c = 0"
  shows "(\<Sum>h | (f(g := x)) h \<noteq> c. w ((f(g := x)) h)) < (\<Sum>h | f h \<noteq> c. w (f h))"
proof -
  let ?A = "insert g {h. f h \<noteq> c}"
  have "(\<Sum>h | (f(g := x)) h \<noteq> c. w ((f(g := x)) h)) = (\<Sum>h\<in>?A. w ((f(g := x)) h))"
    using fin idle by (intro sum.mono_neutral_left) auto
  also have "\<dots> < (\<Sum>h\<in>?A. w (f h))"
    using fin less by (intro sum_strict_mono_ex1) auto
  also have "\<dots> = (\<Sum>h | f h \<noteq> c. w (f h))"
    using fin idle by (intro sum.mono_neutral_right) auto
  finally show ?thesis .
qed

end
