(* ===== verification/RingBuffer.thy ===== *)
theory RingBuffer
  imports Prelude
begin

text \<open>
  \<^verbatim>\<open>src/ringbuffer/ringbuffer.go\<close>: the growable ring buffer behind an actor's inbox.
  This theory models every operation as the Go code runs when it is not interrupted (all
  of \<open>New\<close>, \<open>Push\<close>, \<open>Pop\<close>, \<open>PopN\<close>, \<open>Len\<close>, \<open>grow\<close>, \<open>enterConsumer\<close>,
  \<open>leaveConsumer\<close>, \<open>roundUpPow2\<close>) on int64 words with their wrap-around, bounds checks and
  blocking written out; the theory \<open>RingBuffer_Conc\<close> interleaves the same atomic accesses.

  \<^item> \<open>rb_inv\<close> is the representation invariant, \<open>rb_list\<close> the queue a buffer stands for.
  \<^item> The locale \<open>fifo_queue\<close> is the contract the inbox relies on; it is interpreted on the
    ring buffer at the end.

  The zero value of Go's element type is the argument \<open>zero\<close>. The pointer returned by
  \<open>grow\<close> is always the one stored in \<open>content\<close>, so a write through it is a write to
  \<open>content\<close>.
\<close>

section \<open>Data\<close>

definition minSize :: int64 where "minSize = 2"

definition maxSize :: int64 where "maxSize = push_bit 62 1"

record 'a buffer =
  items :: "'a list"
  mask :: int64

record 'a RingBuffer =
  content :: "'a buffer"
  head :: int64
  tail :: int64
  rlength :: int64
  mu :: bool
  growing :: bool
  popping :: bool

section \<open>Operations\<close>

text \<open>\<open>bits.Len64\<close> of Go's standard library: the number of bits needed for a value.\<close>

fun bit_len :: "nat \<Rightarrow> nat" where
  "bit_len n = (if n = 0 then 0 else Suc (bit_len (n div 2)))"

declare bit_len.simps [simp del]

definition Len64 :: "uint64 \<Rightarrow> nat" where
  "Len64 x = bit_len (unat x)"

definition roundUpPow2 :: "int64 \<Rightarrow> int64" where
  "roundUpPow2 sz =
     (if sint sz \<le> sint minSize then minSize
      else if sint maxSize \<le> sint sz then maxSize
      else if sz AND (sz - 1) = 0 then sz
      else push_bit (Len64 (sz - 1)) 1)"

definition New :: "'a \<Rightarrow> int64 \<Rightarrow> 'a RingBuffer outcome" where
  "New zero sz =
     (let sz = roundUpPow2 sz in
      obind (make_slice zero sz) (\<lambda>xs.
      Return \<lparr>content = \<lparr>items = xs, mask = sz - 1\<rparr>, head = 0, tail = 0, rlength = 0,
              mu = False, growing = False, popping = False\<rparr>))"

text \<open>The copy loop of \<open>grow\<close>: \<open>for i := head; i < tail; i++\<close>.\<close>

function grow_copy :: "'a buffer \<Rightarrow> int64 \<Rightarrow> int64 \<Rightarrow> int64 \<Rightarrow> 'a list \<Rightarrow> 'a list outcome" where
  "grow_copy old msk i tail' xs =
     (if sint i < sint tail'
      then obind (slice_get (items old) (i AND mask old)) (\<lambda>v.
           obind (slice_set xs (i AND msk) v) (\<lambda>xs'.
           grow_copy old msk (i + 1) tail' xs'))
      else Return xs)"
  by pat_completeness auto
termination
  by (relation "measure (\<lambda>(old, msk, i, tail', xs). nat (sint tail' - sint i))")
     (auto simp: sint_add_one)

declare grow_copy.simps [simp del]

definition grow :: "'a \<Rightarrow> 'a buffer \<Rightarrow> int64 \<Rightarrow> 'a RingBuffer
    \<Rightarrow> ('a buffer \<times> 'a RingBuffer) outcome" where
  "grow zero old tail' rb =
     (let rb = rb\<lparr>growing := True\<rparr> in
      if popping rb then Block
      else let head' = head rb in
        if sint (tail' - head') \<le> sint (mask old) then Return (old, rb\<lparr>growing := False\<rparr>)
        else let sz = (mask old + 1) * 2 in
          obind (make_slice zero sz) (\<lambda>xs.
          let msk = sz - 1 in
          obind (grow_copy old msk head' tail' xs) (\<lambda>xs.
          let b = \<lparr>items = xs, mask = msk\<rparr> in
          Return (b, rb\<lparr>content := b, growing := False\<rparr>))))"

definition Push :: "'a \<Rightarrow> 'a \<Rightarrow> 'a RingBuffer \<Rightarrow> (bool \<times> 'a RingBuffer) outcome" where
  "Push zero item rb =
     (if mu rb then Block
      else let rb = rb\<lparr>mu := True\<rparr>; b = content rb; tail' = tail rb in
        obind (if sint (tail' - head rb) > sint (mask b) then grow zero b tail' rb
               else Return (b, rb)) (\<lambda>(b, rb).
        obind (slice_set (items b) (tail' AND mask b) item) (\<lambda>xs.
        let rb = rb\<lparr>content := b\<lparr>items := xs\<rparr>\<rparr>;
            rb = rb\<lparr>tail := tail' + 1\<rparr>;
            rb = rb\<lparr>rlength := rlength rb + 1\<rparr>
        in Return (True, rb\<lparr>mu := False\<rparr>))))"

definition enterConsumer :: "'a RingBuffer \<Rightarrow> 'a RingBuffer outcome" where
  "enterConsumer rb = (if growing rb then Block else Return (rb\<lparr>popping := True\<rparr>))"

definition leaveConsumer :: "'a RingBuffer \<Rightarrow> 'a RingBuffer" where
  "leaveConsumer rb = rb\<lparr>popping := False\<rparr>"

definition Pop :: "'a \<Rightarrow> 'a RingBuffer \<Rightarrow> (('a \<times> bool) \<times> 'a RingBuffer) outcome" where
  "Pop zero rb =
     (if rlength rb = 0 then Return ((zero, False), rb)
      else obind (enterConsumer rb) (\<lambda>rb.
        let b = content rb; head' = head rb; slot = head' AND mask b in
        obind (slice_get (items b) slot) (\<lambda>item.
        obind (slice_set (items b) slot zero) (\<lambda>xs.
        let rb = rb\<lparr>content := b\<lparr>items := xs\<rparr>\<rparr>;
            rb = rb\<lparr>rlength := rlength rb - 1\<rparr>;
            rb = rb\<lparr>head := head' + 1\<rparr>
        in Return ((item, True), leaveConsumer rb)))))"

definition min64 :: "int64 \<Rightarrow> int64 \<Rightarrow> int64" where
  "min64 a b = (if sint b < sint a then b else a)"

text \<open>The copy of \<open>PopN\<close> out of the array: contiguous up to its end, then it wraps.\<close>

definition PopN_copy :: "'a \<Rightarrow> int64 \<Rightarrow> 'a list \<Rightarrow> 'a buffer \<Rightarrow> int64
    \<Rightarrow> ('a list \<times> 'a list) outcome" where
  "PopN_copy zero n its b head' =
     (let start = head' AND mask b;
          first = min64 n (mask b + 1 - start) in
      obind (slice_range (items b) start (start + first)) (\<lambda>src.
      obind (copy_into its 0 src) (\<lambda>its.
      obind (clear_range zero (items b) start (start + first)) (\<lambda>xs.
      let rest = n - first in
      if sint rest > 0
      then obind (slice_range xs 0 rest) (\<lambda>src.
           obind (copy_into its first src) (\<lambda>its.
           obind (clear_range zero xs 0 rest) (\<lambda>xs. Return (its, xs))))
      else Return (its, xs)))))"

definition PopN :: "'a \<Rightarrow> int64 \<Rightarrow> 'a RingBuffer
    \<Rightarrow> (('a list \<times> bool) \<times> 'a RingBuffer) outcome" where
  "PopN zero n rb =
     (if sint n \<le> 0 then Return (([], False), rb)
      else let queued = rlength rb in
      if queued = 0 then Return (([], False), rb)
      else let n = min64 n queued in
        obind (make_slice zero n) (\<lambda>its.
        obind (enterConsumer rb) (\<lambda>rb.
        let b = content rb; head' = head rb in
        obind (PopN_copy zero n its b head') (\<lambda>(its, xs).
        let rb = rb\<lparr>content := b\<lparr>items := xs\<rparr>\<rparr>;
            rb = rb\<lparr>rlength := rlength rb - n\<rparr>;
            rb = rb\<lparr>head := head' + n\<rparr>
        in Return ((its, True), leaveConsumer rb)))))"

definition Len :: "'a RingBuffer \<Rightarrow> int64" where
  "Len rb = rlength rb"

section \<open>Representation invariant and abstraction\<close>

definition buf_ok :: "'a buffer \<Rightarrow> nat \<Rightarrow> bool" where
  "buf_ok b k \<longleftrightarrow> 1 \<le> k \<and> k \<le> 62 \<and> length (items b) = 2 ^ k \<and> mask b = 2 ^ k - 1"

definition rb_list :: "'a RingBuffer \<Rightarrow> 'a list" where
  "rb_list rb = window (items (content rb)) (unat (head rb)) (unat (tail rb))"

text \<open>
  A buffer that holds the absolute indices \<open>h ..< t\<close>: they fit, the cursors have not left
  the non-negative half of int64, and every slot outside the window is zeroed.
\<close>

definition ring_ok :: "'a \<Rightarrow> 'a buffer \<Rightarrow> nat \<Rightarrow> nat \<Rightarrow> bool" where
  "ring_ok zero b h t \<longleftrightarrow>
     (\<exists>k. buf_ok b k) \<and> h \<le> t \<and> t < 2 ^ 63 \<and> t - h \<le> length (items b) \<and>
     (\<forall>j. t \<le> j \<and> j < h + length (items b) \<longrightarrow> items b ! (j mod length (items b)) = zero)"

definition rb_inv :: "'a \<Rightarrow> 'a RingBuffer \<Rightarrow> bool" where
  "rb_inv zero rb \<longleftrightarrow>
     ring_ok zero (content rb) (unat (head rb)) (unat (tail rb)) \<and>
     rlength rb = tail rb - head rb \<and> \<not> mu rb \<and> \<not> growing rb \<and> \<not> popping rb"

text \<open>
  Room for \<open>r\<close> more items: the tail cursor stays inside the non-negative half of int64
  and at most \<open>2 ^ 62\<close> items are ever queued (the largest array \<open>grow\<close> can allocate).
\<close>

definition rb_room :: "nat \<Rightarrow> 'a RingBuffer \<Rightarrow> bool" where
  "rb_room r rb \<longleftrightarrow> unat (tail rb) + r < 2 ^ 63 \<and> length (rb_list rb) + r \<le> 2 ^ 62"

lemma rb_room_code [code]:
  "rb_room r rb \<longleftrightarrow> uint (tail rb) + int r < 2 ^ 63 \<and> int (length (rb_list rb)) + int r \<le> 2 ^ 62"
proof -
  have "uint (tail rb) + int r < 2 ^ 63 \<longleftrightarrow> unat (tail rb) + r < 2 ^ 63"
    using of_nat_less_iff [of "unat (tail rb) + r" "2 ^ 63", where 'a = int] by (simp add: uint_nat)
  moreover have "int (length (rb_list rb)) + int r \<le> 2 ^ 62 \<longleftrightarrow> length (rb_list rb) + r \<le> 2 ^ 62"
    using of_nat_le_iff [of "length (rb_list rb) + r" "2 ^ 62", where 'a = int] by simp
  ultimately show ?thesis by (simp add: rb_room_def)
qed

section \<open>Cursor arithmetic\<close>

lemma buf_ok_bounds:
  assumes "buf_ok b k"
  shows "length (items b) < 2 ^ 63" "0 < length (items b)" "length (items b) \<le> 2 ^ 62"
proof -
  have "length (items b) \<le> 2 ^ 62"
    using assms by (simp add: buf_ok_def power_increasing del: power_numeral)
  then show "length (items b) \<le> 2 ^ 62" "length (items b) < 2 ^ 63" by auto
  show "0 < length (items b)" using assms by (simp add: buf_ok_def)
qed

lemma unat_mask [ring_simps]:
  "buf_ok b k \<Longrightarrow> unat (mask b) = length (items b) - 1"
  by (simp add: buf_ok_def unat_pow2_minus_1)

lemma unat_slot [ring_simps]:
  "buf_ok b k \<Longrightarrow> unat (c AND mask b) = unat c mod length (items b)"
  by (simp add: buf_ok_def unat_and_mask)

lemma sint_small [ring_simps]:
  "unat (w :: int64) \<le> 2 ^ 62 \<Longrightarrow> sint w = int (unat w)"
  by (rule sint_unat_small) simp

lemma sint_slot [ring_simps]:
  assumes "buf_ok b k"
  shows "sint (c AND mask b) = int (unat c mod length (items b))"
proof -
  have "unat c mod length (items b) < length (items b)"
    using buf_ok_bounds [OF assms] by simp
  then have "unat (c AND mask b) \<le> 2 ^ 62"
    using assms buf_ok_bounds(3) [OF assms] by (simp add: unat_slot)
  then show ?thesis using assms by (simp add: sint_small unat_slot)
qed

lemma get_slot [ring_simps]:
  assumes "buf_ok b k" "length xs = length (items b)"
  shows "slice_get xs (c AND mask b) = Return (xs ! (unat c mod length (items b)))"
  using assms buf_ok_bounds [OF assms(1)] by (simp add: slice_get_def sint_slot)

lemma set_slot [ring_simps]:
  assumes "buf_ok b k" "length xs = length (items b)"
  shows "slice_set xs (c AND mask b) x = Return (xs[unat c mod length (items b) := x])"
  using assms buf_ok_bounds [OF assms(1)] by (simp add: slice_set_def sint_slot)

lemma full_iff:
  fixes h t :: int64
  assumes "buf_ok b k" "unat h \<le> unat t" "unat t - unat h \<le> length (items b)"
  shows "sint (t - h) > sint (mask b) \<longleftrightarrow> unat t - unat h = length (items b)"
proof -
  note b = buf_ok_bounds [OF assms(1)]
  have d: "unat (t - h) = unat t - unat h"
    using assms(2) by (rule unat_sub_small)
  have "sint (mask b) < sint (t - h) \<longleftrightarrow> unat (mask b) < unat (t - h)"
    by (rule sint_less_small) (use assms(3) b d in \<open>auto simp: unat_mask [OF assms(1)]\<close>)
  then show ?thesis
    using assms(3) b d by (auto simp: unat_mask [OF assms(1)])
qed

section \<open>Growing\<close>

lemma grow_copy_blit:
  assumes "buf_ok old k" "buf_ok \<lparr>items = xs, mask = msk\<rparr> k'"
    and "unat i \<le> unat t" "unat t < 2 ^ 63"
  shows "grow_copy old msk i t xs =
    Return (blit (\<lambda>j. items old ! (j mod length (items old))) xs (unat i) (unat t))"
  using assms
proof (induction old msk i t xs rule: grow_copy.induct)
  case (1 old msk i t xs)
  have s: "sint i < sint t \<longleftrightarrow> unat i < unat t"
    by (rule sint_less_small) (use "1.prems" in auto)
  show ?case
  proof (cases "unat i < unat t")
    case True
    have i: "unat (i + 1) = Suc (unat i)"
      using True "1.prems"(4) by (subst unat_add_small) auto
    let ?v = "items old ! (unat i mod length (items old))"
    let ?xs = "xs[unat i mod length xs := ?v]"
    have g: "slice_get (items old) (i AND mask old) = Return ?v"
      using get_slot [OF "1.prems"(1), of "items old" i] by simp
    have u: "slice_set xs (i AND msk) ?v = Return ?xs"
      using set_slot [OF "1.prems"(2), of xs i] by simp
    have ok: "buf_ok \<lparr>items = ?xs, mask = msk\<rparr> k'"
      using "1.prems"(2) by (simp add: buf_ok_def)
    have "grow_copy old msk (i + 1) t ?xs =
      Return (blit (\<lambda>j. items old ! (j mod length (items old))) ?xs (Suc (unat i)) (unat t))"
      using "1.IH" [OF _ g u "1.prems"(1) ok] s True i "1.prems" by simp
    moreover note blit_Cons [OF True, of "\<lambda>j. items old ! (j mod length (items old))" xs]
    ultimately show ?thesis
      using True s g u by (simp add: grow_copy.simps [of old msk i])
  next
    case False
    then show ?thesis using s by (simp add: grow_copy.simps [of old msk i])
  qed
qed

lemma doubled_mask:
  assumes "buf_ok b k" "k < 62"
  shows "(mask b + 1) * 2 = (2 ^ Suc k :: int64)"
  using assms by (simp add: buf_ok_def)

lemma make_doubled:
  assumes "k < 62"
  shows "make_slice zero (2 ^ Suc k :: int64) = Return (replicate (2 ^ Suc k) zero)"
proof -
  have "unat (2 ^ Suc k :: int64) = 2 ^ Suc k"
    using assms by (intro unat_pow2) simp
  moreover have "(2 :: nat) ^ Suc k \<le> 2 ^ 62"
    using assms by (intro power_increasing) auto
  ultimately have "sint (2 ^ Suc k :: int64) = int (2 ^ Suc k)"
    by (metis sint_small)
  then show ?thesis by (simp add: make_slice_def del: power_Suc)
qed

text \<open>
  A grow on a full buffer publishes an array of twice the size whose window is the old
  window, the rest of it zeroed.
\<close>

lemma grow_full:
  assumes inv: "buf_ok (content rb) k" "k < 62" "\<not> popping rb"
    and cur: "unat (head rb) \<le> unat t" "unat t < 2 ^ 63"
    and full: "unat t - unat (head rb) = length (items (content rb))"
  obtains b where "grow zero (content rb) t rb = Return (b, rb\<lparr>content := b, growing := False\<rparr>)"
    and "buf_ok b (Suc k)"
    and "window (items b) (unat (head rb)) (unat t)
         = window (items (content rb)) (unat (head rb)) (unat t)"
    and "\<forall>j. unat t \<le> j \<and> j < unat (head rb) + length (items b) \<longrightarrow>
           items b ! (j mod length (items b)) = zero"
    and "items b = blit (\<lambda>j. items (content rb) ! (j mod length (items (content rb))))
           (replicate (2 * length (items (content rb))) zero) (unat (head rb)) (unat t)"
proof -
  let ?old = "content rb" and ?h = "unat (head rb)" and ?t = "unat t"
  let ?f = "\<lambda>j. items ?old ! (j mod length (items ?old))"
  let ?z = "replicate (2 ^ Suc k) zero" and ?m = "2 ^ Suc k - 1 :: int64"
  let ?b = "\<lparr>items = blit ?f ?z ?h ?t, mask = ?m\<rparr>"
  have nf: "\<not> sint (t - head rb) \<le> sint (mask ?old)"
    using full_iff [OF inv(1) cur(1)] full by simp
  have okz: "buf_ok \<lparr>items = ?z, mask = ?m\<rparr> (Suc k)"
    using inv by (simp add: buf_ok_def del: power_Suc)
  have gc: "grow_copy ?old ?m (head rb) t ?z = Return (blit ?f ?z ?h ?t)"
    by (rule grow_copy_blit [OF inv(1) okz cur])
  have le: "?t \<le> ?h + 2 ^ Suc k"
    using inv full cur by (simp add: buf_ok_def)
  show thesis
  proof (rule that)
    show "grow zero ?old t rb = Return (?b, rb\<lparr>content := ?b, growing := False\<rparr>)"
      unfolding grow_def Let_def doubled_mask [OF inv(1,2)] make_doubled [OF inv(2)]
      using nf inv gc by (simp del: power_Suc)
    show "buf_ok ?b (Suc k)" using okz by (simp add: buf_ok_def)
    show "window (items ?b) ?h ?t = window (items ?old) ?h ?t"
      using le by (simp add: window_blit window_def [of "items ?old"] del: power_Suc)
    show "\<forall>j. ?t \<le> j \<and> j < ?h + length (items ?b) \<longrightarrow> items ?b ! (j mod length (items ?b)) = zero"
      using blit_nth [of ?h _ ?z ?t ?f] le cur by (auto simp del: power_Suc)
    show "items ?b = blit ?f (replicate (2 * length (items ?old)) zero) ?h ?t"
      using inv(1) by (simp add: buf_ok_def)
  qed
qed

lemma length_rb_list: "length (rb_list rb) = unat (tail rb) - unat (head rb)"
  by (simp add: rb_list_def)

section \<open>One push, one batch of pops\<close>

lemma buf_ok_items [simp]:
  "length xs = length (items b) \<Longrightarrow> buf_ok (b\<lparr>items := xs\<rparr>) k = buf_ok b k"
  by (simp add: buf_ok_def)

lemma ring_ok_push:
  assumes "ring_ok zero b h t" "t - h < length (items b)" "Suc t < 2 ^ 63"
  shows "ring_ok zero (b\<lparr>items := (items b)[t mod length (items b) := x]\<rparr>) h (Suc t)"
proof -
  have "(items b)[t mod length (items b) := x] ! (j mod length (items b)) = zero"
    if "Suc t \<le> j" "j < h + length (items b)" for j
  proof -
    have "t mod length (items b) \<noteq> j mod length (items b)"
      using mod_window_inj [of j "length (items b)" t h] that assms(1) by (auto simp: ring_ok_def)
    then show ?thesis using assms(1) that by (simp add: ring_ok_def)
  qed
  then show ?thesis using assms by (auto simp: ring_ok_def)
qed

lemma ring_ok_popn:
  assumes "ring_ok zero b h t" "n \<le> t - h"
  defines "xs \<equiv> blit (\<lambda>_. zero) (items b) h (h + n)"
  shows "ring_ok zero (b\<lparr>items := xs\<rparr>) (h + n) t"
    and "window xs (h + n) t = window (items b) (h + n) t"
proof -
  let ?L = "length (items b)"
  have nth: "xs ! (j mod ?L) = (if j < h + n then zero else items b ! (j mod ?L))"
    if "h \<le> j" "j < h + ?L" for j
    unfolding xs_def by (rule blit_nth) (use that assms in \<open>auto simp: ring_ok_def\<close>)
  have "xs ! (j mod ?L) = zero" if "t \<le> j" "j < h + n + ?L" for j
  proof (cases "j < h + ?L")
    case True
    then show ?thesis using nth [of j] that assms by (auto simp: ring_ok_def)
  next
    case False
    then have "xs ! ((j - ?L) mod ?L) = zero"
      using nth [of "j - ?L"] that assms by (auto simp: ring_ok_def)
    then show ?thesis using False by (simp add: mod_if [of j])
  qed
  then show "ring_ok zero (b\<lparr>items := xs\<rparr>) (h + n) t"
    using assms by (auto simp: ring_ok_def)
  show "window xs (h + n) t = window (items b) (h + n) t"
    using assms nth by (auto simp: window_def ring_ok_def)
qed

lemma ring_ok_pop:
  assumes "ring_ok zero b h t" "h < t"
  defines "xs \<equiv> (items b)[h mod length (items b) := zero]"
  shows "ring_ok zero (b\<lparr>items := xs\<rparr>) (Suc h) t"
    and "window xs (Suc h) t = window (items b) (Suc h) t"
proof -
  have "xs = blit (\<lambda>_. zero) (items b) h (h + 1)"
    by (simp add: xs_def blit_Suc)
  then show "ring_ok zero (b\<lparr>items := xs\<rparr>) (Suc h) t"
    "window xs (Suc h) t = window (items b) (Suc h) t"
    using ring_ok_popn [OF assms(1), of 1] assms(2) by auto
qed

section \<open>Push appends, Pop and PopN remove from the front\<close>

text \<open>The array that \<open>Push\<close> stores into: the current one, or the one \<open>grow\<close> makes of it.\<close>

definition roomy_items :: "'a \<Rightarrow> 'a RingBuffer \<Rightarrow> 'a list" where
  "roomy_items zero rb =
     (let xs = items (content rb); h = unat (head rb); t = unat (tail rb) in
      if t - h = length xs then blit (\<lambda>j. xs ! (j mod length xs)) (replicate (2 * length xs) zero) h t else xs)"

text \<open>
  The second half of \<open>Push\<close>, once a buffer with a free slot is at hand: the item is
  stored behind the window and the cursors move.
\<close>

lemma Push_store:
  fixes rb :: "'a RingBuffer"
  defines "locked \<equiv> rb\<lparr>mu := True\<rparr>"
  assumes inv: "rb_inv zero rb" and room: "rb_room (Suc r) rb"
    and g: "(if sint (tail rb - head rb) > sint (mask (content rb))
             then grow zero (content rb) (tail rb) locked else Return (content rb, locked))
            = Return (b, locked\<lparr>content := b, growing := False\<rparr>)"
    and b: "ring_ok zero b (unat (head rb)) (unat (tail rb))"
      "unat (tail rb) - unat (head rb) < length (items b)"
      "window (items b) (unat (head rb)) (unat (tail rb)) = rb_list rb"
  obtains rb' where "Push zero x rb = Return (True, rb')" and "rb_inv zero rb'"
    and "rb_list rb' = rb_list rb @ [x]" and "head rb' = head rb" and "tail rb' = tail rb + 1"
    and "items (content rb') = (items b)[unat (tail rb) mod length (items b) := x]"
proof -
  let ?h = "unat (head rb)" and ?t = "unat (tail rb)"
  obtain k where ok: "buf_ok b k" using b by (auto simp: ring_ok_def)
  let ?b = "b\<lparr>items := (items b)[?t mod length (items b) := x]\<rparr>"
  let ?rb' = "rb\<lparr>content := ?b, tail := tail rb + 1, rlength := rlength rb + 1,
                 mu := False, growing := False\<rparr>"
  have t1: "unat (tail rb + 1) = Suc ?t"
    using room by (subst unat_add_small) (auto simp: rb_room_def)
  have "Push zero x rb = Return (True, ?rb')"
    using inv g [unfolded locked_def] set_slot [OF ok, of "items b" "tail rb" x]
    by (simp add: Push_def Let_def rb_inv_def cong: if_cong split del: if_split)
  moreover have "rb_inv zero ?rb'"
    using inv ring_ok_push [OF b(1,2)] room t1 by (simp add: rb_inv_def rb_room_def)
  moreover have "rb_list ?rb' = rb_list rb @ [x]"
    using window_push [of ?h ?t "items b" x] b t1 by (auto simp: rb_list_def ring_ok_def)
  ultimately show thesis by (rule that) simp_all
qed

lemma Push_spec:
  assumes inv: "rb_inv zero rb" and room: "rb_room (Suc r) rb"
  obtains rb' where "Push zero x rb = Return (True, rb')" and "rb_inv zero rb'"
    and "rb_list rb' = rb_list rb @ [x]" and "head rb' = head rb" and "tail rb' = tail rb + 1"
    and "items (content rb') = (roomy_items zero rb)[unat (tail rb) mod length (roomy_items zero rb) := x]"
proof -
  let ?h = "unat (head rb)" and ?t = "unat (tail rb)"
  obtain k where ok: "buf_ok (content rb) k" and r: "ring_ok zero (content rb) ?h ?t"
    using inv by (auto simp: rb_inv_def ring_ok_def)
  have cur: "?h \<le> ?t" "?t < 2 ^ 63" "?t - ?h \<le> length (items (content rb))"
    using r by (auto simp: ring_ok_def)
  note full = full_iff [OF ok cur(1,3)]
  show thesis
  proof (cases "?t - ?h = length (items (content rb))")
    case False
    have "rb\<lparr>mu := True, content := content rb, growing := False\<rparr> = rb\<lparr>mu := True\<rparr>"
      using inv by (simp add: rb_inv_def)
    then have g: "(if sint (tail rb - head rb) > sint (mask (content rb))
        then grow zero (content rb) (tail rb) (rb\<lparr>mu := True\<rparr>)
        else Return (content rb, rb\<lparr>mu := True\<rparr>))
      = Return (content rb, rb\<lparr>mu := True, content := content rb, growing := False\<rparr>)"
      using False full by simp
    have lt: "?t - ?h < length (items (content rb))" using False cur(3) by simp
    have "items (content rb) = roomy_items zero rb" using False by (simp add: roomy_items_def)
    then show thesis
      using Push_store [OF inv room g r lt rb_list_def [symmetric], of x] that by metis
  next
    case True
    have "length (items (content rb)) < 2 ^ 62"
      using True room by (simp add: rb_room_def rb_list_def)
    then have "(2 :: nat) ^ k < 2 ^ 62" using ok by (simp add: buf_ok_def)
    then have k: "k < 62" by (rule power_less_imp_less_exp [rotated]) simp
    let ?rb = "rb\<lparr>mu := True\<rparr>"
    obtain b where b: "grow zero (content ?rb) (tail rb) ?rb
        = Return (b, ?rb\<lparr>content := b, growing := False\<rparr>)" "buf_ok b (Suc k)"
      "window (items b) ?h ?t = window (items (content rb)) ?h ?t"
      "\<forall>j. ?t \<le> j \<and> j < ?h + length (items b) \<longrightarrow> items b ! (j mod length (items b)) = zero"
      "items b = roomy_items zero rb"
      using grow_full [of ?rb k "tail rb" zero] ok k inv cur True
      by (auto simp: rb_inv_def roomy_items_def Let_def)
    have lt: "?t - ?h < length (items b)"
      using True ok b(2) by (simp add: buf_ok_def)
    then have r': "ring_ok zero b ?h ?t"
      using b(2,4) cur by (auto simp: ring_ok_def)
    have g: "(if sint (tail rb - head rb) > sint (mask (content rb))
        then grow zero (content rb) (tail rb) ?rb else Return (content rb, ?rb))
      = Return (b, ?rb\<lparr>content := b, growing := False\<rparr>)"
      using b(1) True full by simp
    show thesis
      using Push_store [OF inv room g r' lt b(3) [folded rb_list_def], of x] that b(5) by metis
  qed
qed

lemma Pop_spec:
  assumes inv: "rb_inv zero rb" and ne: "rb_list rb \<noteq> []"
  obtains rb' where "Pop zero rb = Return ((hd (rb_list rb), True), rb')" and "rb_inv zero rb'"
    and "rb_list rb' = tl (rb_list rb)" and "tail rb' = tail rb" and "unat (head rb') = Suc (unat (head rb))"
    and "items (content rb') = (items (content rb))[unat (head rb) mod length (items (content rb)) := zero]"
proof -
  let ?h = "unat (head rb)" and ?t = "unat (tail rb)" and ?b = "content rb"
  obtain k where ok: "buf_ok ?b k" and r: "ring_ok zero ?b ?h ?t"
    using inv by (auto simp: rb_inv_def ring_ok_def)
  have lt: "?h < ?t" using ne by (cases "?h < ?t") (auto simp: rb_list_def)
  let ?xs = "(items ?b)[?h mod length (items ?b) := zero]"
  let ?rb' = "rb\<lparr>content := ?b\<lparr>items := ?xs\<rparr>, rlength := rlength rb - 1, head := head rb + 1,
                 popping := False\<rparr>"
  have h1: "unat (head rb + 1) = Suc ?h"
    using lt r by (subst unat_add_small) (auto simp: ring_ok_def)
  have nz: "rlength rb \<noteq> 0" using inv lt by (auto simp: rb_inv_def)
  have np: "\<not> growing rb" using inv by (simp add: rb_inv_def)
  have "Pop zero rb = Return ((items ?b ! (?h mod length (items ?b)), True), ?rb')"
    using nz np get_slot [OF ok, of "items ?b" "head rb"] set_slot [OF ok, of "items ?b" "head rb" zero]
    by (simp add: Pop_def enterConsumer_def leaveConsumer_def Let_def)
  moreover have "items ?b ! (?h mod length (items ?b)) = hd (rb_list rb)"
    using lt by (simp add: rb_list_def window_Cons)
  moreover have "rb_inv zero ?rb'"
    using inv ring_ok_pop(1) [OF r lt] h1 by (simp add: rb_inv_def)
  moreover have "rb_list ?rb' = tl (rb_list rb)"
    using ring_ok_pop(2) [OF r lt] lt h1 by (simp add: rb_list_def window_Cons [of ?h])
  ultimately show thesis using h1 by (intro that [of ?rb']) simp_all
qed

lemma rlength_zero_iff:
  assumes "rb_inv zero rb"
  shows "rlength rb = 0 \<longleftrightarrow> rb_list rb = []"
proof -
  have le: "unat (head rb) \<le> unat (tail rb)"
    using assms by (simp add: rb_inv_def ring_ok_def)
  have "rb_list rb = [] \<longleftrightarrow> unat (tail rb) - unat (head rb) = 0"
    unfolding length_rb_list [symmetric] by simp
  also have "\<dots> \<longleftrightarrow> tail rb = head rb"
    using le by (auto simp: word_unat_eq_iff)
  finally show ?thesis using assms by (auto simp: rb_inv_def)
qed

lemma unat_rlength:
  assumes "rb_inv zero rb"
  shows "unat (rlength rb) = length (rb_list rb)"
  using assms by (simp add: rb_inv_def ring_ok_def length_rb_list unat_sub_small)

lemma Pop_empty:
  assumes "rb_inv zero rb" "rb_list rb = []"
  shows "Pop zero rb = Return ((zero, False), rb)"
  using assms rlength_zero_iff [OF assms(1)] by (simp add: Pop_def)

text \<open>
  The two-part copy of \<open>PopN\<close>: up to the end of the array, then from its start. Together
  the parts are the first \<open>n\<close> indices of the window, and the cleared slots are theirs.
\<close>

lemma wrapped_batch:
  fixes xs :: "'a list" and zero :: 'a and h n :: nat
  defines "s \<equiv> h mod length xs"
  defines "f \<equiv> min n (length xs - s)"
  defines "xs1 \<equiv> take s xs @ replicate f zero @ drop (s + f) xs"
  assumes "0 < length xs" "n \<le> length xs"
  shows "take f (drop s xs) @ take (n - f) xs1 = window xs h (h + n)"
    and "replicate (n - f) zero @ drop (n - f) xs1 = blit (\<lambda>_. zero) xs h (h + n)"
proof -
  have s: "s < length xs" using assms(4) by (simp add: s_def)
  have sf: "h mod length xs + f \<le> length xs" using s by (auto simp: f_def s_def)
  have xs1: "xs1 = blit (\<lambda>_. zero) xs h (h + f)"
    unfolding xs1_def s_def by (rule clear_contiguous [OF sf])
  have wf: "window xs h (h + f) = take f (drop s xs)"
    unfolding s_def by (rule window_contiguous [OF sf])
  have wrap: "(h + f) mod length xs = 0" if "f < n"
  proof -
    have "length xs * (h div length xs) + s = h" by (simp add: s_def)
    moreover have "f = length xs - s" using that by (simp add: f_def)
    ultimately have "h + f = length xs * (h div length xs) + length xs"
      using s by linarith
    then show ?thesis by simp
  qed
  have rest: "n - f \<le> s" using assms(5) s by (auto simp: f_def)
  have wr: "window xs (h + f) (h + n) = take (n - f) xs1"
  proof (cases "f < n")
    case True
    then have "window xs (h + f) (h + f + (n - f)) = take (n - f) xs"
      using window_contiguous [of "h + f" xs "n - f"] wrap rest s by simp
    then show ?thesis using True rest s by (simp add: xs1_def)
  qed (simp add: f_def)
  show "take f (drop s xs) @ take (n - f) xs1 = window xs h (h + n)"
    using window_append [of h "h + f" "h + n" xs] wf wr by (simp add: f_def)
  have "replicate (n - f) zero @ drop (n - f) xs1 = blit (\<lambda>_. zero) xs1 (h + f) (h + n)"
  proof (cases "f < n")
    case True
    have "length xs1 = length xs" by (simp add: xs1)
    then show ?thesis
      using clear_contiguous [of "h + f" xs1 "n - f" zero] True wrap rest s by simp
  qed (simp add: f_def)
  then show "replicate (n - f) zero @ drop (n - f) xs1 = blit (\<lambda>_. zero) xs h (h + n)"
    using blit_append [of h "h + f" "h + n" "\<lambda>_. zero" xs] xs1 by (simp add: f_def)
qed

lemma min64_small:
  assumes "unat a < 2 ^ 63" "unat b < 2 ^ 63"
  shows "unat (min64 a b) = min (unat a) (unat b)"
  using sint_less_small [OF assms(2,1)] by (simp add: min64_def)

lemma slice_range_nat:
  assumes "unat lo \<le> unat hi" "unat hi \<le> length xs" "length xs \<le> 2 ^ 62"
  shows "slice_range xs lo hi = Return (take (unat hi - unat lo) (drop (unat lo) xs))"
proof -
  have "sint lo = int (unat lo)" "sint hi = int (unat hi)"
    using assms by (auto intro!: sint_small)
  then show ?thesis using assms by (simp add: slice_range_def)
qed

lemma clear_range_nat:
  assumes "unat lo \<le> unat hi" "unat hi \<le> length xs" "length xs \<le> 2 ^ 62"
  shows "clear_range zero xs lo hi
    = Return (take (unat lo) xs @ replicate (unat hi - unat lo) zero @ drop (unat hi) xs)"
proof -
  have "sint lo = int (unat lo)" "sint hi = int (unat hi)"
    using assms by (auto intro!: sint_small)
  then show ?thesis using assms by (simp add: clear_range_def)
qed

lemma make_slice_nat:
  "unat n < 2 ^ 63 \<Longrightarrow> make_slice zero n = Return (replicate (unat n) zero)"
  by (simp add: make_slice_def sint_unat_small)

lemma copy_into_zero:
  "length src \<le> length dst \<Longrightarrow> copy_into dst 0 src = Return (src @ drop (length src) dst)"
  by (simp add: copy_into_def)

lemma copy_into_rest:
  assumes "unat off = length pre" "length src = length dst" "length pre < 2 ^ 63"
  shows "copy_into (pre @ dst) off src = Return (pre @ src)"
  using assms by (simp add: copy_into_def sint_unat_small Let_def)

text \<open>The body of \<open>PopN\<close> inside the consumer's critical section, for \<open>n\<close> queued items.\<close>

lemma PopN_batch:
  fixes b :: "'a buffer" and zero :: 'a and n head' :: int64
  assumes ok: "buf_ok b k" and n: "unat n \<le> length (items b)" "0 < unat n"
  shows "PopN_copy zero n (replicate (unat n) zero) b head'
    = Return (window (items b) (unat head') (unat head' + unat n),
              blit (\<lambda>_. zero) (items b) (unat head') (unat head' + unat n))"
proof -
  note bd = buf_ok_bounds [OF ok]
  let ?xs = "items b" and ?L = "length (items b)" and ?h = "unat head'" and ?n = "unat n"
  define start where "start = head' AND mask b"
  define first where "first = min64 n (mask b + 1 - start)"
  define s where "s = ?h mod ?L"
  define f where "f = min ?n (?L - s)"
  define xs1 where "xs1 = take s ?xs @ replicate f zero @ drop (s + f) ?xs"
  have wrapped: "take f (drop s ?xs) @ take (?n - f) xs1 = window ?xs ?h (?h + ?n)"
    "replicate (?n - f) zero @ drop (?n - f) xs1 = blit (\<lambda>_. zero) ?xs ?h (?h + ?n)"
    unfolding xs1_def f_def s_def by (rule wrapped_batch [OF bd(2) n(1)])+
  have sL: "s < ?L" using bd by (simp add: s_def)
  have us: "unat start = s" using unat_slot [OF ok] by (simp add: s_def start_def)
  have "unat (mask b + 1) = ?L"
    using bd unat_mask [OF ok] by (subst unat_add_small) auto
  then have "unat (mask b + 1 - start) = ?L - s"
    using us sL by (subst unat_sub_small) auto
  then have uf: "unat first = f"
    unfolding first_def f_def using n bd sL by (subst min64_small) auto
  have e: "unat (start + first) = s + f"
    using us uf sL bd by (subst unat_add_small) (auto simp: f_def)
  have ur: "unat (n - first) = ?n - f"
    using uf by (subst unat_sub_small) (auto simp: f_def)
  have rest: "?n - f \<le> s" using n sL by (auto simp: f_def)
  have pos: "0 < sint (n - first) \<longleftrightarrow> f < ?n"
    using ur rest sL bd by (subst sint_unat_small) auto
  have r1: "slice_range ?xs start (start + first) = Return (take f (drop s ?xs))"
    using us e sL bd by (subst slice_range_nat) (auto simp: f_def)
  have c1: "copy_into (replicate ?n zero) 0 (take f (drop s ?xs))
      = Return (take f (drop s ?xs) @ replicate (?n - f) zero)"
    using sL by (subst copy_into_zero) (auto simp: f_def min_def)
  have z1: "clear_range zero ?xs start (start + first) = Return xs1"
    using us e sL bd by (subst clear_range_nat) (auto simp: f_def xs1_def)
  have lx: "length xs1 = ?L" using sL by (simp add: xs1_def f_def)
  have r2: "slice_range xs1 0 (n - first) = Return (take (?n - f) xs1)"
    using ur rest sL bd lx by (subst slice_range_nat) auto
  have c2: "copy_into (take f (drop s ?xs) @ replicate (?n - f) zero) first (take (?n - f) xs1)
      = Return (take f (drop s ?xs) @ take (?n - f) xs1)"
    using uf rest sL bd lx by (subst copy_into_rest) (auto simp: f_def)
  have z2: "clear_range zero xs1 0 (n - first)
      = Return (replicate (?n - f) zero @ drop (?n - f) xs1)"
    using ur rest sL bd lx by (subst clear_range_nat) auto
  show ?thesis
  proof (cases "f < ?n")
    case True
    then show ?thesis
      by (simp add: PopN_copy_def Let_def r1 c1 z1 r2 c2 z2 pos wrapped
          flip: start_def first_def)
  next
    case False
    then show ?thesis
      using wrapped c1 by (simp add: PopN_copy_def Let_def r1 z1 pos flip: start_def first_def)
  qed
qed

lemma PopN_spec:
  assumes inv: "rb_inv zero rb" and n: "0 < sint n" and ne: "rb_list rb \<noteq> []"
  obtains rb' where "PopN zero n rb = Return ((take (nat (sint n)) (rb_list rb), True), rb')"
    and "rb_inv zero rb'" and "rb_list rb' = drop (nat (sint n)) (rb_list rb)"
    and "tail rb' = tail rb"
    and "unat (head rb') = unat (head rb) + min (unat n) (length (rb_list rb))"
    and "items (content rb') = blit (\<lambda>_. zero) (items (content rb)) (unat (head rb))
           (unat (head rb) + min (unat n) (length (rb_list rb)))"
proof -
  let ?h = "unat (head rb)" and ?t = "unat (tail rb)" and ?b = "content rb"
  obtain k where ok: "buf_ok ?b k" and r: "ring_ok zero ?b ?h ?t"
    using inv by (auto simp: rb_inv_def ring_ok_def)
  note bd = buf_ok_bounds [OF ok]
  define m where "m = min64 n (rlength rb)"
  have un: "unat n < 2 ^ 63" "nat (sint n) = unat n" "0 < unat n"
    using n sint_nonneg_unat [of n] by simp_all
  have q: "unat (rlength rb) = ?t - ?h" using unat_rlength [OF inv] by (simp add: length_rb_list)
  have um: "unat m = min (unat n) (?t - ?h)"
    unfolding m_def q [symmetric] using un(1) q r bd by (intro min64_small) (auto simp: ring_ok_def)
  have lt: "?h < ?t" using ne by (cases "?h < ?t") (auto simp: rb_list_def)
  have mL: "unat m \<le> length (items ?b)" "0 < unat m" "unat m \<le> ?t - ?h"
    using um lt r un by (auto simp: ring_ok_def)
  let ?xs = "blit (\<lambda>_. zero) (items ?b) ?h (?h + unat m)"
  let ?rb' = "rb\<lparr>content := ?b\<lparr>items := ?xs\<rparr>, rlength := rlength rb - m, head := head rb + m,
                 popping := False\<rparr>"
  have hm: "unat (head rb + m) = ?h + unat m"
    using mL r by (subst unat_add_small) (auto simp: ring_ok_def)
  have "make_slice zero m = Return (replicate (unat m) zero)"
    using mL bd by (intro make_slice_nat) simp
  moreover have "\<not> growing rb" "rlength rb \<noteq> 0"
    using inv ne rlength_zero_iff [OF inv] by (auto simp: rb_inv_def)
  ultimately have "PopN zero n rb = Return ((window (items ?b) ?h (?h + unat m), True), ?rb')"
    using n PopN_batch [OF ok mL(1,2), of zero "head rb"]
    by (simp add: PopN_def enterConsumer_def leaveConsumer_def Let_def flip: m_def)
  moreover have "?h + unat m = min ?t (?h + unat n)" using um lt by auto
  then have "window (items ?b) ?h (?h + unat m) = take (nat (sint n)) (rb_list rb)"
    by (simp add: rb_list_def take_window un)
  moreover have "rb_inv zero ?rb'"
    using inv ring_ok_popn(1) [OF r mL(3)] hm by (simp add: rb_inv_def)
  moreover have "rb_list ?rb' = drop (nat (sint n)) (rb_list rb)"
    using ring_ok_popn(2) [OF r mL(3)] hm um by (auto simp: rb_list_def drop_window un min_def)
  ultimately show thesis using hm um by (intro that [of ?rb']) (simp_all add: length_rb_list)
qed

lemma PopN_empty:
  assumes "rb_inv zero rb" "sint n \<le> 0 \<or> rb_list rb = []"
  shows "PopN zero n rb = Return (([], False), rb)"
  using assms rlength_zero_iff [OF assms(1)] by (auto simp: PopN_def)

section \<open>Sizing and construction\<close>

lemma bit_len_upper: "n < 2 ^ bit_len n"
proof (induction n rule: bit_len.induct)
  case (1 n)
  then show ?case by (cases "n = 0") (auto simp: bit_len.simps [of n])
qed

lemma bit_len_lower: "0 < n \<Longrightarrow> 2 ^ bit_len n \<le> 2 * n"
proof (induction n rule: bit_len.induct)
  case (1 n)
  show ?case
  proof (cases "n = 1")
    case True
    then show ?thesis by (simp add: bit_len.simps)
  next
    case False
    with 1 have "2 ^ bit_len (n div 2) \<le> 2 * (n div 2)" by simp
    then show ?thesis using 1(2) by (simp add: bit_len.simps [of n])
  qed
qed

lemma bit_at_top:
  fixes w :: int64
  assumes "2 ^ k \<le> unat w" "unat w < 2 ^ Suc k" "k < 64"
  shows "bit w k"
proof -
  have "unat w div 2 ^ k = 1"
    using assms(1,2) by (intro div_nat_eqI) auto
  then have "bit (unat w) k" by (simp add: bit_iff_odd)
  then show ?thesis by (simp add: bit_unsigned_iff)
qed

lemma power_of_two_test:
  fixes w :: int64
  assumes "w AND (w - 1) = 0" "2 ^ k < unat w" "unat w \<le> 2 ^ Suc k" "k < 62"
  shows "w = 2 ^ Suc k"
proof (rule ccontr)
  assume ne: "w \<noteq> 2 ^ Suc k"
  have "unat (2 ^ Suc k :: int64) = 2 ^ Suc k"
    using assms(4) by (intro unat_pow2) simp
  then have lt: "unat w < 2 ^ Suc k"
    using ne assms(3) by (metis le_neq_implies_less word_unat_eq_iff)
  have "unat (w - 1) = unat w - 1"
    using assms(2) by (subst unat_sub_small) auto
  then have "bit (w - 1) k" using assms lt by (intro bit_at_top) auto
  moreover have "bit w k" using assms lt by (intro bit_at_top) auto
  ultimately have "bit (w AND (w - 1)) k" by (simp add: bit_and_iff)
  then show False using assms(1) by simp
qed

lemma sint_consts [simp]: "sint minSize = 2" "sint maxSize = 2 ^ 62"
  by (simp_all add: minSize_def maxSize_def)

lemma sint_pow2:
  assumes "k \<le> 62"
  shows "sint (2 ^ k :: int64) = 2 ^ k"
proof -
  have "unat (2 ^ k :: int64) = 2 ^ k" using assms by (intro unat_pow2) simp
  moreover have "(2 :: nat) ^ k \<le> 2 ^ 62" using assms by (intro power_increasing) auto
  ultimately show ?thesis using sint_small [of "2 ^ k"] by simp
qed

lemma roundUpPow2_spec:
  obtains k where "1 \<le> k" "k \<le> 62" "roundUpPow2 sz = 2 ^ k"
    and "sint sz \<le> 2 ^ 62 \<Longrightarrow> sint sz \<le> 2 ^ k" and "k = 1 \<or> 2 ^ (k - 1) < sint sz"
proof -
  consider (small) "sint sz \<le> 2" | (large) "2 ^ 62 \<le> sint sz"
    | (mid) "2 < sint sz" "sint sz < 2 ^ 62" by linarith
  then show thesis
  proof cases
    case small
    then show thesis by (intro that [of 1]) (simp_all add: roundUpPow2_def minSize_def)
  next
    case large
    then show thesis by (intro that [of 62]) (simp_all add: roundUpPow2_def maxSize_def)
  next
    case mid
    have u: "unat sz < 2 ^ 63" "nat (sint sz) = unat sz"
      using mid sint_nonneg_unat [of sz] by simp_all
    let ?n = "unat sz - 1"
    define k where "k = bit_len ?n"
    have n: "2 < unat sz" "unat sz < 2 ^ 62" using mid u by (auto simp: nat_less_iff)
    have "Len64 (sz - 1) = k"
      using n by (simp add: Len64_def k_def unat_sub_small)
    have up: "unat sz \<le> 2 ^ k" using bit_len_upper [of ?n] n by (simp add: k_def)
    have lo: "2 ^ k \<le> 2 * ?n" using bit_len_lower [of ?n] n by (simp add: k_def)
    have k1: "1 < k"
    proof (rule ccontr)
      assume "\<not> 1 < k"
      then have "(2 :: nat) ^ k \<le> 2 ^ 1" by (intro power_increasing) auto
      then show False using up n by simp
    qed
    have "(2 :: nat) ^ k < 2 ^ 63" using lo n by simp
    then have k2: "k < 63" by (rule power_less_imp_less_exp [rotated]) simp
    have half: "(2 :: nat) ^ k = 2 * 2 ^ (k - 1)"
      using k1 by (metis gr_implies_not0 power_eq_if)
    have lo': "2 ^ (k - 1) < unat sz" using lo half n by linarith
    have val: "roundUpPow2 sz = 2 ^ k"
    proof (cases "sz AND (sz - 1) = 0")
      case True
      then have "sz = 2 ^ Suc (k - 1)"
        by (rule power_of_two_test) (use lo' up k1 k2 in simp_all)
      then show ?thesis using True mid k1 by (simp add: roundUpPow2_def)
    next
      case False
      then show ?thesis using mid \<open>Len64 (sz - 1) = k\<close> by (simp add: roundUpPow2_def push_bit_eq_mult)
    qed
    have sz: "sint sz = int (unat sz)" using u mid by simp
    have "int (unat sz) \<le> int (2 ^ k)" "int (2 ^ (k - 1)) < int (unat sz)"
      using up lo' by (simp_all only: of_nat_le_iff of_nat_less_iff)
    then show thesis using val k1 k2 by (intro that [of k]) (simp_all add: sz)
  qed
qed

lemma roundUpPow2_pos: "0 < sint (roundUpPow2 sz)"
  by (rule roundUpPow2_spec [of sz]) (simp add: sint_pow2)

lemma New_spec:
  obtains rb where "New zero sz = Return rb" and "rb_inv zero rb" and "rb_list rb = []"
    and "head rb = 0" and "tail rb = 0"
    and "sint sz \<le> 2 ^ 62 \<Longrightarrow> sint sz \<le> int (length (items (content rb)))"
proof -
  obtain k where k: "1 \<le> k" "k \<le> 62" "roundUpPow2 sz = 2 ^ k"
    "sint sz \<le> 2 ^ 62 \<Longrightarrow> sint sz \<le> 2 ^ k"
    using roundUpPow2_spec [of sz] by metis
  let ?b = "\<lparr>items = replicate (2 ^ k) zero, mask = 2 ^ k - 1\<rparr>"
  let ?rb = "\<lparr>content = ?b, head = 0, tail = 0, rlength = 0, mu = False, growing = False,
              popping = False\<rparr>"
  have "unat (2 ^ k :: int64) = 2 ^ k" using k by (intro unat_pow2) simp
  moreover have "(2 :: nat) ^ k \<le> 2 ^ 62" using k by (intro power_increasing) auto
  ultimately have "make_slice zero (2 ^ k) = Return (replicate (2 ^ k) zero)"
    using make_slice_nat [of "2 ^ k" zero] by simp
  then have "New zero sz = Return ?rb" using k(3) by (simp add: New_def)
  moreover have "buf_ok ?b k" using k by (simp add: buf_ok_def)
  then have "rb_inv zero ?rb" by (auto simp: rb_inv_def ring_ok_def)
  ultimately show thesis using k(4) by (intro that [of ?rb]) (simp_all add: rb_list_def)
qed

section \<open>The queue contract\<close>

text \<open>
  What a client of the buffer relies on: a value abstracts to a list, a push with room
  appends, a batch pop takes a prefix, an empty queue reports so, and room is only used up
  by pushes.
\<close>

fun push_all :: "('a \<Rightarrow> 'q \<Rightarrow> (bool \<times> 'q) outcome) \<Rightarrow> 'a list \<Rightarrow> 'q \<Rightarrow> 'q outcome" where
  "push_all push [] q = Return q"
| "push_all push (x # xs) q = obind (push x q) (\<lambda>(_, q). push_all push xs q)"

locale fifo_queue =
  fixes push :: "'a \<Rightarrow> 'q \<Rightarrow> (bool \<times> 'q) outcome"
    and popn :: "int64 \<Rightarrow> 'q \<Rightarrow> (('a list \<times> bool) \<times> 'q) outcome"
    and qlen :: "'q \<Rightarrow> int64"
    and queue :: "'q \<Rightarrow> 'a list"
    and ok :: "'q \<Rightarrow> bool"
    and room :: "nat \<Rightarrow> 'q \<Rightarrow> bool"
  assumes push_ok: "ok q \<Longrightarrow> room (Suc r) q \<Longrightarrow>
      \<exists>q'. push x q = Return (True, q') \<and> ok q' \<and> queue q' = queue q @ [x] \<and> room r q'"
    and popn_ok: "ok q \<Longrightarrow> 0 < sint n \<Longrightarrow> queue q \<noteq> [] \<Longrightarrow>
      \<exists>q'. popn n q = Return ((take (nat (sint n)) (queue q), True), q') \<and> ok q' \<and>
           queue q' = drop (nat (sint n)) (queue q) \<and> (\<forall>r. room r q \<longrightarrow> room r q')"
    and popn_empty: "ok q \<Longrightarrow> sint n \<le> 0 \<or> queue q = [] \<Longrightarrow> popn n q = Return (([], False), q)"
    and qlen_zero: "ok q \<Longrightarrow> qlen q = 0 \<longleftrightarrow> queue q = []"
begin

lemma push_all_ok:
  "ok q \<Longrightarrow> room (length xs + r) q \<Longrightarrow>
   \<exists>q'. push_all push xs q = Return q' \<and> ok q' \<and> queue q' = queue q @ xs \<and> room r q'"
proof (induction xs arbitrary: q)
  case (Cons x xs)
  then obtain q1 where "push x q = Return (True, q1)" "ok q1" "queue q1 = queue q @ [x]"
    "room (length xs + r) q1"
    using push_ok [of q "length xs + r" x] by auto
  moreover from this obtain q2 where "push_all push xs q1 = Return q2" "ok q2"
    "queue q2 = queue q1 @ xs" "room r q2"
    using Cons.IH by blast
  ultimately show ?case by auto
qed auto

lemma popn_never_panics: "ok q \<Longrightarrow> \<exists>r q'. popn n q = Return (r, q') \<and> ok q'"
  using popn_ok [of q n] popn_empty [of q n] by (cases "0 < sint n \<and> queue q \<noteq> []") fastforce+

text \<open>A batch pop splits the queue: what comes out followed by what stays is what was in.\<close>

lemma popn_split:
  assumes "ok q" "popn n q = Return ((xs, b), q')"
  shows "queue q = xs @ queue q'" "b \<longleftrightarrow> xs \<noteq> []" "ok q'" "room r q \<Longrightarrow> room r q'"
    "int (length xs) \<le> max 0 (sint n)"
proof -
  consider "0 < sint n" "queue q \<noteq> []" | "sint n \<le> 0 \<or> queue q = []" by linarith
  then have "queue q = xs @ queue q' \<and> (b \<longleftrightarrow> xs \<noteq> []) \<and> ok q' \<and> (room r q \<longrightarrow> room r q') \<and>
      int (length xs) \<le> max 0 (sint n)"
  proof cases
    case 1
    then show ?thesis using popn_ok [OF assms(1) 1] assms(2) by auto
  next
    case 2
    then show ?thesis using popn_empty [OF assms(1) 2] assms by auto
  qed
  then show "queue q = xs @ queue q'" "b \<longleftrightarrow> xs \<noteq> []" "ok q'" "room r q \<Longrightarrow> room r q'"
    "int (length xs) \<le> max 0 (sint n)" by auto
qed

end

interpretation rbq: fifo_queue "Push zero" "PopN zero" Len rb_list "rb_inv zero" rb_room
  for zero
proof unfold_locales
  fix q :: "'a RingBuffer" and r x
  assume a: "rb_inv zero q" "rb_room (Suc r) q"
  obtain q' where q': "Push zero x q = Return (True, q')" "rb_inv zero q'"
    "rb_list q' = rb_list q @ [x]" "tail q' = tail q + 1"
    by (rule Push_spec [OF a, of x]) blast
  moreover have "unat (tail q + 1) = Suc (unat (tail q))"
    using a(2) by (subst unat_add_small) (auto simp: rb_room_def)
  ultimately show "\<exists>q'. Push zero x q = Return (True, q') \<and> rb_inv zero q' \<and>
      rb_list q' = rb_list q @ [x] \<and> rb_room r q'"
    using a(2) by (auto simp: rb_room_def)
next
  fix q :: "'a RingBuffer" and n :: int64
  assume a: "rb_inv zero q" "0 < sint n" "rb_list q \<noteq> []"
  then show "\<exists>q'. PopN zero n q = Return ((take (nat (sint n)) (rb_list q), True), q') \<and>
      rb_inv zero q' \<and> rb_list q' = drop (nat (sint n)) (rb_list q) \<and>
      (\<forall>r. rb_room r q \<longrightarrow> rb_room r q')"
    by (rule PopN_spec) (auto simp: rb_room_def)
next
  fix q :: "'a RingBuffer" and n :: int64
  assume "rb_inv zero q" "sint n \<le> 0 \<or> rb_list q = []"
  then show "PopN zero n q = Return (([], False), q)" by (rule PopN_empty)
next
  fix q :: "'a RingBuffer"
  assume "rb_inv zero q"
  then show "Len q = 0 \<longleftrightarrow> rb_list q = []" by (simp add: Len_def rlength_zero_iff)
qed

section \<open>Properties\<close>

text \<open>
  C24. \<open>Push\<close> on a well-formed buffer with room never blocks or panics, reports true, appends
  the item at the back of the queue (growing the array when it is full) and keeps the
  buffer well-formed.
\<close>

theorem Push_appends:
  assumes "rb_inv zero rb" and "rb_room (Suc r) rb"
  shows "\<exists>rb'. Push zero x rb = Return (True, rb') \<and> rb_inv zero rb' \<and>
    rb_list rb' = rb_list rb @ [x] \<and> rb_room r rb'"
  using rbq.push_ok [OF assms] .

text \<open>An empty two-slot buffer, and the same buffer filled.\<close>

definition rb_two :: "nat RingBuffer" where
  "rb_two = \<lparr>content = \<lparr>items = [0, 0], mask = 1\<rparr>, head = 0, tail = 0, rlength = 0,
             mu = False, growing = False, popping = False\<rparr>"

lemma New_two: "New (0 :: nat) 0 = Return rb_two"
  by (simp add: New_def roundUpPow2_def make_slice_def minSize_def rb_two_def numeral_2_eq_2)

lemma rb_two_ok: "rb_inv 0 rb_two" "rb_list rb_two = []" "rb_room r rb_two \<longleftrightarrow> r \<le> 2 ^ 62"
proof -
  obtain rb where "New (0 :: nat) 0 = Return rb" "rb_inv 0 rb" "rb_list rb = []"
    using New_spec [of 0 0] by metis
  then show "rb_inv 0 rb_two" "rb_list rb_two = []" by (simp_all add: New_two)
  then show "rb_room r rb_two \<longleftrightarrow> r \<le> 2 ^ 62"
    by (auto simp: rb_room_def rb_two_def)
qed

theorem Push_appends_witness:
  "\<exists>rb'. Push 0 7 rb_two = Return (True, rb') \<and> rb_list rb' = [7 :: nat] \<and> rb_inv 0 rb'"
  using Push_appends [of 0 rb_two 0 7] rb_two_ok by auto

text \<open>
  C23. \<open>PopN\<close> on a well-formed buffer never blocks or panics: with a positive count and items
  queued it returns the first \<open>min n len\<close> of them in order, across the wrap of the
  array, and leaves the rest; otherwise it reports false and changes nothing.
\<close>

theorem PopN_takes_prefix:
  assumes "rb_inv zero rb"
  shows "\<exists>rb'. PopN zero n rb = Return ((take (nat (sint n)) (rb_list rb),
      0 < sint n \<and> rb_list rb \<noteq> []), rb') \<and> rb_inv zero rb' \<and>
    rb_list rb' = drop (nat (sint n)) (rb_list rb)"
proof (cases "0 < sint n \<and> rb_list rb \<noteq> []")
  case True
  then show ?thesis using rbq.popn_ok [OF assms, of n] by auto
next
  case False
  then show ?thesis using rbq.popn_empty [OF assms, of n] assms by auto
qed

text \<open>A buffer whose window wraps: three pushes with a pop in between, in two slots.\<close>

definition rb_wrapped :: "nat RingBuffer" where
  "rb_wrapped = \<lparr>content = \<lparr>items = [30, 20], mask = 1\<rparr>, head = 1, tail = 3, rlength = 2,
                 mu = False, growing = False, popping = False\<rparr>"

lemma rb_wrapped_ok: "rb_inv 0 rb_wrapped"
proof -
  have "buf_ok (content rb_wrapped) 1" by (simp add: buf_ok_def rb_wrapped_def)
  then show ?thesis by (auto simp: rb_inv_def ring_ok_def rb_wrapped_def)
qed

lemma rb_wrapped_list: "rb_list rb_wrapped = [20, 30]"
  by (simp add: rb_list_def window_def rb_wrapped_def upt_conv_Cons)

theorem PopN_takes_prefix_witness:
  "\<exists>rb'. PopN 0 5 rb_wrapped = Return (([20, 30], True), rb') \<and> rb_inv 0 rb' \<and> rb_list rb' = []"
  using PopN_takes_prefix [OF rb_wrapped_ok, of 5] by (simp add: rb_wrapped_list)

text \<open>
  \<open>Pop\<close> on a well-formed buffer never blocks or panics and returns the front of the
  queue, or false and the zero value when the queue is empty.
\<close>

lemma Pop_takes_front:
  assumes "rb_inv zero rb"
  shows "\<exists>rb'. Pop zero rb = Return (case rb_list rb of [] \<Rightarrow> (zero, False) | x # _ \<Rightarrow> (x, True), rb') \<and>
    rb_inv zero rb' \<and> rb_list rb' = tl (rb_list rb)"
proof (cases "rb_list rb")
  case Nil
  then show ?thesis using Pop_empty [OF assms Nil] assms by simp
next
  case (Cons x xs)
  then show ?thesis using Pop_spec [OF assms] by (metis list.sel(1) list.simps(3) list.simps(5))
qed

theorem Pop_takes_front_witness:
  "\<exists>rb'. Pop 0 rb_wrapped = Return ((20, True), rb') \<and> rb_inv 0 rb' \<and> rb_list rb' = [30]"
  using Pop_takes_front [OF rb_wrapped_ok] by (simp add: rb_wrapped_list)

text \<open>
  C21. Push/PopN round trip: pushing any list into a new buffer of any requested size and
  popping it in one batch gives the list back, through however many grows it takes.
\<close>

theorem push_all_PopN_roundtrip:
  assumes "length xs \<le> 2 ^ 62" and "int (length xs) \<le> sint n" and "xs \<noteq> []"
  shows "\<exists>rb rb' rb''. New zero sz = Return rb \<and> push_all (Push zero) xs rb = Return rb' \<and>
    PopN zero n rb' = Return ((xs, True), rb'') \<and> rb_list rb'' = []"
proof -
  obtain rb where rb: "New zero sz = Return rb" "rb_inv zero rb" "rb_list rb = []" "tail rb = 0"
    using New_spec [of zero sz] by metis
  have "rb_room (length xs + 0) rb" using rb assms(1) by (simp add: rb_room_def)
  then obtain rb' where "push_all (Push zero) xs rb = Return rb'" "rb_inv zero rb'" "rb_list rb' = xs"
    using rbq.push_all_ok [OF rb(2), of xs 0] rb(3) by auto
  moreover have "0 < sint n" using assms(2,3) by (cases xs) auto
  moreover have "length xs \<le> nat (sint n)" using assms(2) by simp
  ultimately show ?thesis
    using rb(1) rbq.popn_ok [of zero rb' n] assms(3) by auto
qed

theorem push_all_PopN_roundtrip_witness:
  "\<exists>rb rb' rb''. New (0 :: nat) 0 = Return rb \<and> push_all (Push 0) [1, 2, 3, 4, 5] rb = Return rb' \<and>
    PopN 0 300 rb' = Return (([1, 2, 3, 4, 5], True), rb'') \<and> rb_list rb'' = []"
  by (rule push_all_PopN_roundtrip) simp_all

text \<open>
  C25. Sizing: whatever the requested size (zero and negative included), \<open>roundUpPow2\<close> gives a
  power of two between 2 and \<open>2 ^ 62\<close>, without overflow, and it is the least
  such length that holds the request.
\<close>

theorem roundUpPow2_least:
  "\<exists>k. 1 \<le> k \<and> k \<le> 62 \<and> roundUpPow2 sz = 2 ^ k \<and> sint (roundUpPow2 sz) = 2 ^ k \<and>
     min (sint sz) (2 ^ 62) \<le> 2 ^ k \<and> (k = 1 \<or> 2 ^ (k - 1) < sint sz)"
proof -
  obtain k where k: "1 \<le> k" "k \<le> 62" "roundUpPow2 sz = 2 ^ k"
    "sint sz \<le> 2 ^ 62 \<Longrightarrow> sint sz \<le> 2 ^ k" "k = 1 \<or> 2 ^ (k - 1) < sint sz"
    using roundUpPow2_spec [of sz] by metis
  have "sint (2 ^ k :: int64) = 2 ^ k" using k(2) by (rule sint_pow2)
  moreover have "min (sint sz) (2 ^ 62) \<le> 2 ^ k"
  proof (cases "sint sz \<le> 2 ^ 62")
    case True
    then show ?thesis using k(4) by (simp add: min_le_iff_disj)
  next
    case False
    then have "roundUpPow2 sz = maxSize" by (simp add: roundUpPow2_def)
    then have "sint (2 ^ k :: int64) = 2 ^ 62" using k(3) by simp
    then show ?thesis using calculation by simp
  qed
  ultimately show ?thesis using k by metis
qed

end
