(* ===== verification/RingBuffer_Conc.thy ===== *)
theory RingBuffer_Conc
  imports Prelude
begin

text \<open>
  \<^verbatim>\<open>src/ringbuffer/ringbuffer.go\<close> under concurrency: any number of goroutines in \<open>Push\<close>
  (with \<open>grow\<close>) and the single consumer in \<open>Pop\<close> or \<open>PopN\<close> (with \<open>enterConsumer\<close> and
  \<open>leaveConsumer\<close>). Every rule of the step relation \<open>rb_step\<close> is one atomic access of
  the Go code: one atomic load, store or add, one lock operation, or one plain access to an
  array slot; a program counter per goroutine holds its local variables.

  Backing arrays live in a heap (\<open>arrays\<close>, addressed by pointers), because a producer and
  the consumer may hold different pointers and the code's correctness depends on when they
  can. The absolute cursors are natural numbers here; the theory \<open>RingBuffer\<close> shows that
  below \<open>2 ^ 63\<close> the masked int64 arithmetic computes the same slots. The ghost field
  \<open>hist\<close> records the items in the order their tail index was claimed and \<open>out\<close> the items
  handed to the consumer; no rule reads them.

  The results: mutual exclusion of a grow and the consumer (the handshake is Dekker's
  algorithm), freedom from data races on slots, no deadlock of the handshake, and
  linearizability: the consumer receives exactly the pushed items, in order, once each.
\<close>

section \<open>State\<close>

text \<open>
  Producer program counters, in the order of \<open>Push\<close> and \<open>grow\<close>. The arguments are the
  local variables: the item, the buffer pointer \<open>b\<close> (\<open>old\<close> in \<open>grow\<close>), \<open>tail\<close>, and
  in the copy loop the new array, \<open>head\<close> and the loop index.
\<close>

datatype 'a producer_pc =
    PIdle
  | PLocked 'a
  | PLoaded 'a nat
  | PHead 'a nat nat
  | PGrow 'a nat nat
  | PSpin 'a nat nat
  | PGrowHead 'a nat nat
  | PCopy 'a nat nat nat nat nat
  | PGrowDone 'a nat nat
  | PWrite 'a nat nat
  | PStoreTail 'a nat nat
  | PAddLen
  | PUnlock

text \<open>One plain access of the consumer to the slot of an absolute index.\<close>

datatype slot_op = Read nat | Clear nat

text \<open>Consumer program counters, in the order of \<open>Pop\<close>/\<open>PopN\<close> and \<open>enterConsumer\<close>.\<close>

datatype 'a consumer_pc =
    CIdle
  | CLen nat
  | CEnter nat
  | CTest nat
  | CBack nat
  | CWait nat
  | CContent nat
  | CHead nat nat
  | CRun nat nat nat "slot_op list" "'a list"
  | CStoreHead nat nat "'a list"
  | CLeave "'a list"

record 'a rb_state =
  arrays :: "nat \<Rightarrow> 'a list"
  fresh :: nat
  contentP :: nat
  headA :: nat
  tailA :: nat
  lengthA :: nat
  muL :: "nat option"
  growingF :: bool
  poppingF :: bool
  ppc :: "nat \<Rightarrow> 'a producer_pc"
  cpc :: "'a consumer_pc"
  hist :: "'a list"
  out :: "'a list"

abbreviation slot :: "'a rb_state \<Rightarrow> nat \<Rightarrow> nat \<Rightarrow> nat" where
  "slot s b j \<equiv> j mod length (arrays s b)"

definition set_slot_at :: "nat \<Rightarrow> nat \<Rightarrow> 'a \<Rightarrow> 'a rb_state \<Rightarrow> 'a rb_state" where
  "set_slot_at b j x s =
     s\<lparr>arrays := (arrays s)(b := (arrays s b)[slot s b j := x])\<rparr>"

text \<open>
  The slot accesses of one drain, in program order: the part up to the end of the array
  is copied and cleared, then the wrapped rest. \<open>Pop\<close> is the drain of one item.
\<close>

definition drain_script :: "nat \<Rightarrow> nat \<Rightarrow> nat \<Rightarrow> slot_op list" where
  "drain_script cap h n =
     (let first = min n (cap - h mod cap) in
      map Read [h..<h + first] @ map Clear [h..<h + first] @
      map Read [h + first..<h + n] @ map Clear [h + first..<h + n])"

definition rb_init :: "'a \<Rightarrow> nat \<Rightarrow> 'a rb_state" where
  "rb_init zero cap =
     \<lparr>arrays = (\<lambda>_. [])(0 := replicate cap zero), fresh = 1, contentP = 0, headA = 0, tailA = 0,
      lengthA = 0, muL = None, growingF = False, poppingF = False,
      ppc = (\<lambda>_. PIdle), cpc = CIdle, hist = [], out = []\<rparr>"

section \<open>Steps\<close>

text \<open>
  \<open>grow_next\<close>, \<open>producer_next\<close>, \<open>enterConsumer_next\<close> and \<open>consumer_next\<close> are the atomic
  step a goroutine takes at a program counter: the new shared state and its new program
  counter. \<open>None\<close> means there is none: an idle goroutine waits for a call (and \<open>Lock\<close> is
  in the relation itself). \<open>grow\<close>: announce, spin while the consumer is in, re-check for
  room, allocate, copy, publish, retract the announcement.
\<close>

fun grow_next :: "'a \<Rightarrow> 'a rb_state \<Rightarrow> 'a producer_pc
    \<Rightarrow> ('a rb_state \<times> 'a producer_pc) option" where
  "grow_next zero s (PGrow x old t) = Some (s\<lparr>growingF := True\<rparr>, PSpin x old t)"
| "grow_next zero s (PSpin x old t) =
     (if poppingF s then Some (s, PSpin x old t) else Some (s, PGrowHead x old t))"
| "grow_next zero s (PGrowHead x old t) =
     (if t - headA s < length (arrays s old) then Some (s, PGrowDone x old t)
      else let nb = fresh s in
        Some (s\<lparr>fresh := Suc nb,
                arrays := (arrays s)(nb := replicate (2 * length (arrays s old)) zero)\<rparr>,
              PCopy x old t nb (headA s) (headA s)))"
| "grow_next zero s (PCopy x old t nb h i) =
     (if i < t
      then Some (set_slot_at nb i (arrays s old ! slot s old i) s, PCopy x old t nb h (Suc i))
      else Some (s\<lparr>contentP := nb\<rparr>, PGrowDone x nb t))"
| "grow_next zero s (PGrowDone x b t) = Some (s\<lparr>growingF := False\<rparr>, PWrite x b t)"
| "grow_next zero s _ = None"

fun producer_next :: "'a \<Rightarrow> 'a rb_state \<Rightarrow> 'a producer_pc
    \<Rightarrow> ('a rb_state \<times> 'a producer_pc) option" where
  "producer_next zero s PIdle = None"
| "producer_next zero s (PLocked x) = Some (s, PLoaded x (contentP s))"
| "producer_next zero s (PLoaded x b) = Some (s, PHead x b (tailA s))"
| "producer_next zero s (PHead x b t) =
     (if t - headA s \<ge> length (arrays s b) then Some (s, PGrow x b t)
      else Some (s, PWrite x b t))"
| "producer_next zero s (PWrite x b t) = Some (set_slot_at b t x s, PStoreTail x b t)"
| "producer_next zero s (PStoreTail x b t) =
     Some (s\<lparr>tailA := Suc t, hist := hist s @ [x]\<rparr>, PAddLen)"
| "producer_next zero s PAddLen = Some (s\<lparr>lengthA := Suc (lengthA s)\<rparr>, PUnlock)"
| "producer_next zero s PUnlock = Some (s\<lparr>muL := None\<rparr>, PIdle)"
| "producer_next zero s pc = grow_next zero s pc"

fun enterConsumer_next :: "'a rb_state \<Rightarrow> 'a consumer_pc \<Rightarrow> ('a rb_state \<times> 'a consumer_pc) option" where
  "enterConsumer_next s (CEnter n) = Some (s\<lparr>poppingF := True\<rparr>, CTest n)"
| "enterConsumer_next s (CTest n) =
     (if growingF s then Some (s, CBack n) else Some (s, CContent n))"
| "enterConsumer_next s (CBack n) = Some (s\<lparr>poppingF := False\<rparr>, CWait n)"
| "enterConsumer_next s (CWait n) =
     (if growingF s then Some (s, CWait n) else Some (s, CEnter n))"
| "enterConsumer_next s _ = None"

fun consumer_next :: "'a \<Rightarrow> 'a rb_state \<Rightarrow> 'a consumer_pc
    \<Rightarrow> ('a rb_state \<times> 'a consumer_pc) option" where
  "consumer_next zero s CIdle = None"
| "consumer_next zero s (CLen n) =
     (if lengthA s = 0 then Some (s, CIdle) else Some (s, CEnter (min n (lengthA s))))"
| "consumer_next zero s (CContent n) = Some (s, CHead n (contentP s))"
| "consumer_next zero s (CHead n b) =
     Some (s, CRun b (headA s) n (drain_script (length (arrays s b)) (headA s) n) [])"
| "consumer_next zero s (CRun b h n (Read j # ops) acc) =
     Some (s, CRun b h n ops (acc @ [arrays s b ! slot s b j]))"
| "consumer_next zero s (CRun b h n (Clear j # ops) acc) =
     Some (set_slot_at b j zero s, CRun b h n ops acc)"
| "consumer_next zero s (CRun b h n [] acc) =
     Some (s\<lparr>lengthA := lengthA s - n\<rparr>, CStoreHead h n acc)"
| "consumer_next zero s (CStoreHead h n acc) =
     Some (s\<lparr>headA := h + n, out := out s @ acc\<rparr>, CLeave acc)"
| "consumer_next zero s (CLeave acc) = Some (s\<lparr>poppingF := False\<rparr>, CIdle)"
| "consumer_next zero s pc = enterConsumer_next s pc"

text \<open>
  The interleavings: a producer calls \<open>Push\<close> when the lock is free, the consumer calls
  \<open>Pop\<close> (\<open>n = 1\<close>) or \<open>PopN\<close>, and otherwise some goroutine takes its next step.
\<close>

inductive rb_step :: "'a \<Rightarrow> 'a rb_state \<Rightarrow> 'a rb_state \<Rightarrow> bool" for zero where
  push_lock: "ppc s p = PIdle \<Longrightarrow> muL s = None \<Longrightarrow>
     rb_step zero s (s\<lparr>muL := Some p, ppc := (ppc s)(p := PLocked x)\<rparr>)"
| push_step: "producer_next zero s (ppc s p) = Some (s', pc') \<Longrightarrow>
     rb_step zero s (s'\<lparr>ppc := (ppc s')(p := pc')\<rparr>)"
| pop_call: "cpc s = CIdle \<Longrightarrow> 0 < n \<Longrightarrow> rb_step zero s (s\<lparr>cpc := CLen n\<rparr>)"
| pop_step: "consumer_next zero s (cpc s) = Some (s', pc') \<Longrightarrow>
     rb_step zero s (s'\<lparr>cpc := pc'\<rparr>)"

inductive rb_reach :: "'a \<Rightarrow> nat \<Rightarrow> 'a rb_state \<Rightarrow> bool" for zero cap where
  init: "rb_reach zero cap (rb_init zero cap)"
| step: "rb_reach zero cap s \<Longrightarrow> rb_step zero s t \<Longrightarrow> rb_reach zero cap t"

text \<open>Schedules: the same steps, chosen by a list of events, so that runs can be computed.\<close>

datatype 'a rb_event = Lock nat 'a | Produce nat | Call nat | Consume

fun rb_exec :: "'a \<Rightarrow> 'a rb_event \<Rightarrow> 'a rb_state \<Rightarrow> 'a rb_state option" where
  "rb_exec zero (Lock p x) s =
     (if ppc s p = PIdle \<and> muL s = None
      then Some (s\<lparr>muL := Some p, ppc := (ppc s)(p := PLocked x)\<rparr>) else None)"
| "rb_exec zero (Produce p) s =
     map_option (\<lambda>(s', pc'). s'\<lparr>ppc := (ppc s')(p := pc')\<rparr>) (producer_next zero s (ppc s p))"
| "rb_exec zero (Call n) s =
     (if cpc s = CIdle \<and> 0 < n then Some (s\<lparr>cpc := CLen n\<rparr>) else None)"
| "rb_exec zero Consume s =
     map_option (\<lambda>(s', pc'). s'\<lparr>cpc := pc'\<rparr>) (consumer_next zero s (cpc s))"

fun rb_run :: "'a \<Rightarrow> 'a rb_event list \<Rightarrow> 'a rb_state \<Rightarrow> 'a rb_state option" where
  "rb_run zero [] s = Some s"
| "rb_run zero (e # es) s = Option.bind (rb_exec zero e s) (rb_run zero es)"

lemma rb_exec_step: "rb_exec zero e s = Some t \<Longrightarrow> rb_step zero s t"
  by (cases e) (auto intro: rb_step.intros split: if_splits)

lemma rb_run_reach: "rb_reach zero cap s \<Longrightarrow> rb_run zero es s = Some t \<Longrightarrow> rb_reach zero cap t"
proof (induction es arbitrary: s)
  case (Cons e es)
  then obtain u where u: "rb_exec zero e s = Some u" "rb_run zero es u = Some t"
    by (auto simp: bind_eq_Some_conv)
  then have "rb_reach zero cap u"
    using Cons.prems(1) rb_exec_step rb_reach.step by metis
  then show ?case using Cons.IH u by blast
qed simp

section \<open>Drain scripts\<close>

text \<open>
  A script is sound when an index is read before it is cleared, and cleared once.
\<close>

fun ok_script :: "slot_op list \<Rightarrow> bool" where
  "ok_script [] = True"
| "ok_script (Read j # ops) = (Clear j \<in> set ops \<and> ok_script ops)"
| "ok_script (Clear j # ops) = (Read j \<notin> set ops \<and> Clear j \<notin> set ops \<and> ok_script ops)"

fun reads :: "slot_op list \<Rightarrow> nat list" where
  "reads [] = []"
| "reads (Read j # ops) = j # reads ops"
| "reads (Clear j # ops) = reads ops"

fun op_index :: "slot_op \<Rightarrow> nat" where
  "op_index (Read j) = j"
| "op_index (Clear j) = j"

lemma ok_script_reads [simp]:
  "ok_script (map Read js @ ops) \<longleftrightarrow> (\<forall>j\<in>set js. Clear j \<in> set ops) \<and> ok_script ops"
  by (induction js) auto

lemma ok_script_clears [simp]:
  "distinct js \<Longrightarrow> ok_script (map Clear js @ ops) \<longleftrightarrow>
     (\<forall>j\<in>set js. Read j \<notin> set ops \<and> Clear j \<notin> set ops) \<and> ok_script ops"
  by (induction js) auto

lemma reads_append [simp]: "reads (xs @ ys) = reads xs @ reads ys"
  by (induction xs rule: reads.induct) auto

lemma reads_map [simp]: "reads (map Read js) = js" "reads (map Clear js) = []"
  by (induction js) auto

lemma drain_script_ok:
  assumes "0 < cap"
  shows "ok_script (drain_script cap h n)"
    and "reads (drain_script cap h n) = [h..<h + n]"
    and "Clear j \<in> set (drain_script cap h n) \<longleftrightarrow> h \<le> j \<and> j < h + n"
    and "op \<in> set (drain_script cap h n) \<Longrightarrow> h \<le> op_index op \<and> op_index op < h + n"
proof -
  define f where "f = min n (cap - h mod cap)"
  have le: "f \<le> n" by (simp add: f_def)
  have d: "drain_script cap h n = map Read [h..<h + f] @ map Clear [h..<h + f] @
      map Read [h + f..<h + n] @ map Clear [h + f..<h + n]"
    by (simp add: drain_script_def f_def Let_def)
  show "ok_script (drain_script cap h n)"
    using le ok_script_clears [of "[h + f..<h + n]" "[]"] by (auto simp: d)
  have "[h..<h + n] = [h..<h + f] @ [h + f..<h + n]"
    using le upt_add_eq_append [of h "h + f" "n - f"] by simp
  then show "reads (drain_script cap h n) = [h..<h + n]" by (simp add: d)
  show "Clear j \<in> set (drain_script cap h n) \<longleftrightarrow> h \<le> j \<and> j < h + n"
    using le by (auto simp: d image_iff)
  show "h \<le> op_index op \<and> op_index op < h + n" if "op \<in> set (drain_script cap h n)"
    using that le by (auto simp: d)
qed

section \<open>The invariant\<close>

text \<open>
  The invariant is stated over the shared state, the program counter \<open>a\<close> of the producer
  that holds the lock (\<open>PIdle\<close> if none does) and that of the consumer \<open>c\<close>.
\<close>

fun growing_at :: "'a producer_pc \<Rightarrow> bool" where
  "growing_at (PSpin x b t) = True"
| "growing_at (PGrowHead x b t) = True"
| "growing_at (PCopy x b t nb h i) = True"
| "growing_at (PGrowDone x b t) = True"
| "growing_at _ = False"

fun grow_critical :: "'a producer_pc \<Rightarrow> bool" where
  "grow_critical (PGrowHead x b t) = True"
| "grow_critical (PCopy x b t nb h i) = True"
| "grow_critical (PGrowDone x b t) = True"
| "grow_critical _ = False"

fun consumer_critical :: "'a consumer_pc \<Rightarrow> bool" where
  "consumer_critical (CContent n) = True"
| "consumer_critical (CHead n b) = True"
| "consumer_critical (CRun b h n ops acc) = True"
| "consumer_critical (CStoreHead h n acc) = True"
| "consumer_critical (CLeave acc) = True"
| "consumer_critical _ = False"

fun popping_at :: "'a consumer_pc \<Rightarrow> bool" where
  "popping_at (CTest n) = True"
| "popping_at (CBack n) = True"
| "popping_at c = consumer_critical c"

fun uncleared :: "'a consumer_pc \<Rightarrow> nat \<Rightarrow> bool" where
  "uncleared (CRun b h n ops acc) j = (j < h + n \<longrightarrow> Clear j \<in> set ops)"
| "uncleared (CStoreHead h n acc) j = (h + n \<le> j)"
| "uncleared _ j = True"

fun unpublished :: "'a producer_pc \<Rightarrow> nat" where
  "unpublished PAddLen = 1"
| "unpublished _ = 0"

fun unreleased :: "'a consumer_pc \<Rightarrow> nat" where
  "unreleased (CStoreHead h n acc) = n"
| "unreleased _ = 0"

definition data_inv :: "'a rb_state \<Rightarrow> 'a consumer_pc \<Rightarrow> bool" where
  "data_inv s c \<longleftrightarrow>
     0 < length (arrays s (contentP s)) \<and> contentP s < fresh s \<and>
     headA s \<le> tailA s \<and> tailA s = length (hist s) \<and>
     tailA s - headA s \<le> length (arrays s (contentP s)) \<and>
     out s = take (headA s) (hist s) \<and>
     (\<forall>j. headA s \<le> j \<and> j < tailA s \<and> uncleared c j \<longrightarrow>
        arrays s (contentP s) ! slot s (contentP s) j = hist s ! j)"

fun producer_inv :: "'a rb_state \<Rightarrow> 'a producer_pc \<Rightarrow> bool" where
  "producer_inv s (PLoaded x b) = (b = contentP s)"
| "producer_inv s (PHead x b t) = (b = contentP s \<and> t = tailA s)"
| "producer_inv s (PGrow x b t) = (b = contentP s \<and> t = tailA s)"
| "producer_inv s (PSpin x b t) = (b = contentP s \<and> t = tailA s)"
| "producer_inv s (PGrowHead x b t) = (b = contentP s \<and> t = tailA s)"
| "producer_inv s (PCopy x b t nb h i) =
     (b = contentP s \<and> t = tailA s \<and> h = headA s \<and> nb \<noteq> b \<and> nb < fresh s \<and> h \<le> i \<and> i \<le> t \<and>
      length (arrays s nb) = 2 * length (arrays s b) \<and>
      (\<forall>j. h \<le> j \<and> j < i \<longrightarrow> arrays s nb ! slot s nb j = hist s ! j))"
| "producer_inv s (PGrowDone x b t) =
     (b = contentP s \<and> t = tailA s \<and> t - headA s < length (arrays s b))"
| "producer_inv s (PWrite x b t) =
     (b = contentP s \<and> t = tailA s \<and> t - headA s < length (arrays s b))"
| "producer_inv s (PStoreTail x b t) =
     (b = contentP s \<and> t = tailA s \<and> t - headA s < length (arrays s b) \<and>
      arrays s b ! slot s b t = x)"
| "producer_inv s _ = True"

fun consumer_inv :: "'a rb_state \<Rightarrow> 'a consumer_pc \<Rightarrow> bool" where
  "consumer_inv s (CEnter n) = (0 < n \<and> n \<le> lengthA s)"
| "consumer_inv s (CLen n) = (0 < n)"
| "consumer_inv s (CTest n) = (0 < n \<and> n \<le> lengthA s)"
| "consumer_inv s (CBack n) = (0 < n \<and> n \<le> lengthA s)"
| "consumer_inv s (CWait n) = (0 < n \<and> n \<le> lengthA s)"
| "consumer_inv s (CContent n) = (0 < n \<and> n \<le> lengthA s)"
| "consumer_inv s (CHead n b) = (0 < n \<and> n \<le> lengthA s \<and> b = contentP s)"
| "consumer_inv s (CRun b h n ops acc) =
     (0 < n \<and> n \<le> lengthA s \<and> b = contentP s \<and> h = headA s \<and> ok_script ops \<and>
      (\<forall>op\<in>set ops. h \<le> op_index op \<and> op_index op < h + n) \<and>
      acc @ map (nth (hist s)) (reads ops) = map (nth (hist s)) [h..<h + n])"
| "consumer_inv s (CStoreHead h n acc) =
     (h = headA s \<and> acc = map (nth (hist s)) [h..<h + n])"
| "consumer_inv s (CLeave acc) = (\<exists>pre. out s = pre @ acc)"
| "consumer_inv s CIdle = True"

definition rb_conc_inv :: "'a rb_state \<Rightarrow> 'a producer_pc \<Rightarrow> 'a consumer_pc \<Rightarrow> bool" where
  "rb_conc_inv s a c \<longleftrightarrow>
     data_inv s c \<and> producer_inv s a \<and> consumer_inv s c \<and>
     growingF s = growing_at a \<and> poppingF s = popping_at c \<and>
     \<not> (grow_critical a \<and> consumer_critical c) \<and>
     lengthA s + unpublished a + unreleased c = tailA s - headA s"

section \<open>Every step keeps the invariant\<close>

lemma set_slot_at_simps [simp]:
  "fresh (set_slot_at b j x s) = fresh s" "contentP (set_slot_at b j x s) = contentP s"
  "headA (set_slot_at b j x s) = headA s" "tailA (set_slot_at b j x s) = tailA s"
  "lengthA (set_slot_at b j x s) = lengthA s" "muL (set_slot_at b j x s) = muL s"
  "growingF (set_slot_at b j x s) = growingF s" "poppingF (set_slot_at b j x s) = poppingF s"
  "ppc (set_slot_at b j x s) = ppc s" "cpc (set_slot_at b j x s) = cpc s"
  "hist (set_slot_at b j x s) = hist s" "out (set_slot_at b j x s) = out s"
  "length (arrays (set_slot_at b j x s) b') = length (arrays s b')"
  by (simp_all add: set_slot_at_def)

lemma arrays_set_slot_at:
  "arrays (set_slot_at b j x s) b' =
     (if b' = b then (arrays s b)[slot s b j := x] else arrays s b')"
  by (simp add: set_slot_at_def)

lemma nth_set_slot_at:
  assumes "h \<le> i" "i < h + length (arrays s b)" "h \<le> j" "j < h + length (arrays s b)"
  shows "arrays (set_slot_at b j x s) b ! slot s b i = (if i = j then x else arrays s b ! slot s b i)"
proof -
  have "slot s b i < length (arrays s b)" using assms by (intro mod_less_divisor) linarith
  moreover have "i \<noteq> j \<Longrightarrow> slot s b j \<noteq> slot s b i"
    using mod_window_inj [of i "length (arrays s b)" j h] assms by auto
  ultimately show ?thesis by (auto simp: arrays_set_slot_at)
qed

lemma consumer_inv_set_slot [simp]:
  "consumer_inv (set_slot_at b j x s) c = consumer_inv s c"
  by (cases c) simp_all

lemma write_keeps_inv:
  assumes "rb_conc_inv s (PWrite x b t) c"
  shows "rb_conc_inv (set_slot_at b t x s) (PStoreTail x b t) c"
proof -
  have b: "b = contentP s" "t = tailA s" "t - headA s < length (arrays s b)"
    and d: "data_inv s c" using assms by (auto simp: rb_conc_inv_def)
  have nth: "arrays (set_slot_at b t x s) b ! slot s b j = (if j = t then x else arrays s b ! slot s b j)"
    if "headA s \<le> j" "j \<le> t" for j
    using b d that by (intro nth_set_slot_at [of "headA s"]) (auto simp: data_inv_def)
  have "data_inv (set_slot_at b t x s) c"
    using d nth b by (auto simp: data_inv_def)
  then show ?thesis
    using assms b nth [of t] d by (auto simp: rb_conc_inv_def data_inv_def)
qed

lemma reads_in: "j \<in> set (reads ops) \<Longrightarrow> Read j \<in> set ops"
  by (induction ops rule: reads.induct) auto

lemma map_nth_extend:
  "\<forall>j\<in>set js. j < length xs \<Longrightarrow> map (nth (xs @ [x])) js = map (nth xs) js"
  by (simp add: nth_append)

lemma consumer_inv_publish:
  assumes "consumer_inv s c" "lengthA s + unreleased c = length (hist s) - headA s"
    and "headA s \<le> length (hist s)"
  shows "consumer_inv (s\<lparr>tailA := t, hist := hist s @ [x]\<rparr>) c"
proof (cases c)
  case (CRun b h n ops acc)
  then have "\<forall>j\<in>set (reads ops). j < length (hist s)" "\<forall>j\<in>set [h..<h + n]. j < length (hist s)"
    using assms by (fastforce dest: reads_in)+
  then show ?thesis
    using assms CRun by (auto simp: map_nth_extend)
next
  case (CStoreHead h n acc)
  then have "\<forall>j\<in>set [h..<h + n]. j < length (hist s)" using assms by auto
  then show ?thesis using assms CStoreHead by (simp add: map_nth_extend)
qed (use assms in auto)

lemma store_tail_keeps_inv:
  assumes "rb_conc_inv s (PStoreTail x b t) c"
  shows "rb_conc_inv (s\<lparr>tailA := Suc t, hist := hist s @ [x]\<rparr>) PAddLen c"
proof -
  let ?s = "s\<lparr>tailA := Suc t, hist := hist s @ [x]\<rparr>"
  have b: "b = contentP s" "t = tailA s" "t - headA s < length (arrays s b)"
      "arrays s b ! slot s b t = x"
    and d: "data_inv s c" and ci: "consumer_inv s c"
    and len: "lengthA s + unreleased c = tailA s - headA s"
    using assms by (auto simp: rb_conc_inv_def)
  have t: "t = length (hist s)" "headA s \<le> t" using d b by (auto simp: data_inv_def)
  have "data_inv ?s c"
    using d b t by (auto simp: data_inv_def nth_append less_Suc_eq)
  moreover have "consumer_inv ?s c"
    using ci len t b by (intro consumer_inv_publish) auto
  ultimately show ?thesis
    using assms t b by (auto simp: rb_conc_inv_def)
qed

lemma grow_head_keeps_inv:
  assumes "rb_conc_inv s (PGrowHead x b t) c"
    and "producer_next zero s (PGrowHead x b t) = Some (s', a')"
  shows "rb_conc_inv s' a' c"
proof (cases "t - headA s < length (arrays s b)")
  case True
  then show ?thesis using assms by (auto simp: rb_conc_inv_def)
next
  case False
  let ?s = "s\<lparr>fresh := Suc (fresh s),
    arrays := (arrays s)(fresh s := replicate (2 * length (arrays s b)) zero)\<rparr>"
  have d: "data_inv s c" and b: "b = contentP s" "t = tailA s" and nc: "\<not> consumer_critical c"
    using assms(1) by (auto simp: rb_conc_inv_def)
  have "data_inv ?s c" using d by (auto simp: data_inv_def)
  moreover have "consumer_inv ?s c" using assms(1) nc by (cases c) (auto simp: rb_conc_inv_def)
  moreover have "s' = ?s" "a' = PCopy x b t (fresh s) (headA s) (headA s)"
    using assms(2) False by (auto simp: Let_def)
  moreover have "fresh s \<noteq> b" using d b by (auto simp: data_inv_def)
  ultimately show ?thesis
    using assms(1) d b by (auto simp: rb_conc_inv_def data_inv_def)
qed

lemma copy_keeps_inv:
  assumes inv: "rb_conc_inv s (PCopy x b t nb h i) c" and "i < t"
  shows "rb_conc_inv (set_slot_at nb i (arrays s b ! slot s b i) s) (PCopy x b t nb h (Suc i)) c"
proof -
  let ?s = "set_slot_at nb i (arrays s b ! slot s b i) s"
  have d: "data_inv s c" and b: "b = contentP s" "t = tailA s" "h = headA s" "nb \<noteq> b" "nb < fresh s"
      "h \<le> i" "length (arrays s nb) = 2 * length (arrays s b)"
      "\<forall>j. h \<le> j \<and> j < i \<longrightarrow> arrays s nb ! slot s nb j = hist s ! j"
    and nc: "\<not> consumer_critical c"
    using inv by (auto simp: rb_conc_inv_def)
  have "uncleared c i" using nc by (cases c) auto
  then have "arrays s b ! slot s b i = hist s ! i"
    using d b assms(2) by (auto simp: data_inv_def)
  moreover have "arrays ?s nb ! slot s nb j
      = (if j = i then arrays s b ! slot s b i else arrays s nb ! slot s nb j)"
    if "h \<le> j" "j \<le> i" for j
    using d b assms(2) that by (intro nth_set_slot_at [of h]) (auto simp: data_inv_def)
  ultimately have "\<forall>j. h \<le> j \<and> j < Suc i \<longrightarrow> arrays ?s nb ! slot s nb j = hist s ! j"
    using b by (auto simp: less_Suc_eq)
  moreover have "data_inv ?s c"
    using d b by (auto simp: data_inv_def arrays_set_slot_at)
  ultimately show ?thesis
    using inv b assms(2) by (auto simp: rb_conc_inv_def)
qed

lemma publish_keeps_inv:
  assumes inv: "rb_conc_inv s (PCopy x b t nb h i) c" and "\<not> i < t"
  shows "rb_conc_inv (s\<lparr>contentP := nb\<rparr>) (PGrowDone x nb t) c"
proof -
  have d: "data_inv s c" and b: "b = contentP s" "t = tailA s" "h = headA s" "nb < fresh s" "i = t"
      "length (arrays s nb) = 2 * length (arrays s b)"
      "\<forall>j. h \<le> j \<and> j < i \<longrightarrow> arrays s nb ! slot s nb j = hist s ! j"
    and nc: "\<not> consumer_critical c"
    using inv assms(2) by (auto simp: rb_conc_inv_def)
  have "data_inv (s\<lparr>contentP := nb\<rparr>) c"
    using d b by (auto simp: data_inv_def)
  moreover have "consumer_inv (s\<lparr>contentP := nb\<rparr>) c"
    using inv nc by (cases c) (auto simp: rb_conc_inv_def)
  moreover have "0 < length (arrays s b)" "t - headA s \<le> length (arrays s b)"
    using d b by (auto simp: data_inv_def)
  then have "t - headA s < 2 * length (arrays s b)" by linarith
  ultimately show ?thesis
    using inv b by (auto simp: rb_conc_inv_def)
qed

text \<open>The remaining producer steps change no array and no cursor.\<close>

lemma data_inv_frame [simp]:
  "data_inv (s\<lparr>growingF := g\<rparr>) c = data_inv s c" "data_inv (s\<lparr>poppingF := g\<rparr>) c = data_inv s c"
  "data_inv (s\<lparr>lengthA := n\<rparr>) c = data_inv s c" "data_inv (s\<lparr>muL := m\<rparr>) c = data_inv s c"
  "data_inv (s\<lparr>ppc := f\<rparr>) c = data_inv s c" "data_inv (s\<lparr>cpc := d\<rparr>) c = data_inv s c"
  by (simp_all add: data_inv_def)

lemma producer_inv_frame [simp]:
  "producer_inv (s\<lparr>growingF := g\<rparr>) a = producer_inv s a"
  "producer_inv (s\<lparr>poppingF := g\<rparr>) a = producer_inv s a"
  "producer_inv (s\<lparr>lengthA := n\<rparr>) a = producer_inv s a"
  "producer_inv (s\<lparr>muL := m\<rparr>) a = producer_inv s a"
  "producer_inv (s\<lparr>ppc := f\<rparr>) a = producer_inv s a"
  "producer_inv (s\<lparr>cpc := d\<rparr>) a = producer_inv s a"
  by (cases a; simp)+

lemma consumer_inv_frame [simp]:
  "consumer_inv (s\<lparr>growingF := g\<rparr>) c = consumer_inv s c"
  "consumer_inv (s\<lparr>poppingF := g\<rparr>) c = consumer_inv s c"
  "consumer_inv (s\<lparr>muL := m\<rparr>) c = consumer_inv s c"
  "consumer_inv (s\<lparr>ppc := f\<rparr>) c = consumer_inv s c"
  "consumer_inv (s\<lparr>cpc := d\<rparr>) c = consumer_inv s c"
  by (cases c; simp)+

lemma consumer_inv_more:
  "consumer_inv s c \<Longrightarrow> lengthA s \<le> n \<Longrightarrow> consumer_inv (s\<lparr>lengthA := n\<rparr>) c"
  by (cases c) auto

lemma rb_conc_inv_frame [simp]:
  "rb_conc_inv (s\<lparr>muL := m\<rparr>) a c = rb_conc_inv s a c"
  "rb_conc_inv (s\<lparr>ppc := f\<rparr>) a c = rb_conc_inv s a c"
  "rb_conc_inv (s\<lparr>cpc := d\<rparr>) a c = rb_conc_inv s a c"
  by (simp_all add: rb_conc_inv_def)

lemma popping_not_critical: "\<not> popping_at c \<Longrightarrow> \<not> consumer_critical c"
  by (cases c) auto

lemma grow_critical_growing: "grow_critical a \<Longrightarrow> growing_at a"
  by (cases a) auto

lemma producer_step_inv:
  assumes inv: "rb_conc_inv s a c" and st: "producer_next zero s a = Some (s', a')"
  shows "rb_conc_inv s' a' c"
proof (cases a)
  case (PGrowHead x b t)
  then show ?thesis using inv st grow_head_keeps_inv by metis
next
  case (PCopy x b t nb h i)
  then show ?thesis
    using inv st copy_keeps_inv [of s x b t nb h i c] publish_keeps_inv [of s x b t nb h i c]
    by (auto split: if_splits)
next
  case (PWrite x b t)
  then show ?thesis using inv st write_keeps_inv by auto
next
  case (PStoreTail x b t)
  then show ?thesis using inv st store_tail_keeps_inv by auto
next
  case PAddLen
  then show ?thesis using inv st by (auto simp: rb_conc_inv_def intro: consumer_inv_more)
qed (use inv st in \<open>auto simp: rb_conc_inv_def popping_not_critical split: if_splits\<close>)

lemma clear_keeps_data:
  assumes d: "data_inv s (CRun b h n (Clear j # ops) acc)"
    and b: "b = contentP s" "h = headA s" "h \<le> j" "j < tailA s" "Clear j \<notin> set ops" "j < h + n"
  shows "data_inv (set_slot_at b j zero s) (CRun b h n ops acc)"
proof -
  have "arrays (set_slot_at b j zero s) b ! slot s b i
      = (if i = j then zero else arrays s b ! slot s b i)"
    if "h \<le> i" "i < tailA s" for i
    using d b that by (intro nth_set_slot_at [of h]) (auto simp: data_inv_def)
  then show ?thesis using d b by (auto simp: data_inv_def)
qed

lemma head_keeps_inv:
  assumes inv: "rb_conc_inv s a (CHead n b)"
  shows "rb_conc_inv s a (CRun b (headA s) n (drain_script (length (arrays s b)) (headA s) n) [])"
proof -
  have cap: "0 < length (arrays s b)" using inv by (auto simp: rb_conc_inv_def data_inv_def)
  show ?thesis
    using inv drain_script_ok [OF cap, where h = "headA s" and n = n] by (auto simp: rb_conc_inv_def data_inv_def)
qed

lemma read_keeps_inv:
  assumes inv: "rb_conc_inv s a (CRun b h n (Read j # ops) acc)"
  shows "rb_conc_inv s a (CRun b h n ops (acc @ [arrays s b ! slot s b j]))"
proof -
  have "b = contentP s" "h = headA s" "h \<le> j" "j < h + n" "Clear j \<in> set ops" "h + n \<le> tailA s"
    using inv by (auto simp: rb_conc_inv_def data_inv_def)
  then have "arrays s b ! slot s b j = hist s ! j"
    using inv by (auto simp: rb_conc_inv_def data_inv_def)
  then show ?thesis using inv by (auto simp: rb_conc_inv_def data_inv_def)
qed

lemma producer_inv_clear:
  assumes "producer_inv s a" "\<not> grow_critical a" "headA s \<le> j" "j < tailA s"
    and "tailA s - headA s < length (arrays s (contentP s)) \<or> (\<forall>x b t. a \<noteq> PStoreTail x b t)"
  shows "producer_inv (set_slot_at (contentP s) j zero s) a"
proof (cases a)
  case (PStoreTail x b t)
  then have "arrays (set_slot_at b j zero s) b ! slot s b t = arrays s b ! slot s b t"
    using assms nth_set_slot_at [of "headA s" t s b j zero] by auto
  then show ?thesis using assms PStoreTail by auto
qed (use assms in auto)

lemma clear_keeps_inv:
  assumes inv: "rb_conc_inv s a (CRun b h n (Clear j # ops) acc)"
  shows "rb_conc_inv (set_slot_at b j zero s) a (CRun b h n ops acc)"
proof -
  have b: "b = contentP s" "h = headA s" "h \<le> j" "j < h + n" "Clear j \<notin> set ops" "h + n \<le> tailA s"
    using inv by (auto simp: rb_conc_inv_def data_inv_def)
  have "data_inv (set_slot_at b j zero s) (CRun b h n ops acc)"
    using inv b by (intro clear_keeps_data) (auto simp: rb_conc_inv_def)
  moreover have "producer_inv (set_slot_at b j zero s) a"
    unfolding b(1) using inv b
    by (intro producer_inv_clear) (auto simp: rb_conc_inv_def)
  ultimately show ?thesis using inv by (auto simp: rb_conc_inv_def)
qed

lemma store_head_keeps_inv:
  assumes inv: "rb_conc_inv s a (CStoreHead h n acc)"
  shows "rb_conc_inv (s\<lparr>headA := h + n, out := out s @ acc\<rparr>) a (CLeave acc)"
proof -
  let ?s = "s\<lparr>headA := h + n, out := out s @ acc\<rparr>"
  have c: "h = headA s" "h + n \<le> tailA s" "tailA s = length (hist s)"
    "acc = map (nth (hist s)) [h..<h + n]" "out s = take h (hist s)"
    using inv by (auto simp: rb_conc_inv_def data_inv_def)
  have "out s @ acc = take (h + n) (hist s)"
    using c map_nth_segment [of h n "hist s"] by (simp add: take_add)
  then have "data_inv ?s (CLeave acc)"
    using inv c by (auto simp: rb_conc_inv_def data_inv_def)
  moreover have "producer_inv ?s a"
    using inv c by (cases a) (auto simp: rb_conc_inv_def)
  ultimately show ?thesis using inv c by (auto simp: rb_conc_inv_def)
qed

lemma consumer_step_inv:
  assumes inv: "rb_conc_inv s a c" and st: "consumer_next zero s c = Some (s', c')"
  shows "rb_conc_inv s' a c'"
proof (cases c)
  case (CHead n b)
  then show ?thesis using inv st head_keeps_inv by auto
next
  case (CRun b h n ops acc)
  show ?thesis
  proof (cases ops)
    case Nil
    then show ?thesis
      using inv st CRun by (auto simp: rb_conc_inv_def data_inv_def)
  next
    case (Cons op ops')
    then show ?thesis
      using inv st CRun read_keeps_inv [of s a b h n _ ops' acc]
        clear_keeps_inv [of s a b h n _ ops' acc zero]
      by (cases op) auto
  qed
next
  case (CStoreHead h n acc)
  then show ?thesis using inv st store_head_keeps_inv by auto
qed (use inv st in \<open>auto simp: rb_conc_inv_def data_inv_def
       split: if_splits dest: grow_critical_growing\<close>)

section \<open>Reachable states\<close>

definition active :: "'a rb_state \<Rightarrow> 'a producer_pc" where
  "active s = (case muL s of None \<Rightarrow> PIdle | Some p \<Rightarrow> ppc s p)"

definition lock_inv :: "'a rb_state \<Rightarrow> bool" where
  "lock_inv s \<longleftrightarrow> (\<forall>p. ppc s p \<noteq> PIdle \<longleftrightarrow> muL s = Some p)"

definition rb_safe :: "'a rb_state \<Rightarrow> bool" where
  "rb_safe s \<longleftrightarrow> lock_inv s \<and> rb_conc_inv s (active s) (cpc s)"

lemma active_cpc [simp]: "active (s\<lparr>cpc := d\<rparr>) = active s"
  by (simp add: active_def cong: option.case_cong)

lemma producer_next_frame:
  assumes "producer_next zero s a = Some (s', a')"
  shows "ppc s' = ppc s" "cpc s' = cpc s" "muL s' = (if a' = PIdle then None else muL s)"
  using assms by (cases a; auto simp: Let_def split: if_splits)+

lemma consumer_next_frame:
  assumes "consumer_next zero s c = Some (s', c')"
  shows "ppc s' = ppc s" "muL s' = muL s"
proof -
  have "ppc s' = ppc s \<and> muL s' = muL s"
    using assms by (cases "(zero, s, c)" rule: consumer_next.cases) (auto split: if_splits)
  then show "ppc s' = ppc s" "muL s' = muL s" by auto
qed

lemma rb_safe_init: "0 < cap \<Longrightarrow> rb_safe (rb_init zero cap)"
  by (simp add: rb_safe_def lock_inv_def active_def rb_conc_inv_def data_inv_def rb_init_def)

lemma rb_step_safe:
  assumes "rb_step zero s t" "rb_safe s"
  shows "rb_safe t"
  using assms
proof (induction rule: rb_step.induct)
  case (push_lock s p x)
  then have "rb_conc_inv s PIdle (cpc s)" by (simp add: rb_safe_def active_def)
  then have "rb_conc_inv s (PLocked x) (cpc s)" by (simp add: rb_conc_inv_def)
  then show ?case using push_lock by (auto simp: rb_safe_def lock_inv_def active_def)
next
  case (push_step s p s' pc')
  have "ppc s p \<noteq> PIdle" using push_step by auto
  then have p: "muL s = Some p" using push_step by (auto simp: rb_safe_def lock_inv_def)
  then have "rb_conc_inv s' pc' (cpc s)"
    using push_step producer_step_inv [of s "ppc s p" "cpc s"] by (auto simp: rb_safe_def active_def)
  then show ?case
    using push_step p producer_next_frame [OF push_step(1)]
    by (auto simp: rb_safe_def lock_inv_def active_def split: if_splits)
next
  case (pop_call s n)
  then show ?case by (auto simp: rb_safe_def lock_inv_def rb_conc_inv_def data_inv_def)
next
  case (pop_step s s' pc')
  then have "rb_conc_inv s' (active s) pc'"
    using consumer_step_inv by (auto simp: rb_safe_def)
  moreover have "active s' = active s"
    using consumer_next_frame [OF pop_step(1)] by (simp add: active_def split: option.split)
  ultimately show ?case
    using pop_step consumer_next_frame [OF pop_step(1)] by (auto simp: rb_safe_def lock_inv_def)
qed

lemma rb_reach_safe: "rb_reach zero cap s \<Longrightarrow> 0 < cap \<Longrightarrow> rb_safe s"
  by (induction rule: rb_reach.induct) (auto intro: rb_safe_init rb_step_safe)

text \<open>The plain (non-atomic) slot accesses each goroutine is about to make: array, slot, write?\<close>

fun producer_access :: "'a rb_state \<Rightarrow> 'a producer_pc \<Rightarrow> (nat \<times> nat \<times> bool) list" where
  "producer_access s (PCopy x old t nb h i) =
     (if i < t then [(old, slot s old i, False), (nb, slot s nb i, True)] else [])"
| "producer_access s (PWrite x b t) = [(b, slot s b t, True)]"
| "producer_access s _ = []"

fun consumer_access :: "'a rb_state \<Rightarrow> 'a consumer_pc \<Rightarrow> (nat \<times> nat \<times> bool) list" where
  "consumer_access s (CRun b h n (Read j # ops) acc) = [(b, slot s b j, False)]"
| "consumer_access s (CRun b h n (Clear j # ops) acc) = [(b, slot s b j, True)]"
| "consumer_access s _ = []"

definition data_race :: "'a rb_state \<Rightarrow> nat \<Rightarrow> bool" where
  "data_race s p \<longleftrightarrow>
     (\<exists>b i w w'. (b, i, w) \<in> set (producer_access s (ppc s p)) \<and>
        (b, i, w') \<in> set (consumer_access s (cpc s)) \<and> (w \<or> w'))"

lemma consumer_access_run:
  "(b, i, w) \<in> set (consumer_access s c) \<Longrightarrow>
     \<exists>h n op ops acc. c = CRun b h n (op # ops) acc \<and> i = slot s b (op_index op)"
  by (cases "(s, c)" rule: consumer_access.cases) auto

lemma producer_inv_of:
  assumes "rb_safe s"
  shows "ppc s p = PIdle \<or> active s = ppc s p"
proof (cases "muL s = Some p")
  case True
  then show ?thesis by (simp add: active_def)
next
  case False
  then show ?thesis using assms by (auto simp: rb_safe_def lock_inv_def)
qed

lemma rb_safe_race_free:
  assumes "rb_safe s"
  shows "\<not> data_race s p"
proof
  assume "data_race s p"
  then obtain b i w w' where acc: "(b, i, w) \<in> set (producer_access s (ppc s p))"
    "(b, i, w') \<in> set (consumer_access s (cpc s))" by (auto simp: data_race_def)
  obtain h n op ops a where c: "cpc s = CRun b h n (op # ops) a" "i = slot s b (op_index op)"
    using consumer_access_run [OF acc(2)] by blast
  have act: "active s = ppc s p"
    using producer_inv_of [OF assms, of p] acc(1) by auto
  then have inv: "rb_conc_inv s (ppc s p) (cpc s)" using assms by (simp add: rb_safe_def)
  then have "\<not> grow_critical (ppc s p)" using c by (simp add: rb_conc_inv_def)
  then obtain x t where w: "ppc s p = PWrite x b t" "i = slot s b t"
    using acc(1) by (cases "ppc s p") (auto split: if_splits)
  have "headA s \<le> op_index op" "op_index op < tailA s" "headA s \<le> t" "t < headA s + length (arrays s b)"
    "t = tailA s"
    using inv c w by (auto simp: rb_conc_inv_def data_inv_def)
  then have "slot s b (op_index op) \<noteq> slot s b t"
    using mod_window_inj [of "op_index op" "length (arrays s b)" t "headA s"] by auto
  then show False using c w by simp
qed

text \<open>
  The handshake never wedges: a goroutine inside an operation can always be followed by a
  step that changes the state, so a spin loop is always waiting for somebody who can move.
\<close>

lemma producer_next_moves:
  assumes "a \<noteq> PIdle" "\<not> (growing_at a \<and> poppingF s)"
  shows "\<exists>s' a'. producer_next zero s a = Some (s', a') \<and> a' \<noteq> a"
  using assms by (cases a) (auto simp: Let_def)

lemma consumer_next_moves:
  assumes "c \<noteq> CIdle" "\<not> (growingF s \<and> (\<exists>n. c = CWait n))"
  shows "\<exists>s' c'. consumer_next zero s c = Some (s', c') \<and> c' \<noteq> c"
  using assms by (cases "(zero, s, c)" rule: consumer_next.cases) auto

lemma producer_moves:
  assumes "active s = a" "a \<noteq> PIdle" "lock_inv s" "\<not> (growing_at a \<and> poppingF s)"
  shows "\<exists>t. rb_step zero s t \<and> t \<noteq> s"
proof -
  obtain p where p: "ppc s p = a"
    using assms by (auto simp: active_def split: option.splits)
  obtain s' a' where n: "producer_next zero s a = Some (s', a')" "a' \<noteq> a"
    using producer_next_moves [of a s zero] assms by auto
  have "rb_step zero s (s'\<lparr>ppc := (ppc s')(p := a')\<rparr>)"
    using n p by (auto intro: rb_step.push_step)
  moreover have "s'\<lparr>ppc := (ppc s')(p := a')\<rparr> \<noteq> s"
    using n(2) p by (metis fun_upd_same rb_state.select_convs(10) rb_state.surjective rb_state.update_convs(10))
  ultimately show ?thesis by blast
qed

lemma consumer_moves:
  assumes "cpc s \<noteq> CIdle" "\<not> (growingF s \<and> (\<exists>n. cpc s = CWait n))"
  shows "\<exists>t. rb_step zero s t \<and> t \<noteq> s"
proof -
  obtain s' c' where n: "consumer_next zero s (cpc s) = Some (s', c')" "c' \<noteq> cpc s"
    using consumer_next_moves [of "cpc s" s zero] assms by auto
  have "rb_step zero s (s'\<lparr>cpc := c'\<rparr>)"
    using n by (auto intro: rb_step.pop_step)
  moreover have "s'\<lparr>cpc := c'\<rparr> \<noteq> s"
    using n(2) by (metis rb_state.select_convs(11) rb_state.surjective rb_state.update_convs(11))
  ultimately show ?thesis by blast
qed

lemma rb_safe_progress:
  assumes "rb_safe s" "ppc s p \<noteq> PIdle \<or> cpc s \<noteq> CIdle"
  shows "\<exists>t. rb_step zero s t \<and> t \<noteq> s"
proof -
  have inv: "lock_inv s" "poppingF s = popping_at (cpc s)" "growingF s = growing_at (active s)"
    using assms(1) by (auto simp: rb_safe_def rb_conc_inv_def)
  consider (consumer) "cpc s \<noteq> CIdle" "\<not> (growingF s \<and> (\<exists>n. cpc s = CWait n))"
    | (waiting) n where "cpc s = CWait n" "growingF s"
    | (idle) "cpc s = CIdle" "ppc s p \<noteq> PIdle"
    using assms(2) by blast
  then show ?thesis
  proof cases
    case consumer
    then show ?thesis by (rule consumer_moves)
  next
    case waiting
    then have "active s \<noteq> PIdle" "\<not> poppingF s" using inv by auto
    then show ?thesis by (intro producer_moves [OF refl]) (use inv in auto)
  next
    case idle
    then have "active s \<noteq> PIdle" "\<not> poppingF s"
      using inv producer_inv_of [OF assms(1), of p] by auto
    then show ?thesis by (intro producer_moves [OF refl]) (use inv in auto)
  qed
qed

lemma rb_safe_linear:
  assumes "rb_safe s"
  shows "out s = take (headA s) (hist s)" "headA s \<le> length (hist s)"
    and "(\<forall>p. ppc s p = PIdle) \<Longrightarrow> cpc s = CIdle \<Longrightarrow>
      window (arrays s (contentP s)) (headA s) (tailA s) = drop (headA s) (hist s) \<and>
      lengthA s = length (hist s) - headA s"
    and "cpc s = CLeave acc \<Longrightarrow> \<exists>pre. out s = pre @ acc"
proof -
  have inv: "rb_conc_inv s (active s) (cpc s)" using assms by (simp add: rb_safe_def)
  then show "out s = take (headA s) (hist s)" "headA s \<le> length (hist s)"
    by (auto simp: rb_conc_inv_def data_inv_def)
  show "\<exists>pre. out s = pre @ acc" if "cpc s = CLeave acc"
    using inv that by (simp add: rb_conc_inv_def)
  assume idle: "\<forall>p. ppc s p = PIdle" "cpc s = CIdle"
  then have "active s = PIdle" by (simp add: active_def split: option.split)
  moreover have "window (arrays s (contentP s)) (headA s) (tailA s) = drop (headA s) (hist s)"
    using inv idle by (intro nth_equalityI) (auto simp: rb_conc_inv_def data_inv_def window_nth)
  ultimately show "window (arrays s (contentP s)) (headA s) (tailA s) = drop (headA s) (hist s) \<and>
      lengthA s = length (hist s) - headA s"
    using inv idle by (auto simp: rb_conc_inv_def data_inv_def)
qed

section \<open>Properties\<close>

text \<open>
  C9. Linearizability of the ring buffer. In every reachable interleaving of any number of
  producers in \<open>Push\<close> (growing or not) and the consumer in \<open>Pop\<close>/\<open>PopN\<close>, the items
  handed to the consumer are a prefix of the pushed items in tail order (none lost,
  duplicated or reordered), a batch about to be returned is the newest part of that prefix,
  and when nobody is inside an operation the array holds exactly the items not yet handed
  out and \<open>length\<close> counts them.
\<close>

theorem ring_buffer_linearizable:
  assumes "rb_reach zero cap s" and "0 < cap"
  shows "\<exists>pending. hist s = out s @ pending \<and>
    (\<forall>acc. cpc s = CLeave acc \<longrightarrow> (\<exists>before. out s = before @ acc)) \<and>
    ((\<forall>p. ppc s p = PIdle) \<and> cpc s = CIdle \<longrightarrow>
       window (arrays s (contentP s)) (headA s) (tailA s) = pending \<and>
       lengthA s = length pending)"
proof -
  note lin = rb_safe_linear [OF rb_reach_safe [OF assms]]
  have "hist s = out s @ drop (headA s) (hist s)" by (simp add: lin(1))
  then show ?thesis using lin by (intro exI [of _ "drop (headA s) (hist s)"]) auto
qed

text \<open>A run with one grow: two items fill the array, the third push doubles it, two are popped.\<close>

definition grow_run :: "nat rb_event list" where
  "grow_run =
     Lock 1 10 # replicate 7 (Produce 1) @ Lock 2 20 # replicate 7 (Produce 2) @
     Lock 1 30 # replicate 14 (Produce 1) @ Call 2 # replicate 12 Consume"

lemma grow_run_result:
  "map_option (\<lambda>s. (hist s, out s, contentP s, ppc s 1, ppc s 2, cpc s)) (rb_run 0 grow_run (rb_init 0 2))
   = Some ([10, 20, 30], [10, 20], 1, PIdle, PIdle, CIdle)"
  by code_simp

lemma grow_run_reach:
  obtains s where "rb_reach 0 2 s" "rb_run 0 grow_run (rb_init 0 2) = Some s"
    and "hist s = [10, 20, 30]" "out s = [10, 20]" "contentP s = 1" "ppc s 1 = PIdle"
    "ppc s 2 = PIdle" "cpc s = CIdle"
  using grow_run_result rb_run_reach [OF rb_reach.init [of 0 2]] by auto

theorem ring_buffer_linearizable_witness:
  "\<exists>s pending. rb_run (0 :: nat) grow_run (rb_init 0 2) = Some s \<and>
     out s = [10, 20] \<and> hist s = [10, 20] @ pending \<and> pending = [30]"
proof -
  obtain s where s: "rb_reach 0 2 s" "rb_run 0 grow_run (rb_init 0 2) = Some s"
    "hist s = [10, 20, 30]" "out s = [10, 20]" by (rule grow_run_reach)
  have "(0 :: nat) < 2" by simp
  from ring_buffer_linearizable [OF s(1) this] obtain pending where
    "hist s = out s @ pending" by blast
  then show ?thesis using s by (intro exI [of _ s] exI [of _ pending]) simp
qed

text \<open>
  Mutual exclusion. In every reachable interleaving at most one goroutine is inside
  \<open>Push\<close>, and while it is in the part of \<open>grow\<close> that reads the old array and publishes
  the new one, the consumer is outside its critical section.
\<close>

lemma grow_excludes_consumer:
  assumes "rb_reach zero cap s" and "0 < cap"
  shows "\<not> (grow_critical (ppc s p) \<and> consumer_critical (cpc s)) \<and>
    (ppc s p = PIdle \<or> ppc s q = PIdle \<or> p = q)"
proof -
  have safe: "rb_safe s" by (rule rb_reach_safe [OF assms])
  then have "ppc s p = PIdle \<or> ppc s q = PIdle \<or> p = q"
    by (auto simp: rb_safe_def lock_inv_def)
  moreover have "\<not> (grow_critical (ppc s p) \<and> consumer_critical (cpc s))"
    using safe producer_inv_of [OF safe, of p] by (auto simp: rb_safe_def rb_conc_inv_def)
  ultimately show ?thesis by blast
qed

text \<open>The consumer calls \<open>PopN\<close> while a producer is copying: it stands down.\<close>

definition contended_run :: "nat rb_event list" where
  "contended_run =
     Lock 1 10 # replicate 7 (Produce 1) @ Lock 2 20 # replicate 7 (Produce 2) @
     Lock 1 30 # replicate 7 (Produce 1) @ Call 2 # replicate 4 Consume"

lemma contended_run_result:
  "map_option (\<lambda>s. (ppc s 1, cpc s, poppingF s, growingF s)) (rb_run 0 contended_run (rb_init 0 2))
   = Some (PCopy 30 0 2 1 0 1, CWait 2, False, True)"
  by code_simp

lemma grow_excludes_consumer_witness:
  "\<exists>s. rb_run (0 :: nat) contended_run (rb_init 0 2) = Some s \<and>
     grow_critical (ppc s 1) \<and> \<not> consumer_critical (cpc s) \<and> ppc s 2 = PIdle"
proof -
  obtain s where s: "rb_run 0 contended_run (rb_init 0 2) = Some s"
    "ppc s 1 = PCopy 30 0 2 1 0 1"
    using contended_run_result by auto
  have r: "rb_reach 0 2 s" by (rule rb_run_reach [OF rb_reach.init s(1)])
  have cap: "(0 :: nat) < 2" by simp
  have "\<not> (grow_critical (ppc s 1) \<and> consumer_critical (cpc s)) \<and> ppc s 2 = PIdle"
    using grow_excludes_consumer [OF r cap, of 1 2] s(2) by auto
  then show ?thesis using s by (intro exI [of _ s]) simp
qed

text \<open>
  Data-race freedom. In no reachable state is a producer about to access the array slot
  the consumer is about to access, with one of the two accesses a write: this is what makes
  the interleaving model of the plain accesses sound for Go's memory model.
\<close>

lemma slots_race_free:
  assumes "rb_reach zero cap s" and "0 < cap"
  shows "\<not> data_race s p"
  using rb_safe_race_free [OF rb_reach_safe [OF assms]] .

lemma slots_race_free_witness:
  "\<exists>s. rb_run (0 :: nat) contended_run (rb_init 0 2) = Some s \<and> \<not> data_race s 1 \<and>
     producer_access s (ppc s 1) \<noteq> []"
proof -
  obtain s where s: "rb_run 0 contended_run (rb_init 0 2) = Some s"
    "ppc s 1 = PCopy 30 0 2 1 0 1"
    using contended_run_result by auto
  have "rb_reach 0 2 s" by (rule rb_run_reach [OF rb_reach.init s(1)])
  then have "\<not> data_race s 1" by (rule slots_race_free) simp
  then show ?thesis using s by (intro exI [of _ s]) simp
qed

text \<open>
  The growing/popping handshake cannot deadlock: whenever some goroutine is inside an
  operation, some goroutine can take a step that changes the state, so no reachable state
  has everybody spinning.
\<close>

lemma handshake_progress:
  assumes "rb_reach zero cap s" and "0 < cap" and "ppc s p \<noteq> PIdle \<or> cpc s \<noteq> CIdle"
  shows "\<exists>t. rb_step zero s t \<and> t \<noteq> s"
  using rb_safe_progress [OF rb_reach_safe [OF assms(1,2)] assms(3)] .

lemma handshake_progress_witness:
  "\<exists>s t. rb_run (0 :: nat) contended_run (rb_init 0 2) = Some s \<and> cpc s = CWait 2 \<and>
     growingF s \<and> rb_step 0 s t \<and> t \<noteq> s"
proof -
  obtain s where s: "rb_run 0 contended_run (rb_init 0 2) = Some s" "cpc s = CWait 2" "growingF s"
    using contended_run_result by auto
  have "rb_reach 0 2 s" by (rule rb_run_reach [OF rb_reach.init s(1)])
  then have "\<exists>t. rb_step 0 s t \<and> t \<noteq> s"
    by (rule handshake_progress [of _ _ _ 1]) (use s in auto)
  then show ?thesis using s by blast
qed

end
