(* ===== verification/RingBuffer_Link.thy ===== *)
theory RingBuffer_Link
  imports RingBuffer RingBuffer_Conc
begin

text \<open>
  The two models of \<^verbatim>\<open>src/ringbuffer/ringbuffer.go\<close> agree: an operation run through alone in the machine
  of atomic accesses (\<open>RingBuffer_Conc\<close>) computes what the function on words (\<open>RingBuffer\<close>) returns.
\<close>

section \<open>Runs of one goroutine\<close>

lemma rb_run_append: "rb_run zero (es @ es') s = Option.bind (rb_run zero es s) (rb_run zero es')"
  by (induction es arbitrary: s) (auto simp: bind_eq_Some_conv split: bind_splits)

lemma rb_run_seq: "rb_run zero es s = Some u \<Longrightarrow> rb_run zero es' u = Some t \<Longrightarrow> rb_run zero (es @ es') s = Some t"
  by (simp add: rb_run_append)

lemma rb_run_Cons: "rb_exec zero e s = Some u \<Longrightarrow> rb_run zero es u = Some t \<Longrightarrow> rb_run zero (e # es) s = Some t"
  by simp

lemma copy_loop:
  assumes "ppc s p = PCopy x old t nb h i" "i \<le> t" "nb \<noteq> old"
  shows "rb_run zero (replicate (t - i) (Produce p)) s =
    Some (s\<lparr>arrays := (arrays s)(nb := blit (\<lambda>j. arrays s old ! slot s old j) (arrays s nb) i t),
            ppc := (ppc s)(p := PCopy x old t nb h t)\<rparr>)"
  using assms
proof (induction "t - i" arbitrary: i s)
  case 0
  then have "t = i" by simp
  then show ?case using 0 by (simp add: fun_upd_idem)
next
  case (Suc n)
  let ?f = "\<lambda>j. arrays s old ! slot s old j"
  let ?s = "set_slot_at nb i (?f i) s\<lparr>ppc := (ppc s)(p := PCopy x old t nb h (Suc i))\<rparr>"
  have i: "i < t" using Suc by simp
  have step: "rb_exec zero (Produce p) s = Some ?s" using Suc.prems i by (simp add: set_slot_at_def)
  have "rb_run zero (replicate (t - Suc i) (Produce p)) ?s = Some (?s\<lparr>arrays := (arrays ?s)(nb :=
      blit (\<lambda>j. arrays ?s old ! slot ?s old j) (arrays ?s nb) (Suc i) t), ppc := (ppc ?s)(p := PCopy x old t nb h t)\<rparr>)"
    using Suc.hyps(1) [of "Suc i" ?s] Suc.hyps(2) i Suc.prems(3) by (simp add: set_slot_at_def)
  moreover have "blit ?f ((arrays s nb)[slot s nb i := ?f i]) (Suc i) t = blit ?f (arrays s nb) i t"
    using blit_Cons [OF i, of ?f "arrays s nb"] by simp
  ultimately have "rb_run zero (replicate (t - Suc i) (Produce p)) ?s =
    Some (s\<lparr>arrays := (arrays s)(nb := blit ?f (arrays s nb) i t), ppc := (ppc s)(p := PCopy x old t nb h t)\<rparr>)"
    using Suc.prems(3) by (simp add: set_slot_at_def)
  moreover have "replicate (t - i) (Produce p) = Produce p # replicate (t - Suc i) (Produce p)"
    using i by (metis Suc_diff_Suc replicate_Suc)
  ultimately show ?case using rb_run_Cons [OF step] by metis
qed

lemma read_loop:
  assumes "cpc s = CRun b h n (map Read js @ ops) acc"
  shows "rb_run zero (replicate (length js) Consume) s =
    Some (s\<lparr>cpc := CRun b h n ops (acc @ map (\<lambda>j. arrays s b ! slot s b j) js)\<rparr>)"
  using assms
proof (induction js arbitrary: s acc)
  case (Cons j js)
  let ?s = "s\<lparr>cpc := CRun b h n (map Read js @ ops) (acc @ [arrays s b ! slot s b j])\<rparr>"
  have step: "rb_exec zero Consume s = Some ?s" using Cons.prems by simp
  have "rb_run zero (replicate (length js) Consume) ?s =
    Some (?s\<lparr>cpc := CRun b h n ops ((acc @ [arrays s b ! slot s b j]) @ map (\<lambda>j. arrays ?s b ! slot ?s b j) js)\<rparr>)"
    by (rule Cons.IH) simp
  then show ?case using rb_run_Cons [OF step] by simp
qed simp

lemma clear_loop:
  assumes "cpc s = CRun b h n (map Clear [i..<t] @ ops) acc" "i \<le> t"
  shows "rb_run zero (replicate (t - i) Consume) s =
    Some (s\<lparr>arrays := (arrays s)(b := blit (\<lambda>_. zero) (arrays s b) i t), cpc := CRun b h n ops acc\<rparr>)"
  using assms
proof (induction "t - i" arbitrary: i s)
  case 0
  then have "t = i" by simp
  then show ?case using 0 by simp
next
  case (Suc m)
  let ?s = "set_slot_at b i zero s\<lparr>cpc := CRun b h n (map Clear [Suc i..<t] @ ops) acc\<rparr>"
  have i: "i < t" using Suc by simp
  then have step: "rb_exec zero Consume s = Some ?s" using Suc.prems by (simp add: upt_conv_Cons)
  have "rb_run zero (replicate (t - Suc i) Consume) ?s = Some (?s\<lparr>arrays := (arrays ?s)(b :=
      blit (\<lambda>_. zero) (arrays ?s b) (Suc i) t), cpc := CRun b h n ops acc\<rparr>)"
    using Suc.hyps(1) [of "Suc i" ?s] Suc.hyps(2) i by simp
  moreover have "blit (\<lambda>_. zero) ((arrays s b)[slot s b i := zero]) (Suc i) t = blit (\<lambda>_. zero) (arrays s b) i t"
    using blit_Cons [OF i, of "\<lambda>_. zero" "arrays s b"] by simp
  ultimately have "rb_run zero (replicate (t - Suc i) Consume) ?s =
    Some (s\<lparr>arrays := (arrays s)(b := blit (\<lambda>_. zero) (arrays s b) i t), cpc := CRun b h n ops acc\<rparr>)"
    by (simp add: set_slot_at_def)
  moreover have "replicate (t - i) Consume = Consume # replicate (t - Suc i) Consume"
    using i by (metis Suc_diff_Suc replicate_Suc)
  ultimately show ?case using rb_run_Cons [OF step] by metis
qed


section \<open>The two models\<close>

text \<open>
  \<open>represents rb s\<close>: nobody is inside the machine's code, and its array, cursors and counter are those of
  the sequential buffer, whose words stand for the machine's numbers.
\<close>

definition represents :: "'a RingBuffer \<Rightarrow> 'a rb_state \<Rightarrow> bool" where
  "represents rb s \<longleftrightarrow> arrays s (contentP s) = items (content rb) \<and> contentP s < fresh s \<and>
     headA s = unat (head rb) \<and> tailA s = unat (tail rb) \<and> lengthA s = unat (rlength rb) \<and>
     muL s = None \<and> \<not> growingF s \<and> \<not> poppingF s \<and> (\<forall>p. ppc s p = PIdle) \<and> cpc s = CIdle"

lemma solo_push_room:
  assumes idle: "ppc s p = PIdle" "muL s = None"
    and room: "tailA s - headA s < length (arrays s (contentP s))"
  shows "rb_run zero (Lock p x # replicate 7 (Produce p)) s =
    Some (set_slot_at (contentP s) (tailA s) x s\<lparr>tailA := Suc (tailA s), hist := hist s @ [x], lengthA := Suc (lengthA s)\<rparr>)"
proof -
  have "ppc s = (ppc s)(p := PIdle)" using idle by auto
  then show ?thesis using assms by (simp add: eval_nat_numeral set_slot_at_def)
qed

lemma solo_push_full:
  fixes zero :: 'a
  assumes idle: "ppc s p = PIdle" "muL s = None" "\<not> poppingF s" "\<not> growingF s" and c: "contentP s < fresh s"
    and full: "length (arrays s (contentP s)) \<le> tailA s - headA s" "headA s \<le> tailA s"
  defines "xs \<equiv> blit (\<lambda>j. arrays s (contentP s) ! slot s (contentP s) j) (replicate (2 * length (arrays s (contentP s))) zero) (headA s) (tailA s)"
  shows "rb_run zero (Lock p x # replicate 6 (Produce p) @ replicate (tailA s - headA s) (Produce p) @ replicate 6 (Produce p)) s =
    Some (s\<lparr>arrays := (arrays s)(fresh s := xs[tailA s mod length xs := x]), fresh := Suc (fresh s), contentP := fresh s,
      tailA := Suc (tailA s), hist := hist s @ [x], lengthA := Suc (lengthA s)\<rparr>)"
proof -
  let ?old = "contentP s" and ?nb = "fresh s" and ?h = "headA s" and ?t = "tailA s"
  let ?z = "replicate (2 * length (arrays s ?old)) zero"
  let ?s1 = "s\<lparr>muL := Some p, growingF := True, fresh := Suc ?nb, arrays := (arrays s)(?nb := ?z),
    ppc := (ppc s)(p := PCopy x ?old ?t ?nb ?h ?h)\<rparr>"
  let ?s2 = "?s1\<lparr>arrays := (arrays s)(?nb := xs), ppc := (ppc s)(p := PCopy x ?old ?t ?nb ?h ?t)\<rparr>"
  have ppc: "ppc s = (ppc s)(p := PIdle)" using idle by auto
  have 1: "rb_run zero (Lock p x # replicate 6 (Produce p)) s = Some ?s1"
    using idle full by (simp add: eval_nat_numeral Let_def)
  have 2: "rb_run zero (replicate (?t - ?h) (Produce p)) ?s1 = Some ?s2"
    using copy_loop [of ?s1 p x ?old ?t ?nb ?h ?h zero] less_imp_neq [OF c] full by (simp add: xs_def)
  have 3: "rb_run zero (replicate 6 (Produce p)) ?s2 = Some (s\<lparr>arrays := (arrays s)(fresh s := xs[tailA s mod length xs := x]), fresh := Suc (fresh s), contentP := fresh s,
      tailA := Suc (tailA s), hist := hist s @ [x], lengthA := Suc (lengthA s)\<rparr>)"
    using ppc idle by (simp add: eval_nat_numeral set_slot_at_def)
  show ?thesis using rb_run_seq [OF 1 rb_run_seq [OF 2 3]] by simp
qed


lemma solo_drain:
  fixes zero :: 'a
  assumes run: "cpc s = CRun b h m (drain_script (length (arrays s b)) h m) []"
    and m: "m \<le> length (arrays s b)" "0 < length (arrays s b)"
  shows "\<exists>n. rb_run zero (replicate n Consume) s =
    Some (s\<lparr>arrays := (arrays s)(b := blit (\<lambda>_. zero) (arrays s b) h (h + m)),
            cpc := CRun b h m [] (window (arrays s b) h (h + m))\<rparr>)"
proof -
  let ?xs = "arrays s b" and ?rd = "\<lambda>xs :: 'a list. \<lambda>j. xs ! (j mod length xs)"
  define f where "f = min m (length ?xs - h mod length ?xs)"
  let ?ys = "blit (\<lambda>_. zero) ?xs h (h + f)"
  have le: "f \<le> m" by (simp add: f_def)
  have script: "drain_script (length ?xs) h m = map Read [h..<h + f] @ map Clear [h..<h + f] @
      map Read [h + f..<h + m] @ map Clear [h + f..<h + m]"
    by (simp add: drain_script_def f_def Let_def)
  let ?s1 = "s\<lparr>cpc := CRun b h m (map Clear [h..<h + f] @ map Read [h + f..<h + m] @ map Clear [h + f..<h + m]) (map (?rd ?xs) [h..<h + f])\<rparr>"
  let ?s2 = "s\<lparr>arrays := (arrays s)(b := ?ys),
    cpc := CRun b h m (map Read [h + f..<h + m] @ map Clear [h + f..<h + m] @ []) (map (?rd ?xs) [h..<h + f])\<rparr>"
  let ?s3 = "?s2\<lparr>cpc := CRun b h m (map Clear [h + f..<h + m] @ []) (map (?rd ?xs) [h..<h + f] @ map (?rd ?ys) [h + f..<h + m])\<rparr>"
  let ?s4 = "?s3\<lparr>arrays := (arrays s)(b := blit (\<lambda>_. zero) ?ys (h + f) (h + m)),
    cpc := CRun b h m [] (map (?rd ?xs) [h..<h + f] @ map (?rd ?ys) [h + f..<h + m])\<rparr>"
  have 1: "rb_run zero (replicate (length [h..<h + f]) Consume) s = Some ?s1"
    using read_loop [of s b h m "[h..<h + f]"] run script by simp
  have 2: "rb_run zero (replicate (h + f - h) Consume) ?s1 = Some ?s2"
    using clear_loop [of ?s1 b h m h "h + f"] by simp
  have 3: "rb_run zero (replicate (length [h + f..<h + m]) Consume) ?s2 = Some ?s3"
    using read_loop [of ?s2 b h m "[h + f..<h + m]"] by simp
  have 4: "rb_run zero (replicate (h + m - (h + f)) Consume) ?s3 = Some ?s4"
    using clear_loop [of ?s3 b h m "h + f" "h + m" "[]"] le by simp
  have "map (?rd ?ys) [h + f..<h + m] = map (?rd ?xs) [h + f..<h + m]"
    using blit_nth [of h _ ?xs "h + f" "\<lambda>_. zero"] le m by auto
  then have "map (?rd ?xs) [h..<h + f] @ map (?rd ?ys) [h + f..<h + m] = window ?xs h (h + m)"
    using window_append [of h "h + f" "h + m" ?xs] le by (simp add: window_def)
  moreover have "blit (\<lambda>_. zero) ?ys (h + f) (h + m) = blit (\<lambda>_. zero) ?xs h (h + m)"
    using le by (intro blit_append) auto
  ultimately have s4: "?s4 = s\<lparr>arrays := (arrays s)(b := blit (\<lambda>_. zero) ?xs h (h + m)), cpc := CRun b h m [] (window ?xs h (h + m))\<rparr>"
    by simp
  note all = rb_run_seq [OF 1 rb_run_seq [OF 2 rb_run_seq [OF 3 4]]]
  show ?thesis using all unfolding s4 by (metis replicate_add)
qed

lemma solo_popn:
  fixes zero :: 'a
  assumes idle: "cpc s = CIdle" "\<not> growingF s" "\<not> poppingF s"
    and n: "0 < n" "0 < lengthA s" "min n (lengthA s) \<le> length (arrays s (contentP s))"
  defines "m \<equiv> min n (lengthA s)"
  shows "\<exists>k. rb_run zero (Call n # replicate k Consume) s =
    Some (s\<lparr>arrays := (arrays s)(contentP s := blit (\<lambda>_. zero) (arrays s (contentP s)) (headA s) (headA s + m)),
            lengthA := lengthA s - m, headA := headA s + m, out := out s @ window (arrays s (contentP s)) (headA s) (headA s + m)\<rparr>)"
proof -
  let ?b = "contentP s" and ?h = "headA s"
  let ?xs = "arrays s ?b"
  let ?s1 = "s\<lparr>poppingF := True, cpc := CRun ?b ?h m (drain_script (length ?xs) ?h m) []\<rparr>"
  let ?s2 = "?s1\<lparr>arrays := (arrays s)(?b := blit (\<lambda>_. zero) ?xs ?h (?h + m)), cpc := CRun ?b ?h m [] (window ?xs ?h (?h + m))\<rparr>"
  have 1: "rb_run zero (Call n # replicate 5 Consume) s = Some ?s1"
    using idle n by (simp add: eval_nat_numeral m_def)
  have "0 < length ?xs" using n by linarith
  then obtain k where 2: "rb_run zero (replicate k Consume) ?s1 = Some ?s2"
    using solo_drain [of ?s1 ?b ?h m zero] n(3) by (auto simp: m_def)
  have 3: "rb_run zero (replicate 3 Consume) ?s2 =
    Some (s\<lparr>arrays := (arrays s)(?b := blit (\<lambda>_. zero) ?xs ?h (?h + m)),
            lengthA := lengthA s - m, headA := ?h + m, out := out s @ window ?xs ?h (?h + m)\<rparr>)"
    using idle by (simp add: eval_nat_numeral)
  show ?thesis using rb_run_seq [OF 1 rb_run_seq [OF 2 3]] by (metis append_Cons replicate_add)
qed


section \<open>Property\<close>

lemma push_agrees:
  assumes inv: "rb_inv zero rb" and rep: "represents rb s" and room: "rb_room (Suc 0) rb"
  shows "\<exists>rb' k s'. Push zero x rb = Return (True, rb') \<and> rb_run zero (Lock p x # replicate k (Produce p)) s = Some s' \<and>
    represents rb' s' \<and> hist s' = hist s @ [x] \<and> out s' = out s"
proof -
  let ?xs = "items (content rb)" and ?h = "unat (head rb)" and ?t = "unat (tail rb)"
  have rep': "arrays s (contentP s) = ?xs" "contentP s < fresh s" "headA s = ?h" "tailA s = ?t" "lengthA s = unat (rlength rb)"
    "muL s = None" "\<not> growingF s" "\<not> poppingF s" "ppc s p = PIdle" "cpc s = CIdle" "\<forall>p. ppc s p = PIdle"
    using rep by (simp_all add: represents_def)
  obtain rb' where rb': "Push zero x rb = Return (True, rb')" "rb_inv zero rb'" "rb_list rb' = rb_list rb @ [x]" "head rb' = head rb"
    "tail rb' = tail rb + 1" "items (content rb') = (roomy_items zero rb)[?t mod length (roomy_items zero rb) := x]"
    using Push_spec [OF inv room, of x] .
  have t: "unat (tail rb') = Suc ?t" using room rb'(5) by (simp add: rb_room_def) (subst unat_add_small, auto)
  have l: "unat (rlength rb') = Suc (unat (rlength rb))" using unat_rlength [OF inv] unat_rlength [OF rb'(2)] rb'(3) by simp
  have cur: "?h \<le> ?t" "?t - ?h \<le> length ?xs" using inv by (auto simp: rb_inv_def ring_ok_def)
  show ?thesis
  proof (cases "?t - ?h = length ?xs")
    case True
    let ?s' = "s\<lparr>arrays := (arrays s)(fresh s := items (content rb')), fresh := Suc (fresh s), contentP := fresh s,
      tailA := Suc (tailA s), hist := hist s @ [x], lengthA := Suc (lengthA s)\<rparr>"
    have "roomy_items zero rb = blit (\<lambda>j. ?xs ! (j mod length ?xs)) (replicate (2 * length ?xs) zero) ?h ?t"
      using True by (simp add: roomy_items_def Let_def)
    then have "rb_run zero (Lock p x # replicate 6 (Produce p) @ replicate (?t - ?h) (Produce p) @ replicate 6 (Produce p)) s = Some ?s'"
      using solo_push_full [OF rep'(9,6,8,7,2), of zero x] rep' True cur rb'(6) by simp
    then have "rb_run zero (Lock p x # replicate (6 + (?t - ?h + 6)) (Produce p)) s = Some ?s'"
      by (simp only: replicate_add append_assoc)
    moreover have "represents rb' ?s'" using rep' t l rb'(4) by (simp add: represents_def)
    ultimately show ?thesis using rb'(1) by (intro exI conjI) (assumption | simp)+
  next
    case False
    let ?s' = "set_slot_at (contentP s) (tailA s) x s\<lparr>tailA := Suc (tailA s), hist := hist s @ [x], lengthA := Suc (lengthA s)\<rparr>"
    have "roomy_items zero rb = ?xs" using False by (simp add: roomy_items_def)
    moreover have "rb_run zero (Lock p x # replicate 7 (Produce p)) s = Some ?s'"
      using solo_push_room [OF rep'(9,6)] rep' False cur by simp
    moreover from calculation(1) have "represents rb' ?s'"
      using rep' t l rb'(4,6) by (simp add: represents_def set_slot_at_def)
    ultimately show ?thesis using rb'(1) by (intro exI conjI) (assumption | simp add: set_slot_at_def)+
  qed
qed

lemma popn_agrees:
  assumes inv: "rb_inv zero rb" and rep: "represents rb s" and n: "0 < sint n"
  shows "\<exists>rb' batch ok k s'. PopN zero n rb = Return ((batch, ok), rb') \<and> rb_run zero (Call (unat n) # replicate k Consume) s = Some s' \<and>
    represents rb' s' \<and> hist s' = hist s \<and> out s' = out s @ batch"
proof -
  let ?xs = "items (content rb)" and ?h = "unat (head rb)" and ?t = "unat (tail rb)"
  have rep': "arrays s (contentP s) = ?xs" "contentP s < fresh s" "headA s = ?h" "tailA s = ?t" "lengthA s = unat (rlength rb)"
    "muL s = None" "\<not> growingF s" "\<not> poppingF s" "cpc s = CIdle" "\<forall>p. ppc s p = PIdle"
    using rep by (simp_all add: represents_def)
  have len: "unat (rlength rb) = length (rb_list rb)" by (rule unat_rlength [OF inv])
  have un: "0 < unat n" "nat (sint n) = unat n" using n sint_nonneg_unat [of n] by simp_all
  show ?thesis
  proof (cases "rb_list rb = []")
    case True
    have "rb_run zero (Call (unat n) # replicate 1 Consume) s = Some s" using rep' un len True by simp
    moreover have "PopN zero n rb = Return (([], False), rb)" using PopN_empty [OF inv] True by blast
    ultimately show ?thesis using rep append_Nil2 by metis
  next
    case False
    let ?m = "min (unat n) (length (rb_list rb))"
    obtain rb' where rb': "PopN zero n rb = Return ((take (nat (sint n)) (rb_list rb), True), rb')"
      "rb_inv zero rb'" "rb_list rb' = drop (nat (sint n)) (rb_list rb)" "tail rb' = tail rb" "unat (head rb') = ?h + ?m"
      "items (content rb') = blit (\<lambda>_. zero) ?xs ?h (?h + ?m)"
      using PopN_spec [OF inv n False] .
    have cur: "?h \<le> ?t" "?t - ?h \<le> length ?xs" using inv by (auto simp: rb_inv_def ring_ok_def)
    let ?s' = "s\<lparr>arrays := (arrays s)(contentP s := blit (\<lambda>_. zero) ?xs ?h (?h + ?m)),
            lengthA := lengthA s - ?m, headA := ?h + ?m, out := out s @ window ?xs ?h (?h + ?m)\<rparr>"
    have "0 < lengthA s" using rep'(5) len False by simp
    moreover have "min (unat n) (lengthA s) \<le> length (arrays s (contentP s))"
      using rep'(1,5) len cur(2) by (simp add: length_rb_list)
    ultimately obtain k where "rb_run zero (Call (unat n) # replicate k Consume) s = Some ?s'"
      using solo_popn [OF rep'(9,7,8) un(1), of zero] rep'(1,3,5) len by auto
    moreover have "?h + ?m = min ?t (?h + unat n)" using cur(1) by (auto simp: length_rb_list)
    then have "window ?xs ?h (?h + ?m) = take (nat (sint n)) (rb_list rb)"
      by (simp add: rb_list_def take_window un)
    moreover have "unat (rlength rb') = lengthA s - ?m"
      using unat_rlength [OF rb'(2)] rb'(3) len rep' un by simp
    then have "represents rb' ?s'" using rep' rb'(4-6) by (simp add: represents_def)
    ultimately show ?thesis using rb'(1) by (intro exI conjI) (assumption | simp)+
  qed
qed

lemma pop_agrees:
  assumes inv: "rb_inv zero rb" and rep: "represents rb s" and ne: "rb_list rb \<noteq> []"
  shows "\<exists>rb' item k s'. Pop zero rb = Return ((item, True), rb') \<and> rb_run zero (Call 1 # replicate k Consume) s = Some s' \<and>
    represents rb' s' \<and> hist s' = hist s \<and> out s' = out s @ [item]"
proof -
  let ?xs = "items (content rb)" and ?h = "unat (head rb)" and ?t = "unat (tail rb)"
  have rep': "arrays s (contentP s) = ?xs" "contentP s < fresh s" "headA s = ?h" "tailA s = ?t" "lengthA s = unat (rlength rb)"
    "muL s = None" "\<not> growingF s" "\<not> poppingF s" "cpc s = CIdle" "\<forall>p. ppc s p = PIdle"
    using rep by (simp_all add: represents_def)
  have len: "unat (rlength rb) = length (rb_list rb)" by (rule unat_rlength [OF inv])
  have lt: "?h < ?t" using ne by (cases "?h < ?t") (auto simp: rb_list_def)
  have fits: "?t - ?h \<le> length ?xs" using inv by (auto simp: rb_inv_def ring_ok_def)
  obtain rb' where rb': "Pop zero rb = Return ((hd (rb_list rb), True), rb')" "rb_inv zero rb'" "rb_list rb' = tl (rb_list rb)"
    "tail rb' = tail rb" "unat (head rb') = Suc ?h" "items (content rb') = ?xs[?h mod length ?xs := zero]"
    using Pop_spec [OF inv ne] .
  have "0 < lengthA s" "min 1 (lengthA s) \<le> length (arrays s (contentP s))" and one: "min 1 (lengthA s) = 1"
    using rep'(1,5) len ne lt fits by (auto simp: Suc_le_eq)
  then obtain k where run: "rb_run zero (Call 1 # replicate k Consume) s =
      Some (s\<lparr>arrays := (arrays s)(contentP s := ?xs[?h mod length ?xs := zero]), lengthA := lengthA s - 1, headA := Suc ?h,
        out := out s @ window ?xs ?h (Suc ?h)\<rparr>)"
    using solo_popn [OF rep'(9,7,8) zero_less_one, of zero] rep'(1,3) by (auto simp: blit_Suc)
  have "window ?xs ?h (Suc ?h) = [hd (rb_list rb)]" using lt by (simp add: rb_list_def window_def hd_map)
  moreover have "unat (rlength rb') = lengthA s - 1" using unat_rlength [OF rb'(2)] rb'(3) rep'(5) len by simp
  ultimately show ?thesis using run rb'(1,4-6) rep'
    by (intro exI [of _ rb'] exI [of _ "hd (rb_list rb)"] exI [of _ k]) (auto simp: represents_def)
qed

lemma represents_new:
  assumes "New zero sz = Return rb"
  shows "represents rb (rb_init zero (length (items (content rb)))) \<and> rb_inv zero rb"
proof -
  obtain rb' where new: "New zero sz = Return rb'" "rb_inv zero rb'" using New_spec [of zero sz] by metis
  have "head rb = 0" "tail rb = 0" "rlength rb = 0" "items (content rb) = replicate (length (items (content rb))) zero"
    using assms by (auto simp: New_def make_slice_def Let_def split: if_splits)
  then show ?thesis using new assms by (simp add: represents_def rb_init_def)
qed


text \<open>
  C22. The two models of the ring buffer agree. Where the machine of atomic accesses represents the
  sequential buffer, a goroutine that runs through \<open>Push\<close> alone, growing the array if it is
  full, ends in a state that represents the result of the sequential \<open>Push\<close>; and the consumer that runs
  through \<open>PopN\<close> alone hands out the batch that the sequential \<open>PopN\<close> returns, and leaves what it
  leaves; \<open>Pop\<close> is the same with one item. So the masked 64-bit arithmetic of the one computes the slots of the other.
\<close>
theorem ring_models_agree:
  assumes "rb_inv zero rb" and "represents rb s"
  shows "(rb_room 1 rb \<longrightarrow> (\<exists>rb' k s'. Push zero x rb = Return (True, rb') \<and>
      rb_run zero (Lock p x # replicate k (Produce p)) s = Some s' \<and>
      represents rb' s' \<and> hist s' = hist s @ [x] \<and> out s' = out s)) \<and>
    (0 < sint n \<longrightarrow> (\<exists>rb' batch ok k s'. PopN zero n rb = Return ((batch, ok), rb') \<and>
      rb_run zero (Call (unat n) # replicate k Consume) s = Some s' \<and>
      represents rb' s' \<and> hist s' = hist s \<and> out s' = out s @ batch)) \<and>
    (rb_list rb \<noteq> [] \<longrightarrow> (\<exists>rb' item k s'. Pop zero rb = Return ((item, True), rb') \<and>
      rb_run zero (Call 1 # replicate k Consume) s = Some s' \<and>
      represents rb' s' \<and> hist s' = hist s \<and> out s' = out s @ [item]))"
  using push_agrees [OF assms] popn_agrees [OF assms] pop_agrees [OF assms] by simp

theorem ring_models_agree_witness:
  "\<exists>rb' k s'. Push 0 7 rb_two = Return (True, rb') \<and>
      rb_run 0 (Lock 3 7 # replicate k (Produce 3)) (rb_init 0 2) = Some s' \<and>
      represents rb' s' \<and> hist s' = [7] \<and> out s' = []"
proof -
  have "represents rb_two (rb_init 0 2)" using represents_new [OF New_two] by (simp add: rb_two_def numeral_2_eq_2)
  then show ?thesis
    using ring_models_agree [OF rb_two_ok(1), of "rb_init 0 2" 7 3 1] rb_two_ok(3) [of 1] by (simp add: rb_init_def)
qed

end
