(* ===== verification/Inbox.thy ===== *)
theory Inbox
  imports RingBuffer
begin

text \<open>
  \<^verbatim>\<open>src/actor/inbox.go\<close>: the mailbox of an actor and its single-consumer scheduler. The
  atomic accesses of \<open>Send\<close>, \<open>Stop\<close>, \<open>schedule\<close>, \<open>process\<close> and \<open>run\<close> are functions on an
  \<open>Inbox\<close> record whose queue type is a parameter, so the same code runs over the ring
  buffer and over the plain list that specifies it (the engine model uses the latter).
  The relation \<open>inbox_step\<close> interleaves any number of senders, processor goroutines and
  callers of \<open>Stop\<close>.

  A push, a batch pop and \<open>Len\<close> are one step each. \<open>Inbox_Conc\<close> interleaves the accesses inside them too, and
  \<open>Inbox_Atomic\<close> shows what that changes: \<open>Len\<close> may be too large while a batch is being drained. The proofs
  here are in the context of the locale \<open>fifo_queue\<close>
  and are instantiated for the ring buffer.
\<close>

section \<open>Data\<close>

definition defaultThroughput :: int64 where "defaultThroughput = 300"

datatype proc_status = StateIdle | StateRunning | StateStopped

record 'q Inbox =
  rb :: 'q
  proc :: "nat option"
  throughput :: int64
  procStatus :: proc_status

section \<open>Operations\<close>

definition NewInbox :: "(int64 \<Rightarrow> 'q outcome) \<Rightarrow> int64 \<Rightarrow> 'q Inbox outcome" where
  "NewInbox new sz =
     obind (new sz) (\<lambda>q.
     Return \<lparr>rb = q, proc = None, throughput = defaultThroughput, procStatus = StateIdle\<rparr>)"

definition Inbox_Start :: "nat \<Rightarrow> 'q Inbox \<Rightarrow> 'q Inbox" where
  "Inbox_Start p ib = ib\<lparr>proc := Some p\<rparr>"

definition Inbox_Stop :: "'q Inbox \<Rightarrow> 'q Inbox" where
  "Inbox_Stop ib = ib\<lparr>procStatus := StateStopped\<rparr>"

text \<open>\<open>atomic.CompareAndSwapInt32(&in.procStatus, old, new)\<close>.\<close>

definition cas_status :: "proc_status \<Rightarrow> proc_status \<Rightarrow> 'q Inbox \<Rightarrow> bool \<times> 'q Inbox" where
  "cas_status old new ib =
     (if procStatus ib = old then (True, ib\<lparr>procStatus := new\<rparr>) else (False, ib))"

text \<open>\<open>schedule\<close>: the result says whether a processor goroutine is started.\<close>

definition schedule :: "'q Inbox \<Rightarrow> bool \<times> 'q Inbox" where
  "schedule ib = cas_status StateIdle StateRunning ib"

text \<open>\<open>Send\<close> is the push below followed by \<open>schedule\<close>.\<close>

definition Inbox_push :: "('e \<Rightarrow> 'q \<Rightarrow> (bool \<times> 'q) outcome) \<Rightarrow> 'e \<Rightarrow> 'q Inbox \<Rightarrow> 'q Inbox outcome" where
  "Inbox_push push e ib = obind (push e (rb ib)) (\<lambda>(_, q). Return (ib\<lparr>rb := q\<rparr>))"

text \<open>
  Where a processor goroutine is: in \<open>run\<close> before the status load, before \<open>PopN\<close>, or inside
  \<open>Invoke\<close>; in \<open>process\<close> before the park CAS, the re-check, or the reclaim CAS; or gone.
\<close>

datatype 'e processor_pc =
    RunTop
  | RunPop
  | RunInvoke "'e list"
  | ParkCAS
  | Recheck
  | Reclaim
  | Exited

fun run_next :: "(int64 \<Rightarrow> 'q \<Rightarrow> (('e list \<times> bool) \<times> 'q) outcome) \<Rightarrow> 'q Inbox
    \<Rightarrow> 'e processor_pc \<Rightarrow> ('q Inbox \<times> 'e processor_pc) outcome" where
  "run_next popn ib RunTop =
     Return (ib, if procStatus ib = StateStopped then ParkCAS else RunPop)"
| "run_next popn ib RunPop =
     obind (popn (throughput ib) (rb ib)) (\<lambda>((batch, ok), q).
     Return (ib\<lparr>rb := q\<rparr>, if ok then RunInvoke batch else ParkCAS))"
| "run_next popn ib (RunInvoke batch) = Return (ib, RunTop)"
| "run_next popn ib pc = Return (ib, pc)"

fun process_next :: "(int64 \<Rightarrow> 'q \<Rightarrow> (('e list \<times> bool) \<times> 'q) outcome) \<Rightarrow> ('q \<Rightarrow> int64) \<Rightarrow> 'q Inbox
    \<Rightarrow> 'e processor_pc \<Rightarrow> ('q Inbox \<times> 'e processor_pc) outcome" where
  "process_next popn qlen ib ParkCAS =
     (let (swapped, ib) = cas_status StateRunning StateIdle ib in
      Return (ib, if swapped then Recheck else Exited))"
| "process_next popn qlen ib Recheck =
     Return (ib, if qlen (rb ib) = 0 then Exited else Reclaim)"
| "process_next popn qlen ib Reclaim =
     (let (swapped, ib) = cas_status StateIdle StateRunning ib in
      Return (ib, if swapped then RunTop else Exited))"
| "process_next popn qlen ib Exited = Block"
| "process_next popn qlen ib pc = run_next popn ib pc"

section \<open>Interleavings\<close>

text \<open>
  \<open>pushed i\<close> says that sender \<open>i\<close> has pushed and not yet called \<open>schedule\<close>. The ghost
  fields record what was pushed and what was handed to \<open>Invoke\<close>, in order.
\<close>

record ('q, 'e) inbox_sys =
  ibox :: "'q Inbox"
  pushed :: "nat \<Rightarrow> bool"
  processors :: "nat \<Rightarrow> 'e processor_pc"
  sentH :: "'e list"
  invokedH :: "'e list"

fun batch_of :: "'e processor_pc \<Rightarrow> 'e processor_pc \<Rightarrow> 'e list" where
  "batch_of RunPop (RunInvoke batch) = batch"
| "batch_of _ _ = []"

text \<open>
  \<open>inbox_work\<close> is the work already under way: a sender between its push and \<open>schedule\<close>, and the
  processor goroutines. \<open>inbox_step\<close> adds what comes from outside, new sends and \<open>Stop\<close>.
\<close>

inductive inbox_work :: "(int64 \<Rightarrow> 'q \<Rightarrow> (('e list \<times> bool) \<times> 'q) outcome) \<Rightarrow> ('q \<Rightarrow> int64)
    \<Rightarrow> ('q, 'e) inbox_sys \<Rightarrow> ('q, 'e) inbox_sys \<Rightarrow> bool"
  for popn qlen where
  send_start: "pushed s i \<Longrightarrow> schedule (ibox s) = (True, ib) \<Longrightarrow> processors s g = Exited \<Longrightarrow>
     inbox_work popn qlen s
       (s\<lparr>ibox := ib, pushed := (pushed s)(i := False), processors := (processors s)(g := RunTop)\<rparr>)"
| send_skip: "pushed s i \<Longrightarrow> schedule (ibox s) = (False, ib) \<Longrightarrow>
     inbox_work popn qlen s (s\<lparr>ibox := ib, pushed := (pushed s)(i := False)\<rparr>)"
| processor: "process_next popn qlen (ibox s) (processors s g) = Return (ib, pc) \<Longrightarrow>
     inbox_work popn qlen s
       (s\<lparr>ibox := ib, processors := (processors s)(g := pc),
         invokedH := invokedH s @ batch_of (processors s g) pc\<rparr>)"

inductive inbox_step :: "('e \<Rightarrow> 'q \<Rightarrow> (bool \<times> 'q) outcome)
    \<Rightarrow> (int64 \<Rightarrow> 'q \<Rightarrow> (('e list \<times> bool) \<times> 'q) outcome) \<Rightarrow> ('q \<Rightarrow> int64) \<Rightarrow> (nat \<Rightarrow> 'q \<Rightarrow> bool)
    \<Rightarrow> ('q, 'e) inbox_sys \<Rightarrow> ('q, 'e) inbox_sys \<Rightarrow> bool"
  for push popn qlen room where
  work: "inbox_work popn qlen s s' \<Longrightarrow> inbox_step push popn qlen room s s'"
| send_push: "\<not> pushed s i \<Longrightarrow> room (Suc 0) (rb (ibox s)) \<Longrightarrow>
     Inbox_push push e (ibox s) = Return ib \<Longrightarrow>
     inbox_step push popn qlen room s
       (s\<lparr>ibox := ib, pushed := (pushed s)(i := True), sentH := sentH s @ [e]\<rparr>)"
| stop: "inbox_step push popn qlen room s (s\<lparr>ibox := Inbox_Stop (ibox s)\<rparr>)"

definition inbox_init :: "'q Inbox \<Rightarrow> ('q, 'e) inbox_sys" where
  "inbox_init ib = \<lparr>ibox = ib, pushed = (\<lambda>_. False), processors = (\<lambda>_. Exited), sentH = [], invokedH = []\<rparr>"

text \<open>A processor owns the inbox while it is in \<open>run\<close> or about to park.\<close>

fun owner :: "'e processor_pc \<Rightarrow> bool" where
  "owner RunTop = True"
| "owner RunPop = True"
| "owner (RunInvoke b) = True"
| "owner ParkCAS = True"
| "owner _ = False"

fun rechecking :: "'e processor_pc \<Rightarrow> bool" where
  "rechecking Recheck = True"
| "rechecking Reclaim = True"
| "rechecking _ = False"

definition owners :: "('q, 'e) inbox_sys \<Rightarrow> nat set" where
  "owners s = {g. owner (processors s g)}"

text \<open>
  \<open>inbox_inv\<close>, for the queue's abstraction \<open>queue\<close> and its invariant \<open>ok\<close>: a running inbox has
  an owner and an idle one has none; a message in an idle inbox is about to be noticed by a
  sender or a re-checking processor; what was pushed is what was handed over followed by
  what is queued; and the batch in \<open>Invoke\<close> is the last thing handed over.
\<close>

definition one_owner :: "('q, 'e) inbox_sys \<Rightarrow> bool" where
  "one_owner s \<longleftrightarrow>
     (\<forall>g h. owner (processors s g) \<longrightarrow> owner (processors s h) \<longrightarrow> g = h) \<and>
     (procStatus (ibox s) = StateIdle \<longrightarrow> (\<forall>g. \<not> owner (processors s g))) \<and>
     (procStatus (ibox s) = StateRunning \<longrightarrow> (\<exists>g. owner (processors s g)))"

definition wake_pending :: "('q \<Rightarrow> 'e list) \<Rightarrow> ('q, 'e) inbox_sys \<Rightarrow> bool" where
  "wake_pending queue s \<longleftrightarrow>
     procStatus (ibox s) = StateIdle \<longrightarrow> queue (rb (ibox s)) \<noteq> [] \<longrightarrow>
     (\<exists>i. pushed s i) \<or> (\<exists>g. rechecking (processors s g))"

definition batches_ok :: "('q, 'e) inbox_sys \<Rightarrow> bool" where
  "batches_ok s \<longleftrightarrow> (\<forall>g b. processors s g = RunInvoke b \<longrightarrow>
     b \<noteq> [] \<and> length b \<le> nat (sint (throughput (ibox s))) \<and> (\<exists>p. invokedH s = p @ b))"

definition inbox_inv :: "('q \<Rightarrow> bool) \<Rightarrow> ('q \<Rightarrow> 'e list) \<Rightarrow> ('q, 'e) inbox_sys \<Rightarrow> bool" where
  "inbox_inv ok queue s \<longleftrightarrow>
     ok (rb (ibox s)) \<and> 0 < sint (throughput (ibox s)) \<and>
     finite {i. pushed s i} \<and> finite {g. processors s g \<noteq> Exited} \<and>
     sentH s = invokedH s @ queue (rb (ibox s)) \<and>
     one_owner s \<and> wake_pending queue s \<and> batches_ok s"

inductive_cases inbox_workE: "inbox_work popn qlen s s'"
inductive_cases inbox_stepE: "inbox_step push popn qlen room s s'"

lemma cas_status_simps [simp]:
  "procStatus ib = old \<Longrightarrow> cas_status old new ib = (True, ib\<lparr>procStatus := new\<rparr>)"
  "procStatus ib \<noteq> old \<Longrightarrow> cas_status old new ib = (False, ib)"
  by (auto simp: cas_status_def)

lemma inbox_init_inv:
  assumes "ok (rb ib)" "queue (rb ib) = []" "procStatus ib = StateIdle" "0 < sint (throughput ib)"
  shows "inbox_inv ok queue (inbox_init ib)"
  using assms
  by (auto simp: inbox_inv_def inbox_init_def one_owner_def wake_pending_def batches_ok_def)

text \<open>The parts of the invariant under an update of one processor.\<close>

lemma not_owner_simps [simp]:
  "\<not> owner Exited" "\<not> owner Recheck" "\<not> owner Reclaim"
  by auto

text \<open>
  A measure of the work left: senders that still have to call \<open>schedule\<close>, queued messages, and
  how far each processor is from exiting, in a stopped inbox, an empty one, or one with
  messages.
\<close>

fun pc_weight :: "bool \<Rightarrow> bool \<Rightarrow> 'e processor_pc \<Rightarrow> nat" where
  "pc_weight st em Exited = 0"
| "pc_weight st em (RunInvoke b) = (if st then 4 else if em then 5 else 10)"
| "pc_weight st em RunTop = (if st then 3 else if em then 4 else 9)"
| "pc_weight st em RunPop = (if st then 3 else if em then 3 else 8)"
| "pc_weight st em ParkCAS = (if st then 2 else if em then 2 else 12)"
| "pc_weight st em Recheck = (if st then 2 else if em then 1 else 11)"
| "pc_weight st em Reclaim = (if st then 1 else if em then 5 else 10)"

definition work_left :: "('q \<Rightarrow> 'e list) \<Rightarrow> ('q, 'e) inbox_sys \<Rightarrow> nat \<times> nat \<times> nat" where
  "work_left queue s =
     (card {i. pushed s i}, length (queue (rb (ibox s))),
      \<Sum>g | processors s g \<noteq> Exited.
        pc_weight (procStatus (ibox s) = StateStopped) (queue (rb (ibox s)) = []) (processors s g))"

context fifo_queue
begin

abbreviation "inbox_ok \<equiv> inbox_inv ok queue"

lemma schedule_preserves:
  assumes "inbox_ok s" "pushed s i" "schedule (ibox s) = (True, ib)" "processors s g = Exited"
  shows "inbox_ok (s\<lparr>ibox := ib, pushed := (pushed s)(i := False), processors := (processors s)(g := RunTop)\<rparr>)"
proof -
  have "procStatus (ibox s) = StateIdle" "ib = (ibox s)\<lparr>procStatus := StateRunning\<rparr>"
    using assms(3) by (auto simp: schedule_def cas_status_def split: if_splits)
  with assms(1,4) show ?thesis
    using finite_update_pred [of "processors s" Exited g RunTop] finite_update_bool [of "pushed s" i False]
    by (auto simp: inbox_inv_def one_owner_def wake_pending_def batches_ok_def)
qed

lemma skip_preserves:
  assumes "inbox_ok s" "pushed s i" "schedule (ibox s) = (False, ib)"
  shows "inbox_ok (s\<lparr>ibox := ib, pushed := (pushed s)(i := False)\<rparr>)"
proof -
  have "procStatus (ibox s) \<noteq> StateIdle" "ib = ibox s"
    using assms(3) by (auto simp: schedule_def cas_status_def split: if_splits)
  with assms(1) show ?thesis
    using finite_update_bool [of "pushed s" i False]
    by (auto simp: inbox_inv_def one_owner_def wake_pending_def batches_ok_def)
qed

lemma stop_preserves: "inbox_ok s \<Longrightarrow> inbox_ok (s\<lparr>ibox := Inbox_Stop (ibox s)\<rparr>)"
  by (auto simp: inbox_inv_def Inbox_Stop_def one_owner_def wake_pending_def batches_ok_def)

lemma push_preserves:
  assumes "inbox_ok s" "room (Suc 0) (rb (ibox s))" "Inbox_push push e (ibox s) = Return ib"
  shows "inbox_ok (s\<lparr>ibox := ib, pushed := (pushed s)(i := True), sentH := sentH s @ [e]\<rparr>)"
proof -
  obtain q where "ok q" "queue q = queue (rb (ibox s)) @ [e]" "ib = (ibox s)\<lparr>rb := q\<rparr>"
    using push_ok [of "rb (ibox s)" 0 e] assms by (auto simp: inbox_inv_def Inbox_push_def)
  with assms(1) show ?thesis
    using finite_update_bool [of "pushed s" i True]
    by (auto simp: inbox_inv_def one_owner_def wake_pending_def batches_ok_def)
qed

text \<open>The step of a processor, by program counter.\<close>

lemma popn_cases:
  assumes "ok q" "0 < sint n"
  obtains "queue q = []" "popn n q = Return (([], False), q)"
  | q' where "queue q \<noteq> []" "popn n q = Return ((take (nat (sint n)) (queue q), True), q')" "ok q'"
      "queue q' = drop (nat (sint n)) (queue q)"
  using assms popn_ok [of q n] popn_empty [of q n] by (cases "queue q = []") auto

lemma processor_preserves:
  assumes inv: "inbox_ok s" and step: "process_next popn qlen (ibox s) (processors s g) = Return (ib, pc)"
  shows "inbox_ok (s\<lparr>ibox := ib, processors := (processors s)(g := pc),
         invokedH := invokedH s @ batch_of (processors s g) pc\<rparr>)"
proof -
  note fin = finite_update_pred [of "processors s" Exited g]
  note defs = inbox_inv_def one_owner_def wake_pending_def batches_ok_def
  have okq: "ok (rb (ibox s))" and pos: "0 < sint (throughput (ibox s))"
    using inv by (auto simp: inbox_inv_def)
  have own: "owner (processors s g) \<Longrightarrow> procStatus (ibox s) \<noteq> StateIdle \<and>
      (\<forall>h. owner (processors s h) \<longrightarrow> h = g) \<and> (\<forall>h b. processors s h = RunInvoke b \<longrightarrow> h = g)"
    using inv unfolding inbox_inv_def one_owner_def by (metis owner.simps(3))
  have other: "\<not> owner (processors s g) \<Longrightarrow> procStatus (ibox s) = StateRunning \<Longrightarrow>
      \<exists>h. h \<noteq> g \<and> owner (processors s h)"
    using inv unfolding inbox_inv_def one_owner_def by metis
  show ?thesis
  proof (cases "processors s g")
    case RunPop
    show ?thesis
    proof (rule popn_cases [OF okq pos])
      assume "queue (rb (ibox s)) = []" "popn (throughput (ibox s)) (rb (ibox s)) = Return (([], False), rb (ibox s))"
      with RunPop inv step own show ?thesis using fin
        by (auto simp: defs)
    next
      fix q' assume q': "queue (rb (ibox s)) \<noteq> []" "ok q'"
        "popn (throughput (ibox s)) (rb (ibox s)) =
           Return ((take (nat (sint (throughput (ibox s)))) (queue (rb (ibox s))), True), q')"
        "queue q' = drop (nat (sint (throughput (ibox s)))) (queue (rb (ibox s)))"
      with RunPop inv step own pos show ?thesis using fin
        by (auto simp: defs)
    qed
  next
    case Recheck
    with inv step fin other show ?thesis
      by (cases "procStatus (ibox s)") (auto simp: defs qlen_zero split: if_splits)
  next
    case Reclaim
    with inv step fin other show ?thesis
      by (cases "procStatus (ibox s)") (auto simp: defs split: if_splits)
  qed (use inv step fin own in \<open>auto simp: defs cas_status_def split: if_splits\<close>)
qed

lemma work_preserves: "inbox_work popn qlen s s' \<Longrightarrow> inbox_ok s \<Longrightarrow> inbox_ok s'"
  by (erule inbox_workE) (auto intro: schedule_preserves skip_preserves processor_preserves)

lemma step_preserves: "inbox_step push popn qlen room s s' \<Longrightarrow> inbox_ok s \<Longrightarrow> inbox_ok s'"
  by (erule inbox_stepE) (auto intro: work_preserves stop_preserves push_preserves)

lemma reach_inv:
  "(inbox_step push popn qlen room)\<^sup>*\<^sup>* s s' \<Longrightarrow> inbox_ok s \<Longrightarrow> inbox_ok s'"
  by (induction rule: rtranclp_induct) (auto intro: step_preserves)

text \<open>A processor that has not exited can take a step.\<close>

lemma processor_enabled:
  assumes "inbox_ok s" "processors s g \<noteq> Exited"
  shows "\<exists>s'. inbox_work popn qlen s s'"
proof -
  have "\<exists>r. process_next popn qlen (ibox s) (processors s g) = Return r"
  proof (cases "processors s g")
    case RunPop
    have "\<exists>b q. popn (throughput (ibox s)) (rb (ibox s)) = Return (b, q)"
      using assms(1) by (auto simp: inbox_inv_def intro: popn_cases)
    with RunPop show ?thesis by (auto simp: split: prod.splits)
  qed (use assms(2) in \<open>auto simp: Let_def split: prod.splits\<close>)
  then show ?thesis by (auto intro: inbox_work.processor)
qed

lemma work_enabled:
  assumes inv: "inbox_ok s" and "procStatus (ibox s) \<noteq> StateStopped" "queue (rb (ibox s)) \<noteq> []"
  shows "\<exists>s'. inbox_work popn qlen s s'"
proof (cases "procStatus (ibox s)")
  case StateRunning
  then obtain g where "owner (processors s g)" using inv by (auto simp: inbox_inv_def one_owner_def)
  then show ?thesis using processor_enabled [OF inv, of g] by (cases "processors s g") auto
next
  case StateIdle
  then consider i where "pushed s i" | g where "rechecking (processors s g)"
    using inv assms(3) by (auto simp: inbox_inv_def wake_pending_def)
  then show ?thesis
  proof cases
    case 1
    have "infinite {g. processors s g = Exited}"
      using inv infinite_UNIV_nat finite_Collect_not by (auto simp: inbox_inv_def)
    then obtain g where "processors s g = Exited" by (metis (mono_tags) finite.emptyI empty_Collect_eq)
    with 1 StateIdle show ?thesis
      using inbox_work.send_start [of s i _ g] by (auto simp: schedule_def)
  next
    case 2
    then show ?thesis using processor_enabled [OF inv, of g] by (cases "processors s g") auto
  qed
qed (use assms in simp)

lemma processor_weight:
  assumes inv: "inbox_ok s" and step: "process_next popn qlen (ibox s) (processors s g) = Return (ib, pc)"
  shows "length (queue (rb ib)) < length (queue (rb (ibox s))) \<or>
    queue (rb ib) = queue (rb (ibox s)) \<and>
    (procStatus ib = StateStopped \<longleftrightarrow> procStatus (ibox s) = StateStopped) \<and>
    (\<forall>em. em = (queue (rb ib) = []) \<longrightarrow>
      pc_weight (procStatus ib = StateStopped) em pc < pc_weight (procStatus ib = StateStopped) em (processors s g))"
proof (cases "processors s g")
  case RunPop
  have "ok (rb (ibox s))" and pos: "0 < sint (throughput (ibox s))"
    using inv by (auto simp: inbox_inv_def)
  then show ?thesis
    by (cases rule: popn_cases) (use RunPop step pos in \<open>auto simp: not_le intro!: diff_less\<close>)
qed (use inv step in \<open>auto simp: cas_status_def inbox_inv_def qlen_zero split: if_splits\<close>)

lemma work_decreases:
  assumes inv: "inbox_ok s" and "inbox_work popn qlen s s'"
  shows "(work_left queue s', work_left queue s) \<in> less_than <*lex*> less_than <*lex*> less_than"
  using assms(2)
proof (cases rule: inbox_work.cases)
  case (processor g ib pc)
  then show ?thesis
    using processor_weight [OF inv processor(2)]
      sum_update_decreases [of "processors s" Exited "pc_weight (procStatus ib = StateStopped) (queue (rb ib) = [])" pc g] inv
    by (auto simp: work_left_def inbox_inv_def simp del: fun_upd_apply)
qed (use inv in \<open>auto simp: work_left_def inbox_inv_def card_update_False simp del: fun_upd_apply\<close>)

lemma work_terminates:
  assumes inv: "inbox_ok (f 0)" and run: "\<And>n. inbox_work popn qlen (f n) (f (Suc n))"
  shows False
proof -
  let ?r = "less_than <*lex*> less_than <*lex*> less_than :: ((nat \<times> nat \<times> nat) \<times> (nat \<times> nat \<times> nat)) set"
  have inv_n: "inbox_ok (f n)" for n
    by (induction n) (auto intro: inv work_preserves run)
  have "\<forall>n. (work_left queue (f (Suc n)), work_left queue (f n)) \<in> ?r"
    by (auto intro: work_decreases inv_n run simp del: in_lex_prod)
  moreover have "wf ?r" by auto
  ultimately show False
    unfolding wf_iff_no_infinite_down_chain
    by (elim notE) (rule exI [of _ "\<lambda>n. work_left queue (f n)"], simp del: in_lex_prod)
qed

text \<open>
  After \<open>Stop\<close> nothing is popped except by a processor that had already passed the status check.
\<close>

definition no_pop_pending :: "('q, 'a) inbox_sys \<Rightarrow> bool" where
  "no_pop_pending s \<longleftrightarrow> (\<forall>g. processors s g \<noteq> RunPop)"

lemma processor_stopped:
  assumes inv: "inbox_ok s" and step: "process_next popn qlen (ibox s) pc0 = Return (ib, pc)"
    and stopped: "procStatus (ibox s) = StateStopped"
  shows "procStatus ib = StateStopped \<and> throughput ib = throughput (ibox s) \<and> pc \<noteq> RunPop \<and>
    length (batch_of pc0 pc) \<le> nat (sint (throughput (ibox s))) \<and> (pc0 \<noteq> RunPop \<longrightarrow> batch_of pc0 pc = [])"
proof (cases pc0)
  case RunPop
  have "ok (rb (ibox s))" "0 < sint (throughput (ibox s))"
    using inv by (auto simp: inbox_inv_def)
  then show ?thesis by (cases rule: popn_cases) (use step RunPop stopped in auto)
qed (use step stopped in \<open>auto split: if_splits\<close>)

lemma work_stopped:
  assumes inv: "inbox_ok s" and "inbox_work popn qlen s s'" and stopped: "procStatus (ibox s) = StateStopped"
  shows "procStatus (ibox s') = StateStopped \<and> throughput (ibox s') = throughput (ibox s) \<and>
    (no_pop_pending s' \<and> (\<exists>b. invokedH s' = invokedH s @ b \<and> length b \<le> nat (sint (throughput (ibox s))) \<and>
       (no_pop_pending s \<longrightarrow> b = [])) \<or> \<not> no_pop_pending s \<and> invokedH s' = invokedH s)"
  using assms(2)
proof (cases rule: inbox_work.cases)
  case (processor g ib pc)
  note * = processor_stopped [OF inv processor(2) stopped]
  show ?thesis
  proof (cases "processors s g = RunPop")
    case True
    then have unique: "processors s h = RunPop \<longrightarrow> h = g" for h
      using inv unfolding inbox_inv_def one_owner_def by (metis owner.simps(2))
    have "no_pop_pending s'"
      using * unique by (auto simp: processor(1) no_pop_pending_def)
    moreover have "\<not> no_pop_pending s" using True by (auto simp: no_pop_pending_def)
    ultimately
    show ?thesis using * processor(1) by simp
  next
    case False
    with * processor(1) have "no_pop_pending s' \<longleftrightarrow> no_pop_pending s" "invokedH s' = invokedH s"
      by (auto simp: no_pop_pending_def)
    then show ?thesis using * processor(1) by simp
  qed
qed (use stopped in \<open>auto simp: schedule_def cas_status_def no_pop_pending_def split: if_splits\<close>)

lemma step_stopped:
  assumes inv: "inbox_ok s" and step: "inbox_step push popn qlen room s s'"
    and stopped: "procStatus (ibox s) = StateStopped"
  shows "procStatus (ibox s') = StateStopped \<and> throughput (ibox s') = throughput (ibox s) \<and>
    (no_pop_pending s' \<and> (\<exists>b. invokedH s' = invokedH s @ b \<and> length b \<le> nat (sint (throughput (ibox s))) \<and>
       (no_pop_pending s \<longrightarrow> b = [])) \<or> \<not> no_pop_pending s \<and> invokedH s' = invokedH s)"
  using step
proof (cases rule: inbox_step.cases)
  case work
  then show ?thesis using work_stopped inv stopped by blast
qed (use stopped in \<open>auto simp: no_pop_pending_def Inbox_push_def Inbox_Stop_def outcome_simps\<close>)

lemma stop_final:
  assumes "(inbox_step push popn qlen room)\<^sup>*\<^sup>* s s'" "inbox_ok s" "procStatus (ibox s) = StateStopped"
  shows "procStatus (ibox s') = StateStopped \<and> throughput (ibox s') = throughput (ibox s) \<and>
    (invokedH s' = invokedH s \<or> no_pop_pending s' \<and>
      (\<exists>b. invokedH s' = invokedH s @ b \<and> length b \<le> nat (sint (throughput (ibox s)))))"
  using assms
proof (induction rule: rtranclp_induct)
  case (step t u)
  then have "inbox_ok t" using reach_inv by blast
  with step step_stopped [of t u] show ?case by fastforce
qed simp

lemma throughput_step:
  assumes "inbox_step push popn qlen room s s'"
  shows "throughput (ibox s') = throughput (ibox s)"
  using assms
proof (cases rule: inbox_step.cases)
  case work
  then show ?thesis
  proof (cases rule: inbox_work.cases)
    case (processor g ib)
    then show ?thesis
      by (cases "processors s g") (auto simp: cas_status_def outcome_simps split: if_splits)
  qed (auto simp: schedule_def cas_status_def split: if_splits)
qed (auto simp: Inbox_push_def Inbox_Stop_def outcome_simps)

lemma throughput_reach:
  "(inbox_step push popn qlen room)\<^sup>*\<^sup>* s s' \<Longrightarrow> throughput (ibox s') = throughput (ibox s)"
  by (induction rule: rtranclp_induct) (simp_all add: throughput_step)

lemma work_keeps:
  assumes "inbox_work popn qlen s s'"
  shows "sentH s' = sentH s \<and>
    (procStatus (ibox s') = StateStopped \<longleftrightarrow> procStatus (ibox s) = StateStopped)"
  using assms
proof (cases rule: inbox_work.cases)
  case (processor g ib)
  then show ?thesis
    by (cases "processors s g") (auto simp: cas_status_def outcome_simps split: if_splits)
qed (auto simp: schedule_def cas_status_def split: if_splits)

lemma quiescent_delivered:
  assumes "(inbox_work popn qlen)\<^sup>*\<^sup>* s t" "inbox_ok s" "procStatus (ibox s) \<noteq> StateStopped"
    and quiet: "\<not> (\<exists>u. inbox_work popn qlen t u)"
  shows "invokedH t = sentH s \<and> (\<forall>g. processors t g = Exited)"
proof -
  have "inbox_ok t \<and> sentH t = sentH s \<and> procStatus (ibox t) \<noteq> StateStopped"
    using assms(1-3) by (induction rule: rtranclp_induct) (auto dest: work_keeps intro: work_preserves)
  moreover from this quiet have "queue (rb (ibox t)) = []" "\<forall>g. processors t g = Exited"
    using work_enabled processor_enabled by blast+
  ultimately show ?thesis by (auto simp: inbox_inv_def)
qed

end

section \<open>The inbox over the ring buffer\<close>

definition inbox_steps :: "'e \<Rightarrow> ('e RingBuffer, 'e) inbox_sys \<Rightarrow> ('e RingBuffer, 'e) inbox_sys \<Rightarrow> bool" where
  "inbox_steps zero = (inbox_step (Push zero) (PopN zero) Len rb_room)\<^sup>*\<^sup>*"

definition inbox_reach :: "'e \<Rightarrow> int64 \<Rightarrow> ('e RingBuffer, 'e) inbox_sys \<Rightarrow> bool" where
  "inbox_reach zero sz s \<longleftrightarrow>
     (\<exists>ib. NewInbox (New zero) sz = Return ib \<and> inbox_steps zero (inbox_init ib) s)"

text \<open>Schedules: which goroutine takes the next step.\<close>

datatype 'e inbox_event = SendPush nat 'e | SendSchedule nat nat | Processor nat | CallStop

fun inbox_exec :: "'e \<Rightarrow> 'e inbox_event \<Rightarrow> ('e RingBuffer, 'e) inbox_sys
    \<Rightarrow> ('e RingBuffer, 'e) inbox_sys option" where
  "inbox_exec zero (SendPush i e) s =
     (if \<not> pushed s i \<and> rb_room (Suc 0) (rb (ibox s)) then
        map_option (\<lambda>ib. s\<lparr>ibox := ib, pushed := (pushed s)(i := True), sentH := sentH s @ [e]\<rparr>)
          (returned (Inbox_push (Push zero) e (ibox s)))
      else None)"
| "inbox_exec zero (SendSchedule i g) s =
     (if \<not> pushed s i \<or> processors s g \<noteq> Exited then None
      else case schedule (ibox s) of
        (True, ib) \<Rightarrow> Some (s\<lparr>ibox := ib, pushed := (pushed s)(i := False),
           processors := (processors s)(g := RunTop)\<rparr>)
      | (False, ib) \<Rightarrow> Some (s\<lparr>ibox := ib, pushed := (pushed s)(i := False)\<rparr>))"
| "inbox_exec zero (Processor g) s =
     map_option (\<lambda>(ib, pc). s\<lparr>ibox := ib, processors := (processors s)(g := pc),
         invokedH := invokedH s @ batch_of (processors s g) pc\<rparr>)
       (returned (process_next (PopN zero) Len (ibox s) (processors s g)))"
| "inbox_exec zero CallStop s = Some (s\<lparr>ibox := Inbox_Stop (ibox s)\<rparr>)"

fun inbox_run :: "'e \<Rightarrow> 'e inbox_event list \<Rightarrow> ('e RingBuffer, 'e) inbox_sys
    \<Rightarrow> ('e RingBuffer, 'e) inbox_sys option" where
  "inbox_run zero [] s = Some s"
| "inbox_run zero (e # es) s = Option.bind (inbox_exec zero e s) (inbox_run zero es)"

lemma inbox_run_append:
  "inbox_run zero (es @ fs) s = Option.bind (inbox_run zero es s) (inbox_run zero fs)"
  by (induction es arbitrary: s) (auto split: bind_splits)

lemma returned_Some [simp]: "returned m = Some x \<longleftrightarrow> m = Return x"
  by (cases m) auto

lemma inbox_exec_step:
  "inbox_exec zero e s = Some t \<Longrightarrow> inbox_step (Push zero) (PopN zero) Len rb_room s t"
  by (cases e) (auto intro: inbox_step.intros inbox_work.intros split: if_splits prod.splits bool.splits)

lemma inbox_run_steps: "inbox_run zero es s = Some t \<Longrightarrow> inbox_steps zero s t"
proof (induction es arbitrary: s)
  case (Cons e es)
  then obtain u where "inbox_exec zero e s = Some u" "inbox_steps zero u t"
    by (auto simp: bind_eq_Some_conv)
  then show ?case
    unfolding inbox_steps_def by (auto dest: inbox_exec_step intro: converse_rtranclp_into_rtranclp)
qed (simp add: inbox_steps_def)

lemma sint_defaultThroughput [simp]: "sint defaultThroughput = 300"
  by (simp add: defaultThroughput_def)

lemma NewInbox_reach_inv:
  assumes "inbox_reach zero sz s"
  shows "inbox_inv (rb_inv zero) rb_list s" and "throughput (ibox s) = defaultThroughput"
proof -
  obtain q where q: "New zero sz = Return q" "rb_inv zero q" "rb_list q = []"
    using New_spec [of zero sz] by metis
  let ?ib = "\<lparr>rb = q, proc = None, throughput = defaultThroughput, procStatus = StateIdle\<rparr>"
  have init: "inbox_inv (rb_inv zero) rb_list (inbox_init ?ib)"
    using q by (intro inbox_init_inv) auto
  have reach: "inbox_steps zero (inbox_init ?ib) s"
    using assms q by (auto simp: inbox_reach_def NewInbox_def)
  then show "inbox_inv (rb_inv zero) rb_list s"
    unfolding inbox_steps_def by (rule rbq.reach_inv [OF _ init])
  have "throughput (ibox s) = throughput (ibox (inbox_init ?ib :: ('a RingBuffer, 'a) inbox_sys))"
    using reach unfolding inbox_steps_def by (rule rbq.throughput_reach)
  then show "throughput (ibox s) = defaultThroughput" by (simp add: inbox_init_def)
qed

section \<open>Properties\<close>

text \<open>
  Schedules used as witnesses. In \<open>race_run\<close> the second \<open>Send\<close> lands between the processor's
  empty-buffer check and its park CAS, finds the inbox still running and starts nothing; in
  \<open>stop_run\<close> a \<open>Stop\<close> lands between the status check and \<open>PopN\<close>.
\<close>

definition inbox_two :: "(nat RingBuffer, nat) inbox_sys" where
  "inbox_two = inbox_init \<lparr>rb = rb_two, proc = None, throughput = defaultThroughput, procStatus = StateIdle\<rparr>"

definition race_run :: "nat inbox_event list" where
  "race_run =
     [SendPush 0 10, SendSchedule 0 0] @ replicate 5 (Processor 0) @ [SendPush 1 20, SendSchedule 1 1]"

definition race_tail :: "nat inbox_event list" where
  "race_tail = replicate 10 (Processor 0)"

definition stop_run :: "nat inbox_event list" where
  "stop_run = [SendPush 0 10, SendSchedule 0 0, Processor 0, CallStop]"

lemma inbox_two_reach: "inbox_run 0 es inbox_two = Some s \<Longrightarrow> inbox_reach 0 0 s"
  by (auto simp: inbox_reach_def NewInbox_def New_two inbox_two_def intro: inbox_run_steps)

lemma race_run_result:
  "map_option (\<lambda>s. (sentH s, invokedH s, processors s 0, processors s 1, procStatus (ibox s), pushed s 1))
     (inbox_run 0 race_run inbox_two)
   = Some ([10, 20], [10], ParkCAS, Exited, StateRunning, False)"
  by code_simp

lemma race_tail_result:
  "map_option (\<lambda>s. (sentH s, invokedH s, processors s 0, procStatus (ibox s)))
     (inbox_run 0 (race_run @ race_tail) inbox_two)
   = Some ([10, 20], [10, 20], Exited, StateIdle)"
  by code_simp

lemma stop_run_result:
  "map_option (\<lambda>s. (invokedH s, processors s 0, procStatus (ibox s)))
     (inbox_run 0 stop_run inbox_two) = Some ([], RunPop, StateStopped)
   \<and> map_option invokedH (inbox_run 0 (stop_run @ [Processor 0]) inbox_two) = Some [10]"
  by code_simp

lemma race_run_reach:
  obtains s where "inbox_run 0 race_run inbox_two = Some s" "inbox_reach 0 0 s"
    "sentH s = [10, 20]" "invokedH s = [10]" "processors s 0 = ParkCAS" "procStatus (ibox s) = StateRunning"
  using race_run_result inbox_two_reach by auto

text \<open>
  One processor at a time. In every reachable interleaving of sends, processor goroutines
  and \<open>Stop\<close> at most one goroutine is in \<open>run\<close> or about to park; an idle inbox has none and a
  running one has exactly one. So the ring buffer has a single consumer, and \<open>Invoke\<close> never
  runs twice at once.
\<close>
lemma inbox_one_processor:
  assumes "inbox_reach zero sz s"
  shows "(\<forall>g h. owner (processors s g) \<and> owner (processors s h) \<longrightarrow> g = h) \<and>
    (procStatus (ibox s) = StateIdle \<longrightarrow> (\<forall>g. \<not> owner (processors s g))) \<and>
    (procStatus (ibox s) = StateRunning \<longrightarrow> (\<exists>!g. owner (processors s g)))"
proof -
  have "one_owner s" using NewInbox_reach_inv [OF assms] by (simp add: inbox_inv_def)
  then show ?thesis unfolding one_owner_def by blast
qed

lemma inbox_one_processor_witness:
  "\<exists>s. inbox_run 0 race_run inbox_two = Some s \<and> (\<exists>!g. owner (processors s g))"
proof (rule race_run_reach)
  fix s assume s: "inbox_run 0 race_run inbox_two = Some s" "inbox_reach 0 0 s"
    "procStatus (ibox s) = StateRunning"
  then show ?thesis using inbox_one_processor [OF s(2)] by blast
qed

text \<open>
  Order and batch size. What was sent, in the order of the pushes, is what was handed to
  \<open>Invoke\<close> followed by what the ring buffer holds: nothing is lost, duplicated or reordered. A
  batch in \<open>Invoke\<close> is not empty, has at most \<open>defaultThroughput\<close> messages and is the last
  thing taken from the buffer.
\<close>
lemma inbox_fifo:
  assumes "inbox_reach zero sz s"
  shows "sentH s = invokedH s @ rb_list (rb (ibox s)) \<and>
    (\<forall>g b. processors s g = RunInvoke b \<longrightarrow>
       b \<noteq> [] \<and> length b \<le> 300 \<and> (\<exists>earlier. invokedH s = earlier @ b))"
  using NewInbox_reach_inv [OF assms] by (auto simp: inbox_inv_def batches_ok_def)

lemma inbox_fifo_witness:
  "\<exists>s. inbox_run 0 race_run inbox_two = Some s \<and> invokedH s = [10] \<and> rb_list (rb (ibox s)) = [20]"
proof (rule race_run_reach)
  fix s assume s: "inbox_run 0 race_run inbox_two = Some s" "inbox_reach 0 0 s"
    "sentH s = [10, 20]" "invokedH s = [10]"
  then show ?thesis using inbox_fifo [OF s(2)] by auto
qed



text \<open>
  \<open>Stop\<close> is final and bounded: once the status is stopped it stays stopped, whatever is sent
  afterwards, and of the messages still queued at most one batch of \<open>defaultThroughput\<close> is
  handed to \<open>Invoke\<close> after it (the processor that had already passed its status check).
\<close>
lemma inbox_stop_final:
  assumes "inbox_reach zero sz s" and "procStatus (ibox s) = StateStopped" and "inbox_steps zero s t"
  shows "procStatus (ibox t) = StateStopped \<and>
    (\<exists>b. invokedH t = invokedH s @ b \<and> length b \<le> 300)"
  using rbq.stop_final [OF assms(3) [unfolded inbox_steps_def]] NewInbox_reach_inv [OF assms(1)] assms(2)
  by auto

lemma inbox_stop_final_witness:
  "\<exists>s t. inbox_run 0 stop_run inbox_two = Some s \<and> inbox_run 0 [Processor 0] s = Some t \<and>
     procStatus (ibox s) = StateStopped \<and> procStatus (ibox t) = StateStopped \<and> invokedH s = [] \<and> invokedH t = [10]"
proof -
  obtain s where s: "inbox_run 0 stop_run inbox_two = Some s" "procStatus (ibox s) = StateStopped"
    "invokedH s = []" using stop_run_result by auto
  obtain t where t: "inbox_run 0 [Processor 0] s = Some t" "invokedH t = [10]"
    using stop_run_result s by (auto simp: inbox_run_append)
  from inbox_stop_final [OF inbox_two_reach [OF s(1)] s(2) inbox_run_steps [OF t(1)]] s t
  show ?thesis by auto
qed

end
