(* ===== verification/Inbox_Conc.thy ===== *)
theory Inbox_Conc
  imports Inbox RingBuffer_Conc
begin

text \<open>
  The inbox over the ring buffer with both interleaved: \<^verbatim>\<open>src/actor/inbox.go\<close> calling
  \<^verbatim>\<open>src/ringbuffer/ringbuffer.go\<close>, one step per atomic access of either. The machine of \<open>Inbox\<close> takes a
  push, a batch pop and \<open>Len\<close> as one step each; here a \<open>Send\<close> may be anywhere in \<open>Push\<close>, growing the
  array, while a processor is anywhere in \<open>PopN\<close> and another one reads \<open>Len\<close>, which may then count
  items that are already being drained.

  Every goroutine has its own program counter in \<open>PopN\<close>, so nothing in the model keeps two of them apart.
  That there is never more than one is a theorem, and with it every state of the buffer inside an
  inbox is a reachable state of \<open>RingBuffer_Conc\<close>, whose results carry over.
\<close>

section \<open>The machine\<close>

text \<open>A processor goroutine: at a line of \<open>process\<close> or \<open>run\<close>, or inside \<open>PopN\<close>.\<close>

datatype 'e worker_pc = At "'e processor_pc" | InPopN "'e consumer_pc"

text \<open>The inbox only compares \<open>Len()\<close> with 0.\<close>

definition ring_len :: "'e rb_state \<Rightarrow> int64" where
  "ring_len r = (if lengthA r = 0 then 0 else 1)"

definition ring_new :: "'e \<Rightarrow> int64 \<Rightarrow> 'e rb_state outcome" where
  "ring_new zero sz = Return (rb_init zero (nat (sint (roundUpPow2 sz))))"

text \<open>
  \<open>PopN\<close> returns where its program counter becomes \<open>CIdle\<close>: with a batch after \<open>leaveConsumer\<close>, with
  \<open>false\<close> after it has seen an empty buffer.
\<close>

fun popn_return :: "'e consumer_pc \<Rightarrow> 'e consumer_pc \<Rightarrow> 'e worker_pc" where
  "popn_return (CLeave batch) CIdle = At (RunInvoke batch)"
| "popn_return c CIdle = At ParkCAS"
| "popn_return c c' = InPopN c'"

text \<open>
  The step of a processor goroutine. The field \<open>cpc\<close> of the buffer is a copy of the last program counter in
  \<open>PopN\<close>; no step reads it.
\<close>

fun worker_next :: "'e \<Rightarrow> 'e rb_state Inbox \<Rightarrow> 'e worker_pc \<Rightarrow> ('e rb_state Inbox \<times> 'e worker_pc) option" where
  "worker_next zero ib (InPopN c) =
     map_option (\<lambda>(r, c'). (ib\<lparr>rb := r\<lparr>cpc := c'\<rparr>\<rparr>, popn_return c c')) (consumer_next zero (rb ib) c)"
| "worker_next zero ib (At RunPop) =
     (if sint (throughput ib) \<le> 0 then Some (ib, At ParkCAS)
      else let c = CLen (nat (sint (throughput ib))) in Some (ib\<lparr>rb := (rb ib)\<lparr>cpc := c\<rparr>\<rparr>, InPopN c))"
| "worker_next zero ib (At pc) =
     map_option (\<lambda>(ib, pc). (ib, At pc)) (returned (process_next (\<lambda>_ _. Block) ring_len ib pc))"

text \<open>
  \<open>sending p\<close>: goroutine \<open>p\<close> has returned from \<open>Push\<close> and not yet called \<open>schedule\<close>. The ghost field \<open>handed\<close> is what was
  passed to \<open>Invoke\<close>; what was pushed is the ghost field \<open>hist\<close> of the buffer.
\<close>

record 'e mail_sys =
  mbox :: "'e rb_state Inbox"
  sending :: "nat \<Rightarrow> bool"
  workers :: "nat \<Rightarrow> 'e worker_pc"
  handed :: "'e list"

abbreviation ring :: "'e mail_sys \<Rightarrow> 'e rb_state" where
  "ring s \<equiv> rb (mbox s)"

fun handover :: "'e worker_pc \<Rightarrow> 'e worker_pc \<Rightarrow> 'e list" where
  "handover (InPopN c) (At (RunInvoke batch)) = batch"
| "handover _ _ = []"

inductive mail_work :: "'e \<Rightarrow> 'e mail_sys \<Rightarrow> 'e mail_sys \<Rightarrow> bool" for zero where
  in_push: "producer_next zero (ring s) (ppc (ring s) p) = Some (r, pc) \<Longrightarrow>
     mail_work zero s (s\<lparr>mbox := (mbox s)\<lparr>rb := r\<lparr>ppc := (ppc r)(p := pc)\<rparr>\<rparr>, sending := (sending s)(p := (pc = PIdle))\<rparr>)"
| send_start: "sending s p \<Longrightarrow> schedule (mbox s) = (True, ib) \<Longrightarrow> workers s g = At Exited \<Longrightarrow>
     mail_work zero s (s\<lparr>mbox := ib, sending := (sending s)(p := False), workers := (workers s)(g := At RunTop)\<rparr>)"
| send_skip: "sending s p \<Longrightarrow> schedule (mbox s) = (False, ib) \<Longrightarrow>
     mail_work zero s (s\<lparr>mbox := ib, sending := (sending s)(p := False)\<rparr>)"
| worker: "worker_next zero (mbox s) (workers s g) = Some (ib, pc) \<Longrightarrow>
     mail_work zero s (s\<lparr>mbox := ib, workers := (workers s)(g := pc), handed := handed s @ handover (workers s g) pc\<rparr>)"

text \<open>What comes from outside: a \<open>Send\<close> that gets the buffer's lock, and \<open>Stop\<close>.\<close>

inductive mail_step :: "'e \<Rightarrow> 'e mail_sys \<Rightarrow> 'e mail_sys \<Rightarrow> bool" for zero where
  work: "mail_work zero s s' \<Longrightarrow> mail_step zero s s'"
| send_lock: "\<not> sending s p \<Longrightarrow> ppc (ring s) p = PIdle \<Longrightarrow> muL (ring s) = None \<Longrightarrow>
     mail_step zero s (s\<lparr>mbox := (mbox s)\<lparr>rb := (ring s)\<lparr>muL := Some p, ppc := (ppc (ring s))(p := PLocked e)\<rparr>\<rparr>\<rparr>)"
| stop: "mail_step zero s (s\<lparr>mbox := Inbox_Stop (mbox s)\<rparr>)"

definition mail_init :: "'e rb_state Inbox \<Rightarrow> 'e mail_sys" where
  "mail_init ib = \<lparr>mbox = ib, sending = (\<lambda>_. False), workers = (\<lambda>_. At Exited), handed = []\<rparr>"

definition mail_reach :: "'e \<Rightarrow> int64 \<Rightarrow> 'e mail_sys \<Rightarrow> bool" where
  "mail_reach zero sz s \<longleftrightarrow>
     (\<exists>ib. NewInbox (ring_new zero) sz = Return ib \<and> (mail_step zero)\<^sup>*\<^sup>* (mail_init ib) s)"

inductive_cases mail_workE: "mail_work zero s s'"
inductive_cases mail_stepE: "mail_step zero s s'"

section \<open>The invariant\<close>

fun draining :: "'e worker_pc \<Rightarrow> bool" where
  "draining (InPopN c) = True"
| "draining (At pc) = owner pc"

fun looking :: "'e worker_pc \<Rightarrow> bool" where
  "looking (At pc) = rechecking pc"
| "looking (InPopN c) = False"

text \<open>What the consumer inside \<open>PopN\<close> will return at most.\<close>

fun popn_size :: "'e consumer_pc \<Rightarrow> nat" where
  "popn_size CIdle = 0"
| "popn_size (CLen n) = n"
| "popn_size (CEnter n) = n"
| "popn_size (CTest n) = n"
| "popn_size (CBack n) = n"
| "popn_size (CWait n) = n"
| "popn_size (CContent n) = n"
| "popn_size (CHead n b) = n"
| "popn_size (CRun b h n ops acc) = n"
| "popn_size (CStoreHead h n acc) = n"
| "popn_size (CLeave acc) = length acc"

fun leaving :: "'e consumer_pc \<Rightarrow> 'e list" where
  "leaving (CLeave acc) = acc"
| "leaving _ = []"

definition single_consumer :: "'e mail_sys \<Rightarrow> bool" where
  "single_consumer s \<longleftrightarrow>
     (\<forall>g h. draining (workers s g) \<longrightarrow> draining (workers s h) \<longrightarrow> g = h) \<and>
     (procStatus (mbox s) = StateIdle \<longrightarrow> (\<forall>g. \<not> draining (workers s g))) \<and>
     (procStatus (mbox s) = StateRunning \<longrightarrow> (\<exists>g. draining (workers s g)))"

definition cpc_mirrors :: "'e mail_sys \<Rightarrow> bool" where
  "cpc_mirrors s \<longleftrightarrow>
     (\<forall>g c. workers s g = InPopN c \<longrightarrow> c = cpc (ring s) \<and> c \<noteq> CIdle) \<and>
     ((\<forall>g c. workers s g \<noteq> InPopN c) \<longrightarrow> cpc (ring s) = CIdle)"

definition wakes :: "'e mail_sys \<Rightarrow> bool" where
  "wakes s \<longleftrightarrow>
     procStatus (mbox s) = StateIdle \<longrightarrow> lengthA (ring s) \<noteq> 0 \<longrightarrow>
     (\<exists>p. sending s p \<or> ppc (ring s) p = PUnlock) \<or> (\<exists>g. looking (workers s g))"

definition hands_ok :: "'e mail_sys \<Rightarrow> bool" where
  "hands_ok s \<longleftrightarrow>
     out (ring s) = handed s @ leaving (cpc (ring s)) \<and>
     (cpc (ring s) \<noteq> CIdle \<longrightarrow> 0 < popn_size (cpc (ring s)) \<and> popn_size (cpc (ring s)) \<le> 300) \<and>
     (\<forall>n. cpc (ring s) = CLen n \<longrightarrow> n = 300) \<and>
     (\<forall>g b. workers s g = At (RunInvoke b) \<longrightarrow>
        b \<noteq> [] \<and> length b \<le> 300 \<and> (\<exists>p. handed s = p @ b))"

definition mail_inv :: "'e \<Rightarrow> nat \<Rightarrow> 'e mail_sys \<Rightarrow> bool" where
  "mail_inv zero cap s \<longleftrightarrow>
     0 < cap \<and> rb_reach zero cap (ring s) \<and> throughput (mbox s) = defaultThroughput \<and>
     finite {p. sending s p} \<and> finite {g. workers s g \<noteq> At Exited} \<and>
     (\<forall>p. sending s p \<longrightarrow> ppc (ring s) p = PIdle) \<and>
     single_consumer s \<and> cpc_mirrors s \<and> wakes s \<and> hands_ok s"

lemmas mail_inv_defs = mail_inv_def single_consumer_def cpc_mirrors_def wakes_def hands_ok_def

lemma mail_inv_init:
  assumes "NewInbox (ring_new zero) sz = Return ib"
  shows "mail_inv zero (nat (sint (roundUpPow2 sz))) (mail_init ib)"
proof -
  have "0 < sint (roundUpPow2 sz)" by (rule roundUpPow2_pos)
  then show ?thesis
    using assms rb_reach.init [of zero "nat (sint (roundUpPow2 sz))"]
    by (auto simp: mail_inv_defs mail_init_def NewInbox_def ring_new_def rb_init_def)
qed

lemma mail_inv_safe: "mail_inv zero cap s \<Longrightarrow> rb_safe (ring s)"
  by (auto simp: mail_inv_def intro: rb_reach_safe)

lemma pushing:
  assumes "mail_inv zero cap s" "ppc (ring s) p \<noteq> PIdle"
  shows "muL (ring s) = Some p" "\<not> sending s p" "active (ring s) = ppc (ring s) p"
proof -
  show "muL (ring s) = Some p" using assms mail_inv_safe [OF assms(1)] by (simp add: rb_safe_def lock_inv_def)
  then show "active (ring s) = ppc (ring s) p" by (simp add: active_def)
  show "\<not> sending s p" using assms by (auto simp: mail_inv_def)
qed

text \<open>The steps of \<open>PopN\<close>, as the inbox sees them.\<close>

lemma consumer_next_view:
  assumes "consumer_next zero r c = Some (r', c')" "consumer_inv r c" "0 < popn_size c"
  shows "c' = CIdle \<and> out r' = out r \<and> ((\<exists>acc. c = CLeave acc) \<or> (\<exists>n. c = CLen n)) \<or>
    c' \<noteq> CIdle \<and> (\<forall>n. c' \<noteq> CLen n) \<and> leaving c = [] \<and> out r' = out r @ leaving c' \<and> 0 < popn_size c' \<and> popn_size c' \<le> popn_size c"
  using assms by (cases "(zero, r, c)" rule: consumer_next.cases) (auto split: if_splits)

lemma producer_next_view:
  assumes "producer_next zero r a = Some (r', a')"
  shows "out r' = out r" "lengthA r' = lengthA r \<or> a' = PUnlock" "a = PUnlock \<Longrightarrow> a' = PIdle"
  using assms by (cases a; auto simp: Let_def split: if_splits)+

lemma in_push_keeps:
  assumes inv: "mail_inv zero cap s" and e: "producer_next zero (ring s) (ppc (ring s) p) = Some (r, pc)"
  shows "mail_inv zero cap (s\<lparr>mbox := (mbox s)\<lparr>rb := r\<lparr>ppc := (ppc r)(p := pc)\<rparr>\<rparr>, sending := (sending s)(p := (pc = PIdle))\<rparr>)"
    (is "mail_inv zero cap ?s")
proof -
  note v = producer_next_view [OF e] producer_next_frame [OF e]
  have "rb_reach zero cap (ring ?s)"
    using inv rb_reach.step [OF _ rb_step.push_step [OF e]] by (simp add: mail_inv_def)
  moreover have "single_consumer ?s" "cpc_mirrors ?s" "hands_ok ?s"
    using inv v by (simp_all add: mail_inv_defs)
  moreover have "wakes ?s"
  proof (cases "pc = PIdle \<or> pc = PUnlock")
    case True
    then show ?thesis by (auto simp: wakes_def)
  next
    case False
    have "ppc (ring s) p \<noteq> PIdle" using e by auto
    then have "\<not> sending s p" "ppc (ring s) p \<noteq> PUnlock" using inv False v(3) by (auto simp: mail_inv_def)
    then have "sending s q \<or> ppc (ring s) q = PUnlock \<Longrightarrow> q \<noteq> p \<and> (sending s q \<or> ppc r q = PUnlock)" for q
      using v(4) by auto
    then show ?thesis using inv False v(2) unfolding mail_inv_def wakes_def by simp blast
  qed
  moreover have "\<forall>q. sending ?s q \<longrightarrow> ppc (ring ?s) q = PIdle"
    using inv v by (simp add: mail_inv_def)
  ultimately show ?thesis using inv finite_update_bool [of "sending s" p] by (simp add: mail_inv_def)
qed

lemma send_lock_keeps:
  assumes inv: "mail_inv zero cap s" and e: "\<not> sending s p" "ppc (ring s) p = PIdle" "muL (ring s) = None"
  shows "mail_inv zero cap (s\<lparr>mbox := (mbox s)\<lparr>rb := (ring s)\<lparr>muL := Some p, ppc := (ppc (ring s))(p := PLocked e)\<rparr>\<rparr>\<rparr>)"
    (is "mail_inv zero cap ?s")
proof -
  have "rb_reach zero cap (ring ?s)"
    using inv rb_reach.step [OF _ rb_step.push_lock [OF e(2,3)]] by (simp add: mail_inv_def)
  moreover have "wakes ?s"
    using inv e by (simp add: mail_inv_def wakes_def) (metis producer_pc.distinct(23))
  ultimately show ?thesis using inv e by (simp add: mail_inv_defs)
qed

lemma stop_keeps: "mail_inv zero cap s \<Longrightarrow> mail_inv zero cap (s\<lparr>mbox := Inbox_Stop (mbox s)\<rparr>)"
  by (auto simp: mail_inv_defs Inbox_Stop_def)

lemma send_start_keeps:
  assumes inv: "mail_inv zero cap s" and e: "sending s p" "schedule (mbox s) = (True, ib)" "workers s g = At Exited"
  shows "mail_inv zero cap (s\<lparr>mbox := ib, sending := (sending s)(p := False), workers := (workers s)(g := At RunTop)\<rparr>)"
proof -
  have "procStatus (mbox s) = StateIdle" "ib = (mbox s)\<lparr>procStatus := StateRunning\<rparr>"
    using e(2) by (auto simp: schedule_def cas_status_def split: if_splits)
  moreover from this inv have "\<not> draining (workers s h)" for h by (simp add: mail_inv_def single_consumer_def)
  moreover from this have "workers s h \<noteq> InPopN c" for h c by (metis draining.simps(1))
  ultimately show ?thesis
    using inv finite_update_bool [of "sending s" p False] finite_update_pred [of "workers s" "At Exited" g "At RunTop"]
    by (simp add: mail_inv_defs) 
qed

lemma send_skip_keeps:
  assumes inv: "mail_inv zero cap s" and e: "sending s p" "schedule (mbox s) = (False, ib)"
  shows "mail_inv zero cap (s\<lparr>mbox := ib, sending := (sending s)(p := False)\<rparr>)"
proof -
  have "procStatus (mbox s) \<noteq> StateIdle" "ib = mbox s"
    using e(2) by (auto simp: schedule_def cas_status_def split: if_splits)
  then show ?thesis using inv finite_update_bool [of "sending s" p False] by (simp add: mail_inv_defs)
qed

lemma draining_alone:
  assumes "mail_inv zero cap s" "draining (workers s g)"
  shows "procStatus (mbox s) \<noteq> StateIdle" "draining (workers s h) \<Longrightarrow> h = g" "workers s h = InPopN c \<Longrightarrow> h = g"
    "workers s h = At (RunInvoke b) \<Longrightarrow> h = g"
  using assms unfolding mail_inv_def single_consumer_def
  by (metis, metis, metis draining.simps(1), metis draining.simps(2) owner.simps(3))

lemma popping_keeps:
  assumes inv: "mail_inv zero cap s" and g: "workers s g = InPopN c"
    and e: "consumer_next zero (ring s) c = Some (r, c')"
  shows "mail_inv zero cap (s\<lparr>mbox := (mbox s)\<lparr>rb := r\<lparr>cpc := c'\<rparr>\<rparr>, workers := (workers s)(g := popn_return c c'),
     handed := handed s @ handover (InPopN c) (popn_return c c')\<rparr>)" (is "mail_inv zero cap ?s")
proof -
  have d: "draining (workers s g)" using g by simp
  note alone = draining_alone [OF inv d]
  have c: "c = cpc (ring s)" "c \<noteq> CIdle" using inv g by (auto simp: mail_inv_def cpc_mirrors_def)
  then have size: "0 < popn_size c" "popn_size c \<le> 300" "out (ring s) = handed s @ leaving c"
    using inv by (auto simp: mail_inv_def hands_ok_def)
  have ci: "consumer_inv (ring s) c" using mail_inv_safe [OF inv] c by (simp add: rb_safe_def rb_conc_inv_def)
  note v = consumer_next_view [OF e ci size(1)]
  note fr = consumer_next_frame [OF e]
  have "rb_reach zero cap (ring ?s)"
    using inv rb_reach.step [OF _ rb_step.pop_step [of zero "ring s"]] e c by (simp add: mail_inv_def)
  moreover have "single_consumer ?s"
  proof -
    have "draining (popn_return c c')" by (cases "(c, c')" rule: popn_return.cases) auto
    then show ?thesis using inv d alone(1,2) by (auto simp: mail_inv_def single_consumer_def)
  qed
  moreover have "cpc_mirrors ?s"
  proof (cases "c' = CIdle")
    case True
    then have "popn_return c c' \<noteq> InPopN b" for b by (cases c) auto
    then show ?thesis using True alone(3) by (auto simp: cpc_mirrors_def)
  next
    case False
    then have "popn_return c c' = InPopN c'" by (cases c') auto
    then show ?thesis using False alone(3) by (auto simp: cpc_mirrors_def)
  qed
  moreover have "hands_ok ?s"
    using v
  proof (elim disjE conjE exE)
    fix acc assume "c' = CIdle" "out r = out (ring s)" "c = CLeave acc"
    then show ?thesis using size alone(4) by (auto simp: hands_ok_def)
  next
    fix n assume "c' = CIdle" "out r = out (ring s)" "c = CLen n"
    then show ?thesis using size alone(4) by (auto simp: hands_ok_def)
  next
    assume "c' \<noteq> CIdle" "\<forall>n. c' \<noteq> CLen n" "leaving c = []" "out r = out (ring s) @ leaving c'" "0 < popn_size c'" "popn_size c' \<le> popn_size c"
    moreover from this have "popn_return c c' = InPopN c'" by (cases c') auto
    ultimately show ?thesis using size alone(4) by (auto simp: hands_ok_def)
  qed
  ultimately show ?thesis
    using inv alone(1) fr finite_update_pred [of "workers s" "At Exited" g] by (simp add: mail_inv_def wakes_def)
qed

lemma call_popn_keeps:
  assumes inv: "mail_inv zero cap s" and g: "workers s g = At RunPop"
  shows "mail_inv zero cap (s\<lparr>mbox := (mbox s)\<lparr>rb := (ring s)\<lparr>cpc := CLen 300\<rparr>\<rparr>, workers := (workers s)(g := InPopN (CLen 300))\<rparr>)"
    (is "mail_inv zero cap ?s")
proof -
  have d: "draining (workers s g)" using g by simp
  note alone = draining_alone [OF inv d]
  have "workers s h \<noteq> InPopN c" for h c using alone(3) g by force
  then have idle: "cpc (ring s) = CIdle" using inv by (simp add: mail_inv_def cpc_mirrors_def)
  then have "rb_reach zero cap (ring ?s)"
    using inv rb_reach.step [OF _ rb_step.pop_call [of "ring s" 300]] by (simp add: mail_inv_def)
  moreover have "single_consumer ?s"
    using inv alone(1,2) by (auto simp: mail_inv_def single_consumer_def)
  moreover have "cpc_mirrors ?s" using alone(3) by (auto simp: cpc_mirrors_def)
  moreover have "hands_ok ?s" using inv idle by (auto simp: mail_inv_def hands_ok_def)
  ultimately show ?thesis
    using inv alone(1) finite_update_pred [of "workers s" "At Exited" g] by (simp add: mail_inv_def wakes_def)
qed

lemma at_keeps:
  assumes inv: "mail_inv zero cap s" and g: "workers s g = At pc" "pc \<noteq> RunPop"
    and e: "process_next (\<lambda>_ _. Block) ring_len (mbox s) pc = Return (ib, pc')"
  shows "mail_inv zero cap (s\<lparr>mbox := ib, workers := (workers s)(g := At pc')\<rparr>)" (is "mail_inv zero cap ?s")
proof -
  have own: "owner pc \<Longrightarrow> procStatus (mbox s) \<noteq> StateIdle \<and> (\<forall>h. draining (workers s h) \<longrightarrow> h = g)"
    using draining_alone [OF inv, of g] g by auto
  have other: "\<not> owner pc \<Longrightarrow> procStatus (mbox s) = StateRunning \<Longrightarrow> \<exists>h. h \<noteq> g \<and> draining (workers s h)"
    using inv g unfolding mail_inv_def single_consumer_def by (metis draining.simps(2))
  have ib: "rb ib = ring s" "throughput ib = throughput (mbox s)"
    using e g(2) by (cases pc; auto simp: cas_status_def split: if_splits)+
  have popping: "workers ?s h = InPopN c \<longleftrightarrow> workers s h = InPopN c" for h c using g(1) by simp
  have ring: "ring ?s = ring s" using ib(1) by simp
  have "cpc_mirrors ?s = cpc_mirrors s" unfolding cpc_mirrors_def by (simp only: popping ring)
  then have "cpc_mirrors ?s" using inv by (simp add: mail_inv_def)
  moreover have "pc' \<noteq> RunInvoke b" for b using e g(2) by (cases pc) (auto simp: cas_status_def split: if_splits)
  then have "hands_ok ?s" using inv ib by (simp add: mail_inv_def hands_ok_def)
  moreover have "single_consumer ?s"
    using e g inv own other
    by (cases pc) (auto simp: mail_inv_def single_consumer_def cas_status_def split: if_splits)
  moreover have "wakes ?s"
    using e g inv own
    by (cases pc; cases "procStatus (mbox s)") (auto simp: mail_inv_def wakes_def cas_status_def ring_len_def split: if_splits)
  ultimately show ?thesis
    using inv ib finite_update_pred [of "workers s" "At Exited" g] by (simp add: mail_inv_def)
qed

lemma worker_next_cases:
  assumes inv: "mail_inv zero cap s" and e: "worker_next zero (mbox s) (workers s g) = Some (ib, pc)"
  obtains c r c' where "workers s g = InPopN c" "consumer_next zero (ring s) c = Some (r, c')"
      "ib = (mbox s)\<lparr>rb := r\<lparr>cpc := c'\<rparr>\<rparr>" "pc = popn_return c c'"
  | "workers s g = At RunPop" "ib = (mbox s)\<lparr>rb := (ring s)\<lparr>cpc := CLen 300\<rparr>\<rparr>" "pc = InPopN (CLen 300)"
  | p p' where "workers s g = At p" "p \<noteq> RunPop" "pc = At p'"
      "process_next (\<lambda>_ _. Block) ring_len (mbox s) p = Return (ib, p')"
proof (cases "workers s g")
  case (InPopN c)
  then show thesis using that(1) e by auto
next
  case (At p)
  show thesis
  proof (cases "p = RunPop")
    case True
    have "throughput (mbox s) = defaultThroughput" using inv by (simp add: mail_inv_def)
    then show thesis using that(2) At True e by (simp add: Let_def)
  next
    case False
    then have "map_option (\<lambda>(ib, pc). (ib, At pc)) (returned (process_next (\<lambda>_ _. Block) ring_len (mbox s) p)) = Some (ib, pc)"
      using e At by (cases p) auto
    then show thesis using that(3) [OF At False] by auto
  qed
qed

lemma worker_keeps:
  assumes inv: "mail_inv zero cap s" and e: "worker_next zero (mbox s) (workers s g) = Some (ib, pc)"
  shows "mail_inv zero cap (s\<lparr>mbox := ib, workers := (workers s)(g := pc), handed := handed s @ handover (workers s g) pc\<rparr>)"
proof (rule worker_next_cases [OF inv e])
  fix c r c' assume "workers s g = InPopN c" "consumer_next zero (ring s) c = Some (r, c')"
    "ib = (mbox s)\<lparr>rb := r\<lparr>cpc := c'\<rparr>\<rparr>" "pc = popn_return c c'"
  then show ?thesis using popping_keeps [OF inv] by simp
next
  assume "workers s g = At RunPop" "ib = (mbox s)\<lparr>rb := (ring s)\<lparr>cpc := CLen 300\<rparr>\<rparr>" "pc = InPopN (CLen 300)"
  then show ?thesis using call_popn_keeps [OF inv, of g] by simp
next
  fix p p' assume "workers s g = At p" "p \<noteq> RunPop" "pc = At p'"
    "process_next (\<lambda>_ _. Block) ring_len (mbox s) p = Return (ib, p')"
  then show ?thesis using at_keeps [OF inv, of g p ib p'] by simp
qed

lemma mail_work_keeps: "mail_work zero s s' \<Longrightarrow> mail_inv zero cap s \<Longrightarrow> mail_inv zero cap s'"
  by (erule mail_workE) (auto intro: in_push_keeps send_start_keeps send_skip_keeps worker_keeps)

lemma mail_step_keeps: "mail_step zero s s' \<Longrightarrow> mail_inv zero cap s \<Longrightarrow> mail_inv zero cap s'"
  by (erule mail_stepE) (auto intro: mail_work_keeps send_lock_keeps stop_keeps)

lemma mail_reach_inv:
  assumes "mail_reach zero sz s"
  shows "mail_inv zero (nat (sint (roundUpPow2 sz))) s"
proof -
  obtain ib where "NewInbox (ring_new zero) sz = Return ib" "(mail_step zero)\<^sup>*\<^sup>* (mail_init ib) s"
    using assms by (auto simp: mail_reach_def)
  from this(2) mail_inv_init [OF this(1)] show ?thesis
    by (induction rule: rtranclp_induct) (auto intro: mail_step_keeps)
qed

section \<open>Progress\<close>

definition mail_quiet :: "'e mail_sys \<Rightarrow> bool" where
  "mail_quiet s \<longleftrightarrow> (\<forall>p. ppc (ring s) p = PIdle \<and> \<not> sending s p) \<and> (\<forall>g. workers s g = At Exited)"

lemma push_moves:
  assumes inv: "mail_inv zero cap s" and p: "ppc (ring s) p \<noteq> PIdle" and "\<not> poppingF (ring s) \<or> \<not> growingF (ring s)"
  shows "\<exists>t. mail_work zero s t \<and> t \<noteq> s"
proof -
  have "active (ring s) = ppc (ring s) p" "growingF (ring s) = growing_at (active (ring s))"
    using pushing [OF inv p] mail_inv_safe [OF inv] by (simp_all add: rb_safe_def rb_conc_inv_def)
  then obtain r a where r: "producer_next zero (ring s) (ppc (ring s) p) = Some (r, a)" "a \<noteq> ppc (ring s) p"
    using producer_next_moves [OF p, of "ring s" zero] assms(3) by auto
  let ?t = "s\<lparr>mbox := (mbox s)\<lparr>rb := r\<lparr>ppc := (ppc r)(p := a)\<rparr>\<rparr>, sending := (sending s)(p := (a = PIdle))\<rparr>"
  have "ppc (ring ?t) p \<noteq> ppc (ring s) p" using r(2) by simp
  then have "?t \<noteq> s" by metis
  then show ?thesis using mail_work.in_push [OF r(1)] by blast
qed

lemma worker_moves:
  assumes inv: "mail_inv zero cap s" and g: "workers s g \<noteq> At Exited"
    and nowait: "\<not> (growingF (ring s) \<and> (\<exists>n. workers s g = InPopN (CWait n)))"
  shows "\<exists>t. mail_work zero s t \<and> t \<noteq> s"
proof -
  have "\<exists>ib pc. worker_next zero (mbox s) (workers s g) = Some (ib, pc) \<and> pc \<noteq> workers s g"
  proof (cases "workers s g")
    case (InPopN c)
    then have "c \<noteq> CIdle" using inv by (auto simp: mail_inv_def cpc_mirrors_def)
    then obtain r c' where c': "consumer_next zero (ring s) c = Some (r, c')" "c' \<noteq> c"
      using consumer_next_moves [of c "ring s" zero] nowait InPopN by auto
    then have "popn_return c c' \<noteq> InPopN c" by (cases "(c, c')" rule: popn_return.cases) auto
    then show ?thesis using c' InPopN by auto
  next
    case (At pc)
    have "throughput (mbox s) = defaultThroughput" using inv by (simp add: mail_inv_def)
    then show ?thesis using At g by (cases pc) (auto simp: cas_status_def Let_def)
  qed
  then obtain ib pc where n: "worker_next zero (mbox s) (workers s g) = Some (ib, pc)" "pc \<noteq> workers s g" by blast
  let ?t = "s\<lparr>mbox := ib, workers := (workers s)(g := pc), handed := handed s @ handover (workers s g) pc\<rparr>"
  have "workers ?t g \<noteq> workers s g" using n(2) by simp
  then have "?t \<noteq> s" by metis
  then show ?thesis using mail_work.worker [OF n(1)] by blast
qed

lemma send_moves:
  assumes inv: "mail_inv zero cap s" and p: "sending s p"
  shows "\<exists>t. mail_work zero s t \<and> t \<noteq> s"
proof -
  have "infinite {g. workers s g = At Exited}"
    using inv infinite_UNIV_nat finite_Collect_not [of "\<lambda>g. workers s g = At Exited"] by (auto simp: mail_inv_def)
  then obtain g where g: "workers s g = At Exited" by (metis (mono_tags) finite.emptyI empty_Collect_eq)
  obtain t where t: "mail_work zero s t" "sending t p = False"
  proof (cases "schedule (mbox s)")
    case (Pair b ib)
    then show ?thesis
      using that [OF mail_work.send_start [OF p _ g]] that [OF mail_work.send_skip [OF p]] by (cases b) auto
  qed
  then show ?thesis using p by metis
qed

lemma mail_progress:
  assumes inv: "mail_inv zero cap s" and "\<not> mail_quiet s"
  shows "\<exists>t. mail_work zero s t \<and> t \<noteq> s"
proof -
  have ring: "poppingF (ring s) = popping_at (cpc (ring s))" "growingF (ring s) = growing_at (active (ring s))" "lock_inv (ring s)"
    using mail_inv_safe [OF inv] by (auto simp: rb_safe_def rb_conc_inv_def)
  have mirror: "workers s g = InPopN c \<Longrightarrow> c = cpc (ring s)" "(\<forall>g c. workers s g \<noteq> InPopN c) \<Longrightarrow> cpc (ring s) = CIdle" for g c
    using inv by (auto simp: mail_inv_def cpc_mirrors_def)
  consider (waits) g n where "workers s g = InPopN (CWait n)" "growingF (ring s)"
    | (worker) g where "workers s g \<noteq> At Exited" "\<not> (growingF (ring s) \<and> (\<exists>n. workers s g = InPopN (CWait n)))"
    | (send) p where "sending s p"
    | (push) p where "ppc (ring s) p \<noteq> PIdle" "\<forall>g. workers s g = At Exited"
    using assms(2) unfolding mail_quiet_def by metis
  then show ?thesis
  proof cases
    case waits
    then have "active (ring s) \<noteq> PIdle" using ring(2) by auto
    then obtain p where "ppc (ring s) p \<noteq> PIdle" by (auto simp: active_def split: option.splits)
    moreover have "\<not> poppingF (ring s)" using mirror(1) [OF waits(1)] ring(1) by (metis consumer_critical.simps popping_at.simps)
    ultimately show ?thesis using push_moves [OF inv] by blast
  next
    case worker
    then show ?thesis using worker_moves [OF inv] by blast
  next
    case send
    then show ?thesis using send_moves [OF inv] by blast
  next
    case push
    then have "cpc (ring s) = CIdle" using mirror(2) by auto
    then show ?thesis using push_moves [OF inv push(1)] ring(1) by simp
  qed
qed

section \<open>Termination\<close>

text \<open>
  A step that is not a spin (it changes the state) brings the work nearer to its end: the producer that
  holds the lock, then the senders that have to call \<open>schedule\<close>, then the items that are counted, then the
  processors. In \<open>enterConsumer\<close> a consumer can go round only if a grow has begun in between.
\<close>

fun push_weight :: "nat \<Rightarrow> 'e producer_pc \<Rightarrow> nat" where
  "push_weight k PIdle = 0"
| "push_weight k PUnlock = 1"
| "push_weight k PAddLen = 2"
| "push_weight k (PStoreTail x b t) = 3"
| "push_weight k (PWrite x b t) = 4"
| "push_weight k (PGrowDone x b t) = 5"
| "push_weight k (PCopy x b t nb h i) = 6 + (t - i)"
| "push_weight k (PGrowHead x b t) = 7 + t"
| "push_weight k (PSpin x b t) = 8 + t"
| "push_weight k (PGrow x b t) = 9 + t"
| "push_weight k (PHead x b t) = 10 + t"
| "push_weight k (PLoaded x b) = 11 + k"
| "push_weight k (PLocked x) = 12 + k"

fun popn_weight :: "bool \<Rightarrow> 'e consumer_pc \<Rightarrow> nat" where
  "popn_weight gr CIdle = 0"
| "popn_weight gr (CRun b h n ops acc) = length ops"
| "popn_weight gr (CHead n b) = 2 * n + 1"
| "popn_weight gr (CContent n) = 2 * n + 2"
| "popn_weight gr (CTest n) = 2 * n + (if gr then 7 else 3)"
| "popn_weight gr (CEnter n) = 2 * n + (if gr then 8 else 4)"
| "popn_weight gr (CWait n) = 2 * n + 5"
| "popn_weight gr (CBack n) = 2 * n + 6"
| "popn_weight gr (CLen n) = 2 * n + 9"
| "popn_weight gr (CLeave acc) = 613"
| "popn_weight gr (CStoreHead h n acc) = 614"

fun worker_weight :: "bool \<Rightarrow> bool \<Rightarrow> bool \<Rightarrow> 'e worker_pc \<Rightarrow> nat" where
  "worker_weight st em gr (InPopN c) = popn_weight gr c"
| "worker_weight st em gr (At Exited) = 0"
| "worker_weight st em gr (At RunPop) = 610"
| "worker_weight st em gr (At RunTop) = 611"
| "worker_weight st em gr (At (RunInvoke b)) = 612"
| "worker_weight st em gr (At ParkCAS) = (if st \<or> em then 2 else 614)"
| "worker_weight st em gr (At Recheck) = (if em then 1 else 613)"
| "worker_weight st em gr (At Reclaim) = 612"

definition mail_left :: "'e mail_sys \<Rightarrow> nat \<times> nat \<times> nat \<times> nat" where
  "mail_left s =
     (push_weight (tailA (ring s)) (active (ring s)), card {p. sending s p}, lengthA (ring s),
      \<Sum>g | workers s g \<noteq> At Exited.
        worker_weight (procStatus (mbox s) = StateStopped) (lengthA (ring s) = 0) (growingF (ring s)) (workers s g))"

lemma push_weight_decreases:
  assumes "producer_next zero r a = Some (r', a')" "\<not> (a' = a \<and> r' = r)" 
  shows "push_weight (tailA r') a' < push_weight (tailA r) a"
  using assms by (cases a) (auto simp: Let_def split: if_splits)

lemma drain_script_length: "length (drain_script cap h n) = 2 * n"
  by (simp add: drain_script_def Let_def)

lemma popn_weight_decreases:
  assumes "consumer_next zero r c = Some (r', c')" "consumer_inv r c" "\<not> (c' = c \<and> r' = r)"
  shows "tailA r' = tailA r" "growingF r' = growingF r"
    "lengthA r' < lengthA r \<or> lengthA r' = lengthA r \<and>
       worker_weight st (lengthA r = 0) (growingF r) (popn_return c c') < popn_weight (growingF r) c"
  using assms by (cases "(zero, r, c)" rule: consumer_next.cases; auto simp: drain_script_length split: if_splits)+

lemma worker_weight_decreases:
  assumes inv: "mail_inv zero cap s" and e: "worker_next zero (mbox s) (workers s g) = Some (ib, pc)"
    and moves: "\<not> (ib = mbox s \<and> pc = workers s g)"
  shows "active (rb ib) = active (ring s) \<and> tailA (rb ib) = tailA (ring s) \<and> growingF (rb ib) = growingF (ring s) \<and>
    (procStatus ib = StateStopped \<longleftrightarrow> procStatus (mbox s) = StateStopped) \<and>
    (lengthA (rb ib) < lengthA (ring s) \<or> lengthA (rb ib) = lengthA (ring s) \<and>
      worker_weight (procStatus (mbox s) = StateStopped) (lengthA (ring s) = 0) (growingF (ring s)) pc <
      worker_weight (procStatus (mbox s) = StateStopped) (lengthA (ring s) = 0) (growingF (ring s)) (workers s g))"
proof (cases "workers s g")
  case (InPopN c)
  then have c: "c = cpc (ring s)" "c \<noteq> CIdle" using inv by (auto simp: mail_inv_def cpc_mirrors_def)
  have ci: "consumer_inv (ring s) c" using mail_inv_safe [OF inv] c by (simp add: rb_safe_def rb_conc_inv_def)
  obtain r c' where n: "consumer_next zero (ring s) c = Some (r, c')" "pc = popn_return c c'" "ib = (mbox s)\<lparr>rb := r\<lparr>cpc := c'\<rparr>\<rparr>"
    using e InPopN by auto
  have "\<not> (c' = c \<and> r = ring s)"
  proof
    assume "c' = c \<and> r = ring s"
    moreover from this c(2) have "popn_return c c' = InPopN c" by (cases c) auto
    ultimately show False using moves n InPopN c(1) by simp
  qed
  note w = popn_weight_decreases [OF n(1) ci this]
  have "active r = active (ring s)"
    using consumer_next_frame [OF n(1)] by (simp add: active_def cong: option.case_cong)
  then show ?thesis using w(1,2) w(3) [of "procStatus (mbox s) = StateStopped"] n(2,3) InPopN by simp
next
  case (At p)
  have "throughput (mbox s) = defaultThroughput" using inv by (simp add: mail_inv_def)
  then show ?thesis using e At by (cases p) (auto simp: cas_status_def ring_len_def Let_def split: if_splits)
qed

lemma push_decreases:
  assumes inv: "mail_inv zero cap s" and e: "producer_next zero (ring s) (ppc (ring s) p) = Some (r, pc)"
    and moves: "s\<lparr>mbox := (mbox s)\<lparr>rb := r\<lparr>ppc := (ppc r)(p := pc)\<rparr>\<rparr>, sending := (sending s)(p := (pc = PIdle))\<rparr> \<noteq> s"
  shows "push_weight (tailA r) (active (r\<lparr>ppc := (ppc r)(p := pc)\<rparr>)) < push_weight (tailA (ring s)) (active (ring s))"
proof -
  have p: "ppc (ring s) p \<noteq> PIdle" using e by auto
  note mu = pushing [OF inv this]
  have "\<not> (pc = ppc (ring s) p \<and> r = ring s)" using moves p mu(2) by (auto simp: fun_upd_idem)
  then have "push_weight (tailA r) pc < push_weight (tailA (ring s)) (ppc (ring s) p)"
    by (rule push_weight_decreases [OF e])
  moreover have "active (r\<lparr>ppc := (ppc r)(p := pc)\<rparr>) = pc"
    using producer_next_frame [OF e] mu(1) by (simp add: active_def)
  ultimately show ?thesis using mu(1) by (simp add: active_def)
qed

lemma mail_work_decreases:
  assumes inv: "mail_inv zero cap s" and "mail_work zero s s'" "s' \<noteq> s"
  shows "(mail_left s', mail_left s) \<in> less_than <*lex*> less_than <*lex*> less_than <*lex*> less_than"
  using assms(2)
proof (cases rule: mail_work.cases)
  case (in_push p r pc)
  then show ?thesis using push_decreases [OF inv in_push(2)] assms(3) by (simp add: mail_left_def)
next
  case (send_start p ib g)
  then show ?thesis
    using inv card_update_False [of "sending s" p]
    by (auto simp: mail_left_def mail_inv_def schedule_def cas_status_def split: if_splits)
next
  case (send_skip p ib)
  then show ?thesis
    using inv card_update_False [of "sending s" p]
    by (auto simp: mail_left_def mail_inv_def schedule_def cas_status_def split: if_splits)
next
  case (worker g ib pc)
  let ?w = "worker_weight (procStatus (mbox s) = StateStopped) (lengthA (ring s) = 0) (growingF (ring s))"
  have "\<not> (ib = mbox s \<and> pc = workers s g)"
  proof
    assume "ib = mbox s \<and> pc = workers s g"
    moreover have "handover pc pc = []" by (cases "(pc, pc)" rule: handover.cases) auto
    ultimately show False using worker assms(3) by simp
  qed
  note w = worker_weight_decreases [OF inv worker(2) this]
  have "finite {h. workers s h \<noteq> At Exited}" using inv by (simp add: mail_inv_def)
  then have "?w pc < ?w (workers s g) \<Longrightarrow>
      (\<Sum>h | ((workers s)(g := pc)) h \<noteq> At Exited. ?w (((workers s)(g := pc)) h)) < (\<Sum>h | workers s h \<noteq> At Exited. ?w (workers s h))"
    by (rule sum_update_decreases) simp_all
  then show ?thesis using w worker(1) by (auto simp: mail_left_def simp del: fun_upd_apply)
qed

lemma mail_terminates:
  assumes inv: "mail_inv zero cap (f 0)" and run: "\<And>n. mail_work zero (f n) (f (Suc n)) \<and> f (Suc n) \<noteq> f n"
  shows False
proof -
  let ?r = "less_than <*lex*> less_than <*lex*> less_than <*lex*> less_than :: ((nat \<times> nat \<times> nat \<times> nat) \<times> (nat \<times> nat \<times> nat \<times> nat)) set"
  have inv_n: "mail_inv zero cap (f n)" for n
    by (induction n) (auto intro: inv mail_work_keeps [OF conjunct1 [OF run]])
  have "\<forall>n. (mail_left (f (Suc n)), mail_left (f n)) \<in> ?r"
    using mail_work_decreases [OF inv_n] run by blast
  moreover have "wf ?r" by auto
  ultimately show False
    unfolding wf_iff_no_infinite_down_chain
    by (elim notE) (rule exI [of _ "\<lambda>n. mail_left (f n)"], simp del: in_lex_prod)
qed

lemma mail_work_status:
  assumes "mail_work zero s s'"
  shows "procStatus (mbox s') = StateStopped \<longleftrightarrow> procStatus (mbox s) = StateStopped"
  using assms
proof (cases rule: mail_work.cases)
  case (worker g ib pc)
  then show ?thesis
    by (cases "(zero, mbox s, workers s g)" rule: worker_next.cases) (auto simp: cas_status_def Let_def split: if_splits)
qed (auto simp: schedule_def cas_status_def split: if_splits)

lemma mail_work_steps:
  assumes "(mail_work zero)\<^sup>*\<^sup>* s t" "mail_inv zero cap s"
  shows "mail_inv zero cap t \<and> (procStatus (mbox t) = StateStopped \<longleftrightarrow> procStatus (mbox s) = StateStopped)"
  using assms by (induction rule: rtranclp_induct) (auto simp: mail_work_status intro: mail_work_keeps)

text \<open>When nobody is at work any more, everything was handed over, unless the inbox was stopped.\<close>

lemma quiet_delivered:
  assumes inv: "mail_inv zero cap s" and quiet: "mail_quiet s" and "procStatus (mbox s) \<noteq> StateStopped"
  shows "handed s = hist (ring s)"
proof -
  have quiet': "\<not> draining (workers s g)" "\<not> looking (workers s g)" "workers s g \<noteq> InPopN c" for g c
    using quiet by (simp_all add: mail_quiet_def)
  then have cpc: "cpc (ring s) = CIdle" using inv by (simp add: mail_inv_def cpc_mirrors_def)
  have "procStatus (mbox s) \<noteq> StateRunning" using inv quiet'(1) by (auto simp: mail_inv_def single_consumer_def)
  then have "procStatus (mbox s) = StateIdle" using assms(3) by (cases "procStatus (mbox s)") auto
  then have "lengthA (ring s) = 0" using inv quiet quiet'(2) by (auto simp: mail_inv_def wakes_def mail_quiet_def)
  moreover have "handed s = out (ring s)" using inv cpc by (simp add: mail_inv_def hands_ok_def)
  ultimately show ?thesis
    using rb_safe_linear(1-3) [OF mail_inv_safe [OF inv]] quiet cpc by (simp add: mail_quiet_def)
qed

section \<open>Schedules\<close>

datatype 'e mail_event = SendLock nat 'e | InPush nat | Schedule nat nat | Worker nat | StopCall

fun mail_exec :: "'e \<Rightarrow> 'e mail_event \<Rightarrow> 'e mail_sys \<Rightarrow> 'e mail_sys option" where
  "mail_exec zero (SendLock p e) s =
     (if \<not> sending s p \<and> ppc (ring s) p = PIdle \<and> muL (ring s) = None
      then Some (s\<lparr>mbox := (mbox s)\<lparr>rb := (ring s)\<lparr>muL := Some p, ppc := (ppc (ring s))(p := PLocked e)\<rparr>\<rparr>\<rparr>) else None)"
| "mail_exec zero (InPush p) s =
     map_option (\<lambda>(r, pc). s\<lparr>mbox := (mbox s)\<lparr>rb := r\<lparr>ppc := (ppc r)(p := pc)\<rparr>\<rparr>, sending := (sending s)(p := (pc = PIdle))\<rparr>)
       (producer_next zero (ring s) (ppc (ring s) p))"
| "mail_exec zero (Schedule p g) s =
     (if \<not> sending s p \<or> workers s g \<noteq> At Exited then None
      else case schedule (mbox s) of
        (True, ib) \<Rightarrow> Some (s\<lparr>mbox := ib, sending := (sending s)(p := False), workers := (workers s)(g := At RunTop)\<rparr>)
      | (False, ib) \<Rightarrow> Some (s\<lparr>mbox := ib, sending := (sending s)(p := False)\<rparr>))"
| "mail_exec zero (Worker g) s =
     map_option (\<lambda>(ib, pc). s\<lparr>mbox := ib, workers := (workers s)(g := pc), handed := handed s @ handover (workers s g) pc\<rparr>)
       (worker_next zero (mbox s) (workers s g))"
| "mail_exec zero StopCall s = Some (s\<lparr>mbox := Inbox_Stop (mbox s)\<rparr>)"

fun mail_run :: "'e \<Rightarrow> 'e mail_event list \<Rightarrow> 'e mail_sys \<Rightarrow> 'e mail_sys option" where
  "mail_run zero [] s = Some s"
| "mail_run zero (e # es) s = Option.bind (mail_exec zero e s) (mail_run zero es)"

lemma mail_exec_step: "mail_exec zero e s = Some t \<Longrightarrow> mail_step zero s t"
  by (cases e) (auto intro: mail_step.intros mail_work.intros split: if_splits prod.splits bool.splits)

lemma mail_run_steps: "mail_run zero es s = Some t \<Longrightarrow> (mail_step zero)\<^sup>*\<^sup>* s t"
proof (induction es arbitrary: s)
  case (Cons e es)
  then obtain u where "mail_exec zero e s = Some u" "(mail_step zero)\<^sup>*\<^sup>* u t" by (auto simp: bind_eq_Some_conv)
  then show ?case by (auto dest: mail_exec_step intro: converse_rtranclp_into_rtranclp)
qed simp

definition mail_two :: "nat mail_sys" where
  "mail_two = mail_init \<lparr>rb = rb_init 0 2, proc = None, throughput = defaultThroughput, procStatus = StateIdle\<rparr>"

lemma mail_two_reach: "mail_run 0 es mail_two = Some s \<Longrightarrow> mail_reach 0 0 s"
  by (auto simp: mail_reach_def NewInbox_def ring_new_def roundUpPow2_def minSize_def mail_two_def intro: mail_run_steps)

text \<open>
  In \<open>stale_run\<close> the first processor has parked, the second one is inside \<open>PopN\<close>, and the first one's \<open>Len\<close> still counts
  what is being drained. In \<open>spurious_run\<close> the second one has delivered it and parked, and the first
  one reclaims an empty inbox.
\<close>

definition send_events :: "nat \<Rightarrow> nat \<Rightarrow> nat \<Rightarrow> nat mail_event list" where
  "send_events p e g = SendLock p e # replicate 7 (InPush p) @ [Schedule p g]"

definition stale_run :: "nat mail_event list" where
  "stale_run = send_events 0 10 0 @ replicate 17 (Worker 0) @ send_events 1 20 1 @ replicate 6 (Worker 1) @ [Worker 0]"

definition spurious_run :: "nat mail_event list" where
  "spurious_run = stale_run @ replicate 12 (Worker 1) @ [Worker 0]"

lemma stale_run_result:
  "map_option (\<lambda>s. (workers s 0, workers s 1, procStatus (mbox s), handed s, hist (ring s))) (mail_run 0 stale_run mail_two) =
     Some (At Reclaim, InPopN (CHead 1 0), StateRunning, [10], [10, 20])"
  by code_simp

lemma spurious_run_result:
  "map_option (\<lambda>s. (workers s 0, workers s 1, procStatus (mbox s), handed s, hist (ring s), lengthA (ring s))) (mail_run 0 spurious_run mail_two) =
     Some (At RunTop, At Exited, StateRunning, [10, 20], [10, 20], 0)"
  by code_simp

section \<open>Properties\<close>

text \<open>
  C7. The inbox keeps the contract of the ring buffer. In every interleaving of the atomic accesses of \<open>Send\<close>, \<open>Push\<close>,
  \<open>process\<close>, \<open>run\<close>, \<open>PopN\<close> and \<open>Stop\<close>, at most one goroutine is in \<open>run\<close> or \<open>PopN\<close>, so the buffer is in a state it
  reaches with a single consumer, and no slot is accessed by a producer and a consumer at once. What \<open>Invoke\<close> gets is
  a prefix of what was pushed, in order; a batch is not empty, has at most 300 messages and is the
  newest part of that prefix.
\<close>
theorem inbox_single_consumer:
  assumes "mail_reach zero sz s"
  shows "(\<forall>g h. draining (workers s g) \<and> draining (workers s h) \<longrightarrow> g = h) \<and>
    (\<forall>g c. workers s g = InPopN c \<longrightarrow> cpc (ring s) = c) \<and>
    rb_reach zero (nat (sint (roundUpPow2 sz))) (ring s) \<and> (\<forall>p. \<not> data_race (ring s) p) \<and>
    (\<exists>pending. hist (ring s) = handed s @ pending) \<and>
    (\<forall>g b. workers s g = At (RunInvoke b) \<longrightarrow> b \<noteq> [] \<and> length b \<le> 300 \<and> (\<exists>before. handed s = before @ b))"
proof -
  have inv: "mail_inv zero (nat (sint (roundUpPow2 sz))) s" using assms by (rule mail_reach_inv)
  note safe = mail_inv_safe [OF inv]
  have "hist (ring s) = out (ring s) @ drop (headA (ring s)) (hist (ring s))" using rb_safe_linear(1) [OF safe] by simp
  moreover have "out (ring s) = handed s @ leaving (cpc (ring s))" using inv by (simp add: mail_inv_def hands_ok_def)
  ultimately have "\<exists>pending. hist (ring s) = handed s @ pending" by (metis append_assoc)
  moreover have "\<forall>p. \<not> data_race (ring s) p" using rb_safe_race_free [OF safe] by blast
  ultimately show ?thesis using inv by (auto simp: mail_inv_defs)
qed

theorem inbox_single_consumer_witness:
  "\<exists>s. mail_run 0 stale_run mail_two = Some s \<and> workers s 0 = At Reclaim \<and> cpc (ring s) = CHead 1 0 \<and> \<not> data_race (ring s) 0"
proof -
  obtain s where s: "mail_run 0 stale_run mail_two = Some s" "workers s 0 = At Reclaim" "workers s 1 = InPopN (CHead 1 0)"
    using stale_run_result by auto
  then show ?thesis using inbox_single_consumer [OF mail_two_reach [OF s(1)]] by auto
qed

text \<open>
  C5. Nothing is stranded at the level of atomic accesses. From every reachable state, the work under way (a \<open>Push\<close> that
  holds the lock, grow included, senders before \<open>schedule\<close>, processors) cannot take steps forever other than
  spinning in place, and as long as it is unfinished some goroutine can take such a step. Where it ends no goroutine is
  left in the inbox, and unless the inbox is stopped everything pushed has been handed to \<open>Invoke\<close>,
  in order, although a processor's \<open>Len\<close> may have counted items another one was draining.
\<close>
theorem inbox_ring_delivers:
  assumes "mail_reach zero sz s"
  shows "\<not> (\<exists>f. f 0 = s \<and> (\<forall>n. mail_work zero (f n) (f (Suc n)) \<and> f (Suc n) \<noteq> f n)) \<and>
    (\<forall>t. (mail_work zero)\<^sup>*\<^sup>* s t \<and> \<not> (\<exists>u. mail_work zero t u \<and> u \<noteq> t) \<longrightarrow>
       mail_quiet t \<and> (procStatus (mbox s) \<noteq> StateStopped \<longrightarrow> handed t = hist (ring t)))"
proof (intro conjI notI allI impI; elim exE conjE)
  let ?inv = "mail_inv zero (nat (sint (roundUpPow2 sz)))"
  have inv: "?inv s" using assms by (rule mail_reach_inv)
  show False if "f 0 = s" "\<forall>n. mail_work zero (f n) (f (Suc n)) \<and> f (Suc n) \<noteq> f n" for f
    using mail_terminates [of zero "nat (sint (roundUpPow2 sz))" f] inv that by auto
  fix t assume t: "(mail_work zero)\<^sup>*\<^sup>* s t" "\<not> (\<exists>u. mail_work zero t u \<and> u \<noteq> t)"
  note it = mail_work_steps [OF t(1) inv]
  then show "mail_quiet t" using mail_progress [OF conjunct1 [OF it]] t(2) by blast
  then show "handed t = hist (ring t)" if "procStatus (mbox s) \<noteq> StateStopped"
    using quiet_delivered [OF conjunct1 [OF it]] it that by simp
qed

theorem inbox_ring_delivers_witness:
  "\<exists>s. mail_run 0 spurious_run mail_two = Some s \<and> workers s 0 = At RunTop \<and> lengthA (ring s) = 0 \<and>
     \<not> (\<exists>f. f 0 = s \<and> (\<forall>n. mail_work 0 (f n) (f (Suc n)) \<and> f (Suc n) \<noteq> f n))"
proof -
  obtain s where s: "mail_run 0 spurious_run mail_two = Some s" "workers s 0 = At RunTop" "lengthA (ring s) = 0"
    using spurious_run_result by auto
  then show ?thesis using inbox_ring_delivers [OF mail_two_reach [OF s(1)]] by blast
qed

end
