(* ===== verification/Mailbox.thy ===== *)
theory Mailbox
  imports Inbox
begin

text \<open>
  The mailbox as the engine sees it: the inbox over a plain list. The list is a second model of
  the contract \<open>fifo_queue\<close>, and \<open>inbox_refines_mailbox\<close> shows that every step of the inbox
  over the ring buffer is a step of the inbox over the list it holds, so the engine model
  uses lists and loses nothing.
\<close>

definition list_new :: "int64 \<Rightarrow> 'e list outcome" where
  "list_new sz = Return []"

definition list_push :: "'e \<Rightarrow> 'e list \<Rightarrow> (bool \<times> 'e list) outcome" where
  "list_push e q = Return (True, q @ [e])"

definition list_popn :: "int64 \<Rightarrow> 'e list \<Rightarrow> (('e list \<times> bool) \<times> 'e list) outcome" where
  "list_popn n q =
     (if sint n \<le> 0 \<or> q = [] then Return (([], False), q)
      else Return ((take (nat (sint n)) q, True), drop (nat (sint n)) q))"

text \<open>The inbox only compares \<open>Len()\<close> with 0.\<close>

definition list_len :: "'e list \<Rightarrow> int64" where
  "list_len q = (if q = [] then 0 else 1)"

text \<open>
  A processor that re-checks the buffer runs beside one that is inside \<open>PopN\<close>, and \<open>Len\<close> counts the items of a
  batch until \<open>PopN\<close> has copied them. Where \<open>PopN\<close> is one step, \<open>Len\<close> is therefore exact or, while another
  processor drains, too large: \<open>seen_len exact\<close> is what the inbox reads.
\<close>

definition seen_len :: "bool \<Rightarrow> 'e list \<Rightarrow> int64" where
  "seen_len exact q = (if exact then list_len q else 1)"

lemma seen_len_zero: "seen_len exact q = 0 \<Longrightarrow> q = []"
  by (simp add: seen_len_def list_len_def split: if_splits)

interpretation lq: fifo_queue list_push list_popn list_len "\<lambda>q. q" "\<lambda>_. True" "\<lambda>_ _. True"
  by unfold_locales (auto simp: list_push_def list_popn_def list_len_def)

definition mailbox_of :: "'e RingBuffer Inbox \<Rightarrow> 'e list Inbox" where
  "mailbox_of ib = \<lparr>rb = rb_list (rb ib), proc = proc ib, throughput = throughput ib, procStatus = procStatus ib\<rparr>"

lemma mailbox_of_simps [simp]:
  "rb (mailbox_of ib) = rb_list (rb ib)" "proc (mailbox_of ib) = proc ib"
  "throughput (mailbox_of ib) = throughput ib" "procStatus (mailbox_of ib) = procStatus ib"
  "mailbox_of (ib\<lparr>procStatus := st\<rparr>) = (mailbox_of ib)\<lparr>procStatus := st\<rparr>"
  "mailbox_of (ib\<lparr>rb := q\<rparr>) = (mailbox_of ib)\<lparr>rb := rb_list q\<rparr>"
  by (simp_all add: mailbox_of_def)

lemma popn_refines:
  assumes "rb_inv zero q"
  obtains b q' where "PopN zero n q = Return (b, q')" "list_popn n (rb_list q) = Return (b, rb_list q')"
    "rb_inv zero q'"
proof (cases "sint n \<le> 0 \<or> rb_list q = []")
  case True
  then show ?thesis using that assms rbq.popn_empty [OF assms True] by (auto simp: list_popn_def)
next
  case False
  then obtain q' where "PopN zero n q = Return ((take (nat (sint n)) (rb_list q), True), q')"
    "rb_inv zero q'" "rb_list q' = drop (nat (sint n)) (rb_list q)"
    using rbq.popn_ok [OF assms, of n] by auto
  then show ?thesis using that False by (auto simp: list_popn_def)
qed

text \<open>
  C18. The inbox over the ring buffer refines the mailbox over a list. Creating it gives the
  empty mailbox; \<open>Send\<close>'s push (while the 63-bit cursors have room), \<open>schedule\<close>, \<open>Stop\<close> and every
  step of a processor commute with reading the buffer as a list, keep the buffer's
  invariant, never panic, and block exactly when the list version does.
\<close>
theorem inbox_refines_mailbox:
  assumes "rb_inv zero (rb ib)"
  shows "(\<exists>ib0. NewInbox (New zero) sz = Return ib0 \<and> NewInbox list_new sz = Return (mailbox_of ib0) \<and>
        rb_inv zero (rb ib0)) \<and>
    (rb_room (Suc 0) (rb ib) \<longrightarrow> (\<exists>ib'. Inbox_push (Push zero) e ib = Return ib' \<and>
        Inbox_push list_push e (mailbox_of ib) = Return (mailbox_of ib') \<and> rb_inv zero (rb ib'))) \<and>
    schedule (mailbox_of ib) = (fst (schedule ib), mailbox_of (snd (schedule ib))) \<and>
    Inbox_Stop (mailbox_of ib) = mailbox_of (Inbox_Stop ib) \<and>
    (case process_next (PopN zero) Len ib pc of
       Return (ib', pc') \<Rightarrow> rb_inv zero (rb ib') \<and>
         process_next list_popn list_len (mailbox_of ib) pc = Return (mailbox_of ib', pc')
     | Block \<Rightarrow> process_next list_popn list_len (mailbox_of ib) pc = Block
     | Panic p \<Rightarrow> False)"
proof (intro conjI impI)
  obtain q where "New zero sz = Return q" "rb_inv zero q" "rb_list q = []" using New_spec [of zero sz] by metis
  then show "\<exists>ib0. NewInbox (New zero) sz = Return ib0 \<and> NewInbox list_new sz = Return (mailbox_of ib0) \<and>
        rb_inv zero (rb ib0)" by (simp add: NewInbox_def list_new_def mailbox_of_def)
next
  assume "rb_room (Suc 0) (rb ib)"
  then show "\<exists>ib'. Inbox_push (Push zero) e ib = Return ib' \<and>
        Inbox_push list_push e (mailbox_of ib) = Return (mailbox_of ib') \<and> rb_inv zero (rb ib')"
    using rbq.push_ok [OF assms, of 0 e] by (auto simp: Inbox_push_def list_push_def)
next
  show "schedule (mailbox_of ib) = (fst (schedule ib), mailbox_of (snd (schedule ib)))"
    by (simp add: schedule_def cas_status_def)
  show "Inbox_Stop (mailbox_of ib) = mailbox_of (Inbox_Stop ib)" by (simp add: Inbox_Stop_def)
  have len: "list_len (rb_list (rb ib)) = 0 \<longleftrightarrow> Len (rb ib) = 0"
    using rbq.qlen_zero [OF assms] by (simp add: list_len_def)
  show "case process_next (PopN zero) Len ib pc of
       Return (ib', pc') \<Rightarrow> rb_inv zero (rb ib') \<and>
         process_next list_popn list_len (mailbox_of ib) pc = Return (mailbox_of ib', pc')
     | Block \<Rightarrow> process_next list_popn list_len (mailbox_of ib) pc = Block
     | Panic p \<Rightarrow> False"
  proof (cases pc)
    case RunPop
    obtain b ok q' where "PopN zero (throughput ib) (rb ib) = Return ((b, ok), q')"
      "list_popn (throughput ib) (rb_list (rb ib)) = Return ((b, ok), rb_list q')" "rb_inv zero q'"
      by (rule popn_refines [OF assms, of "throughput ib"]) (metis prod.collapse)
    then show ?thesis using RunPop by simp
  qed (use assms len in \<open>auto simp: cas_status_def\<close>)
qed

theorem inbox_refines_mailbox_witness:
  "\<exists>ib'. Inbox_push (Push 0) 7 (ibox inbox_two) = Return ib' \<and> rb (mailbox_of ib') = [7]"
proof -
  have "rb_inv 0 (rb (ibox inbox_two))" "rb_room (Suc 0) (rb (ibox inbox_two))" "rb_list (rb (ibox inbox_two)) = []"
    using rb_two_ok by (simp_all add: inbox_two_def inbox_init_def)
  then show ?thesis
    using inbox_refines_mailbox [of 0 "ibox inbox_two" 0 7 Exited] by (auto simp: Inbox_push_def list_push_def mailbox_of_def)
qed

end
