(* ===== verification/Inbox_Atomic.thy ===== *)
theory Inbox_Atomic
  imports Inbox_Conc Mailbox
begin

text \<open>
  Why a push and a batch pop may be one step each. \<open>mailbox_view\<close> reads a state of the inbox over the interleaved ring
  buffer as a state of the mailbox over a list: a push takes effect where its item is counted, a batch
  pop where it reads that count. Every atomic access is then a step of the mailbox or changes nothing
  in it. The mailbox is the one the engine uses, whose \<open>Len\<close> may be too large during a drain.
\<close>

section \<open>The view\<close>

fun claimed :: "'e consumer_pc \<Rightarrow> nat" where
  "claimed CIdle = 0"
| "claimed (CLen n) = 0"
| "claimed (CEnter n) = n"
| "claimed (CTest n) = n"
| "claimed (CBack n) = n"
| "claimed (CWait n) = n"
| "claimed (CContent n) = n"
| "claimed (CHead n b) = n"
| "claimed (CRun b h n ops acc) = n"
| "claimed (CStoreHead h n acc) = n"
| "claimed (CLeave acc) = 0"

definition published :: "'e rb_state \<Rightarrow> 'e list" where
  "published r = take (tailA r - unpublished (active r)) (hist r)"

definition taken :: "'e rb_state \<Rightarrow> nat" where
  "taken r = headA r + claimed (cpc r)"

fun seen_pc :: "'e rb_state \<Rightarrow> 'e worker_pc \<Rightarrow> 'e processor_pc" where
  "seen_pc r (At pc) = pc"
| "seen_pc r (InPopN (CLen n)) = RunPop"
| "seen_pc r (InPopN (CLeave acc)) = RunInvoke acc"
| "seen_pc r (InPopN c) = RunInvoke (take (claimed c) (drop (headA r) (hist r)))"

definition mailbox_view :: "'e mail_sys \<Rightarrow> ('e list, 'e) inbox_sys" where
  "mailbox_view s =
     \<lparr>ibox = \<lparr>rb = drop (taken (ring s)) (published (ring s)), proc = proc (mbox s), throughput = throughput (mbox s),
         procStatus = procStatus (mbox s)\<rparr>,
      pushed = (\<lambda>p. sending s p \<or> ppc (ring s) p = PUnlock), processors = (\<lambda>g. seen_pc (ring s) (workers s g)),
      sentH = published (ring s), invokedH = take (taken (ring s)) (published (ring s))\<rparr>"

definition mailbox_step :: "('e list, 'e) inbox_sys \<Rightarrow> ('e list, 'e) inbox_sys \<Rightarrow> bool" where
  "mailbox_step a b \<longleftrightarrow> (\<exists>exact. inbox_step list_push list_popn (seen_len exact) (\<lambda>_ _. True) a b)"

definition matched :: "'e mail_sys \<Rightarrow> 'e mail_sys \<Rightarrow> bool" where
  "matched s s' \<longleftrightarrow> mailbox_view s' = mailbox_view s \<or> mailbox_step (mailbox_view s) (mailbox_view s')"

lemma ring_counts:
  assumes "rb_safe r"
  shows "taken r \<le> length (published r)" "length (published r) = tailA r - unpublished (active r)" "tailA r = length (hist r)"
    "length (published r) - taken r + claimed (cpc r) = lengthA r + unreleased (cpc r)"
    "headA r + claimed (cpc r) \<le> length (hist r)"
proof -
  have d: "headA r \<le> tailA r" "tailA r = length (hist r)" "lengthA r + unpublished (active r) + unreleased (cpc r) = tailA r - headA r"
    "consumer_inv r (cpc r)"
    using assms by (auto simp: rb_safe_def rb_conc_inv_def data_inv_def)
  then show len: "length (published r) = tailA r - unpublished (active r)" "tailA r = length (hist r)"
    by (simp_all add: published_def)
  have "claimed (cpc r) \<le> lengthA r + unreleased (cpc r)" using d(4) by (cases "cpc r") auto
  then show "taken r \<le> length (published r)" "length (published r) - taken r + claimed (cpc r) = lengthA r + unreleased (cpc r)"
    "headA r + claimed (cpc r) \<le> length (hist r)"
    using d(1-3) len by (auto simp: taken_def)
qed

lemma view_eqI:
  assumes "published (ring s') = published (ring s)" "taken (ring s') = taken (ring s)"
    "proc (mbox s') = proc (mbox s)" "throughput (mbox s') = throughput (mbox s)" "procStatus (mbox s') = procStatus (mbox s)"
    "\<And>p. sending s' p \<or> ppc (ring s') p = PUnlock \<longleftrightarrow> sending s p \<or> ppc (ring s) p = PUnlock"
    "\<And>g. seen_pc (ring s') (workers s' g) = seen_pc (ring s) (workers s g)"
  shows "matched s s'"
  using assms by (simp add: matched_def mailbox_view_def)

lemma seen_pc_cong:
  assumes "headA r' = headA r" "\<And>k. headA r + k \<le> length (hist r) \<Longrightarrow> take k (drop (headA r) (hist r')) = take k (drop (headA r) (hist r))"
    "\<And>c. w = InPopN c \<Longrightarrow> headA r + claimed c \<le> length (hist r)"
  shows "seen_pc r' w = seen_pc r w"
proof (cases w)
  case (InPopN c)
  then show ?thesis using assms(1) assms(2) [OF assms(3) [OF InPopN]] by (cases c) auto
qed simp

lemma seen_pc_cpc [simp]: "seen_pc (r\<lparr>cpc := c\<rparr>) w = seen_pc r w"
  by (cases "(r, w)" rule: seen_pc.cases) auto

lemma published_cpc [simp]: "published (r\<lparr>cpc := c\<rparr>) = published r"
  by (simp add: published_def)

section \<open>Every step is matched\<close>

lemma worker_claims:
  assumes "mail_inv zero cap s" "workers s g = InPopN c"
  shows "headA (ring s) + claimed c \<le> length (hist (ring s))"
  using assms ring_counts(5) [OF mail_inv_safe [OF assms(1)]] by (auto simp: mail_inv_def cpc_mirrors_def)

lemma count_matched:
  assumes inv: "mail_inv zero cap s" and p: "ppc (ring s) p = PAddLen"
  shows "matched s (s\<lparr>mbox := (mbox s)\<lparr>rb := (ring s)\<lparr>lengthA := Suc (lengthA (ring s)), ppc := (ppc (ring s))(p := PUnlock)\<rparr>\<rparr>,
     sending := (sending s)(p := False)\<rparr>)" (is "matched s ?s")
proof -
  note safe = mail_inv_safe [OF inv]
  let ?pub = "published (ring s)" and ?e = "last (hist (ring s))"
  have mu: "muL (ring s) = Some p" "\<not> sending s p" and act: "active (ring s) = PAddLen"
    using pushing [OF inv, of p] p by auto
  have tail: "tailA (ring s) = length (hist (ring s))" using ring_counts(3) [OF safe] .
  have ne: "hist (ring s) \<noteq> []" using safe act tail by (auto simp: rb_safe_def rb_conc_inv_def data_inv_def)
  have pub: "?pub = butlast (hist (ring s))" using act tail by (simp add: published_def butlast_conv_take)
  have "published (ring ?s) = hist (ring s)" using mu(1) tail by (simp add: published_def active_def)
  then have pub': "published (ring ?s) = ?pub @ [?e]" using ne by (simp add: pub)
  have tk: "taken (ring ?s) = taken (ring s)" by (simp add: taken_def)
  have le: "taken (ring s) \<le> length ?pub" by (rule ring_counts(1) [OF safe])
  have seen: "seen_pc (ring ?s) (workers s g) = seen_pc (ring s) (workers s g)" for g
    using worker_claims [OF inv] by (intro seen_pc_cong) auto
  let ?ib = "(ibox (mailbox_view s))\<lparr>rb := drop (taken (ring s)) ?pub @ [?e]\<rparr>"
  let ?t = "(mailbox_view s)\<lparr>ibox := ?ib, pushed := (pushed (mailbox_view s))(p := True), sentH := ?pub @ [?e]\<rparr>"
  have "mailbox_view ?s = ?t" using le pub' tk seen by (simp add: mailbox_view_def fun_eq_iff)
  moreover have "inbox_step list_push list_popn (seen_len True) (\<lambda>_ _. True) (mailbox_view s) ?t"
    using inbox_step.send_push [of "mailbox_view s" p "\<lambda>_ _. True" list_push ?e ?ib list_popn "seen_len True"] mu(2) p
    by (simp add: mailbox_view_def Inbox_push_def list_push_def)
  ultimately show ?thesis unfolding matched_def mailbox_step_def by metis
qed

lemma in_push_matched:
  assumes inv: "mail_inv zero cap s" and e: "producer_next zero (ring s) (ppc (ring s) p) = Some (r, pc)"
  shows "matched s (s\<lparr>mbox := (mbox s)\<lparr>rb := r\<lparr>ppc := (ppc r)(p := pc)\<rparr>\<rparr>, sending := (sending s)(p := (pc = PIdle))\<rparr>)"
    (is "matched s ?s")
proof (cases "ppc (ring s) p = PAddLen")
  case True
  then show ?thesis using e count_matched [OF inv True] by auto
next
  case False
  note safe = mail_inv_safe [OF inv]
  have "ppc (ring s) p \<noteq> PIdle" using e by auto
  note mu = pushing(1,2) [OF inv this] and act = pushing(3) [OF inv this]
  note fr = producer_next_frame [OF e]
  have act': "active (ring ?s) = pc" using fr mu(1) by (simp add: active_def)
  have tail: "tailA (ring s) = length (hist (ring s))" using ring_counts(3) [OF safe] .
  have head: "headA r = headA (ring s)" and unlock: "ppc (ring s) p = PUnlock \<longleftrightarrow> pc = PIdle" "pc \<noteq> PUnlock"
    using e False by (cases "ppc (ring s) p"; auto simp: Let_def split: if_splits)+
  have hist: "hist r = hist (ring s) \<and> tailA r = tailA (ring s) \<and> unpublished pc = 0 \<or>
      (\<exists>x. hist r = hist (ring s) @ [x] \<and> tailA r = Suc (length (hist (ring s))) \<and> unpublished pc = 1)"
    using e False act safe tail by (cases "ppc (ring s) p") (auto simp: Let_def rb_safe_def rb_conc_inv_def split: if_splits)
  show ?thesis
  proof (rule view_eqI)
    have "unpublished (active (ring s)) = 0" using act False by (cases "ppc (ring s) p") auto
    then show "published (ring ?s) = published (ring s)" using act' hist tail by (auto simp: published_def)
    show "seen_pc (ring ?s) (workers ?s g) = seen_pc (ring s) (workers s g)" for g
      using head hist worker_claims [OF inv] by (simp, intro seen_pc_cong) auto
  qed (use head mu fr unlock in \<open>auto simp: taken_def\<close>)
qed

lemma schedule_matched:
  assumes "sending s p" "schedule (mbox s) = (True, ib)" "workers s g = At Exited" "ppc (ring s) p = PIdle"
  shows "matched s (s\<lparr>mbox := ib, sending := (sending s)(p := False), workers := (workers s)(g := At RunTop)\<rparr>)" (is "matched s ?s")
proof -
  have ib: "ib = (mbox s)\<lparr>procStatus := StateRunning\<rparr>" "procStatus (mbox s) = StateIdle"
    using assms(2) by (auto simp: schedule_def cas_status_def split: if_splits)
  let ?v = "mailbox_view s"
  have "mailbox_view ?s = ?v\<lparr>ibox := (ibox ?v)\<lparr>procStatus := StateRunning\<rparr>, pushed := (pushed ?v)(p := False),
      processors := (processors ?v)(g := RunTop)\<rparr>"
    using ib assms(4) by (simp add: mailbox_view_def fun_eq_iff)
  moreover have "inbox_work list_popn (seen_len True) ?v \<dots>"
    using assms(1,3) ib(2) by (intro inbox_work.send_start) (simp_all add: mailbox_view_def schedule_def)
  ultimately show ?thesis unfolding matched_def mailbox_step_def by (metis inbox_step.work)
qed

lemma skip_matched:
  assumes "sending s p" "schedule (mbox s) = (False, ib)" "ppc (ring s) p = PIdle"
  shows "matched s (s\<lparr>mbox := ib, sending := (sending s)(p := False)\<rparr>)" (is "matched s ?s")
proof -
  have ib: "ib = mbox s" "procStatus (mbox s) \<noteq> StateIdle"
    using assms(2) by (auto simp: schedule_def cas_status_def split: if_splits)
  let ?v = "mailbox_view s"
  have "mailbox_view ?s = ?v\<lparr>ibox := ibox ?v, pushed := (pushed ?v)(p := False)\<rparr>"
    using ib assms(3) by (simp add: mailbox_view_def fun_eq_iff)
  moreover have "inbox_work list_popn (seen_len True) ?v \<dots>"
    using assms(1) ib(2) by (intro inbox_work.send_skip) (simp_all add: mailbox_view_def schedule_def)
  ultimately show ?thesis unfolding matched_def mailbox_step_def by (metis inbox_step.work)
qed

lemma stop_matched: "matched s (s\<lparr>mbox := Inbox_Stop (mbox s)\<rparr>)" (is "matched s ?s")
proof -
  have "mailbox_view ?s = (mailbox_view s)\<lparr>ibox := Inbox_Stop (ibox (mailbox_view s))\<rparr>"
    by (simp add: mailbox_view_def Inbox_Stop_def)
  then show ?thesis unfolding matched_def mailbox_step_def by (metis inbox_step.stop)
qed

lemma lock_matched:
  assumes "mail_inv zero cap s" "ppc (ring s) p = PIdle" "muL (ring s) = None"
  shows "matched s (s\<lparr>mbox := (mbox s)\<lparr>rb := (ring s)\<lparr>muL := Some p, ppc := (ppc (ring s))(p := PLocked e)\<rparr>\<rparr>\<rparr>)"
    (is "matched s ?s")
proof (rule view_eqI)
  show "published (ring ?s) = published (ring s)" using assms(3) by (simp add: published_def active_def)
  show "seen_pc (ring ?s) (workers ?s g) = seen_pc (ring s) (workers s g)" for g
    using worker_claims [OF assms(1)] by (simp, intro seen_pc_cong) auto
qed (use assms(2) in \<open>auto simp: taken_def\<close>)

text \<open>The steps of a processor goroutine.\<close>

lemma queue_empty:
  assumes "mail_inv zero cap s" "lengthA (ring s) = 0"
  shows "drop (taken (ring s)) (published (ring s)) = []"
proof -
  have "unreleased (cpc (ring s)) \<le> claimed (cpc (ring s))" by (cases "cpc (ring s)") auto
  then show ?thesis using ring_counts(4) [OF mail_inv_safe [OF assms(1)]] assms(2) by simp
qed

lemma processor_matched:
  assumes "process_next list_popn (seen_len exact) (ibox (mailbox_view s)) (processors (mailbox_view s) g) = Return (ib, pc)"
    and "mailbox_view s' = (mailbox_view s)\<lparr>ibox := ib, processors := (processors (mailbox_view s))(g := pc),
       invokedH := invokedH (mailbox_view s) @ batch_of (processors (mailbox_view s) g) pc\<rparr>"
  shows "matched s s'"
  using inbox_step.work [OF inbox_work.processor [OF assms(1)]] assms(2) unfolding matched_def mailbox_step_def by metis

lemma at_matched:
  assumes inv: "mail_inv zero cap s" and g: "workers s g = At pc" "pc \<noteq> RunPop"
    and e: "process_next (\<lambda>_ _. Block) ring_len (mbox s) pc = Return (ib, pc')"
  shows "matched s (s\<lparr>mbox := ib, workers := (workers s)(g := At pc')\<rparr>)" (is "matched s ?s")
proof (rule processor_matched)
  let ?v = "mailbox_view s"
  have ib: "ib = (mbox s)\<lparr>procStatus := procStatus ib\<rparr>"
    using e g(2) by (cases pc) (auto simp: cas_status_def split: if_splits)
  show "process_next list_popn (seen_len (lengthA (ring s) = 0)) (ibox ?v) (processors ?v g) =
      Return ((ibox ?v)\<lparr>procStatus := procStatus ib\<rparr>, pc')"
    using e g queue_empty [OF inv]
    by (cases pc) (auto simp: mailbox_view_def cas_status_def ring_len_def seen_len_def list_len_def split: if_splits)
  have "batch_of pc pc' = []" using g(2) by (cases pc) auto
  then show "mailbox_view ?s = ?v\<lparr>ibox := (ibox ?v)\<lparr>procStatus := procStatus ib\<rparr>, processors := (processors ?v)(g := pc'),
      invokedH := invokedH ?v @ batch_of (processors ?v g) pc'\<rparr>"
    using g(1) by (subst ib) (simp add: mailbox_view_def fun_eq_iff)
qed

lemma call_matched:
  assumes inv: "mail_inv zero cap s" and g: "workers s g = At RunPop"
  shows "matched s (s\<lparr>mbox := (mbox s)\<lparr>rb := (ring s)\<lparr>cpc := CLen 300\<rparr>\<rparr>, workers := (workers s)(g := InPopN (CLen 300))\<rparr>)"
    (is "matched s ?s")
proof (rule view_eqI)
  have d: "draining (workers s g)" using g by simp
  have other: "workers s h \<noteq> InPopN c" for h c using draining_alone(3) [OF inv d] g by force
  then have "cpc (ring s) = CIdle" using inv by (simp add: mail_inv_def cpc_mirrors_def)
  then show "taken (ring ?s) = taken (ring s)" by (simp add: taken_def)
  show "seen_pc (ring ?s) (workers ?s h) = seen_pc (ring s) (workers s h)" for h using g by simp
qed simp_all

lemma idle_queue:
  assumes "rb_safe r" "claimed (cpc r) = 0" "unreleased (cpc r) = 0"
  shows "drop (taken r) (published r) = take (lengthA r) (drop (headA r) (hist r))"
proof -
  have "tailA r - unpublished (active r) = lengthA r + headA r"
    using ring_counts(1,2,4) [OF assms(1)] assms(2,3) by (simp add: taken_def)
  then show ?thesis using assms(2) by (simp add: taken_def published_def take_drop)
qed

lemma read_len_matched:
  assumes inv: "mail_inv zero cap s" and g: "workers s g = InPopN (CLen n)"
    and e: "consumer_next zero (ring s) (CLen n) = Some (r, c')"
  shows "matched s (s\<lparr>mbox := (mbox s)\<lparr>rb := r\<lparr>cpc := c'\<rparr>\<rparr>, workers := (workers s)(g := popn_return (CLen n) c'), handed := h\<rparr>)"
    (is "matched s ?s")
proof (rule processor_matched)
  note safe = mail_inv_safe [OF inv]
  let ?v = "mailbox_view s" and ?pc = "seen_pc (ring s) (popn_return (CLen n) c')"
  define q where "q = drop (taken (ring s)) (published (ring s))"
  define m where "m = min 300 (lengthA (ring s))"
  have cpc: "cpc (ring s) = CLen n" using inv g by (simp add: mail_inv_def cpc_mirrors_def)
  then have n: "n = 300" using inv by (simp add: mail_inv_def hands_ok_def)
  have "length q = length (published (ring s)) - taken (ring s)" by (simp add: q_def)
  then have q: "q = take (lengthA (ring s)) (drop (headA (ring s)) (hist (ring s)))" "length q = lengthA (ring s)"
    using idle_queue [OF safe] ring_counts(4) [OF safe] cpc by (simp_all add: q_def)
  have r: "r = ring s" "c' = (if lengthA (ring s) = 0 then CIdle else CEnter m)"
    using e n by (auto simp: m_def split: if_splits)
  then have pc: "?pc = (if q = [] then ParkCAS else RunInvoke (take 300 q))"
    using q by (auto simp: m_def)
  show "process_next list_popn (seen_len True) (ibox ?v) (processors ?v g) = Return ((ibox ?v)\<lparr>rb := drop 300 q\<rparr>, ?pc)"
    using g inv pc by (simp add: mailbox_view_def list_popn_def q_def [symmetric] mail_inv_def)
  have taken: "taken (ring ?s) = taken (ring s) + length (take 300 q)" using r cpc q(2) by (simp add: taken_def m_def min.commute)
  have "drop (length (take 300 q)) q = drop 300 q" by (simp add: min_def)
  then have "drop (taken (ring ?s)) (published (ring s)) = drop 300 q"
    unfolding taken by (simp add: q_def add.commute)
  moreover have "take (taken (ring ?s)) (published (ring s)) = take (taken (ring s)) (published (ring s)) @ take 300 q"
    unfolding taken take_add q_def [symmetric] by (simp add: min_def)
  ultimately show "mailbox_view ?s = ?v\<lparr>ibox := (ibox ?v)\<lparr>rb := drop 300 q\<rparr>, processors := (processors ?v)(g := ?pc),
      invokedH := invokedH ?v @ batch_of (processors ?v g) ?pc\<rparr>"
    using g r(1) pc by (simp add: mailbox_view_def fun_eq_iff)
qed

lemma in_popn_view:
  assumes "consumer_next zero r c = Some (r', c')" "consumer_inv r c" "\<forall>n. c \<noteq> CLen n"
    "headA r + claimed c \<le> length (hist r)"
  shows "hist r' = hist r \<and> tailA r' = tailA r \<and> headA r' + claimed c' = headA r + claimed c \<and>
    seen_pc r' (popn_return c c') = seen_pc r (InPopN c)"
  using assms by (cases "(zero, r, c)" rule: consumer_next.cases) (auto simp: map_nth_segment split: if_splits)

lemma in_popn_matched:
  assumes inv: "mail_inv zero cap s" and g: "workers s g = InPopN c"
    and e: "consumer_next zero (ring s) c = Some (r, c')"
  shows "matched s (s\<lparr>mbox := (mbox s)\<lparr>rb := r\<lparr>cpc := c'\<rparr>\<rparr>, workers := (workers s)(g := popn_return c c'), handed := h\<rparr>)"
    (is "matched s ?s")
proof (cases "\<exists>n. c = CLen n")
  case True
  then show ?thesis using read_len_matched [OF inv] g e by blast
next
  case False
  note safe = mail_inv_safe [OF inv]
  have d: "draining (workers s g)" using g by simp
  have c: "c = cpc (ring s)" using inv g by (simp add: mail_inv_def cpc_mirrors_def)
  have ci: "consumer_inv (ring s) c" using safe c by (simp add: rb_safe_def rb_conc_inv_def)
  have v: "hist r = hist (ring s)" "tailA r = tailA (ring s)" "headA r + claimed c' = headA (ring s) + claimed c"
    "seen_pc r (popn_return c c') = seen_pc (ring s) (InPopN c)"
    using in_popn_view [OF e ci _ worker_claims [OF inv g]] False by blast+
  have act: "active r = active (ring s)"
    using consumer_next_frame [OF e] by (simp add: active_def cong: option.case_cong)
  show ?thesis
  proof (rule view_eqI)
    show "published (ring ?s) = published (ring s)" using v act by (simp add: published_def)
    show "taken (ring ?s) = taken (ring s)" using v(3) c by (simp add: taken_def)
    have "seen_pc r (workers s h) = seen_pc (ring s) (workers s h)" if "h \<noteq> g" for h
      using draining_alone(3) [OF inv d] that by (cases "workers s h") auto
    then show "seen_pc (ring ?s) (workers ?s h) = seen_pc (ring s) (workers s h)" for h using g v(4) by simp
  qed (use consumer_next_frame [OF e] in simp_all)
qed

lemma worker_matched:
  assumes inv: "mail_inv zero cap s" and e: "worker_next zero (mbox s) (workers s g) = Some (ib, pc)"
  shows "matched s (s\<lparr>mbox := ib, workers := (workers s)(g := pc), handed := handed s @ handover (workers s g) pc\<rparr>)"
proof (rule worker_next_cases [OF inv e])
  fix c r c' assume "workers s g = InPopN c" "consumer_next zero (ring s) c = Some (r, c')"
    "ib = (mbox s)\<lparr>rb := r\<lparr>cpc := c'\<rparr>\<rparr>" "pc = popn_return c c'"
  then show ?thesis using in_popn_matched [OF inv] by simp
next
  assume "workers s g = At RunPop" "ib = (mbox s)\<lparr>rb := (ring s)\<lparr>cpc := CLen 300\<rparr>\<rparr>" "pc = InPopN (CLen 300)"
  then show ?thesis using call_matched [OF inv, of g] by simp
next
  fix p p' assume "workers s g = At p" "p \<noteq> RunPop" "pc = At p'"
    "process_next (\<lambda>_ _. Block) ring_len (mbox s) p = Return (ib, p')"
  then show ?thesis using at_matched [OF inv, of g p ib p'] by simp
qed

lemma mail_step_matched:
  assumes "mail_step zero s s'" "mail_inv zero cap s"
  shows "matched s s'"
  using assms(1)
proof (cases rule: mail_step.cases)
  case work
  then show ?thesis
  proof (cases rule: mail_work.cases)
    case in_push
    then show ?thesis using in_push_matched [OF assms(2)] by simp
  next
    case (send_start p ib g)
    then show ?thesis using schedule_matched [of s p ib g] assms(2) by (simp add: mail_inv_def)
  next
    case (send_skip p ib)
    then show ?thesis using skip_matched [of s p ib] assms(2) by (simp add: mail_inv_def)
  next
    case worker
    then show ?thesis using worker_matched [OF assms(2)] by simp
  qed
next
  case send_lock
  then show ?thesis using lock_matched [OF assms(2)] by simp
qed (simp add: stop_matched)

lemma handed_view:
  assumes inv: "mail_inv zero cap s"
  shows "\<exists>batch. invokedH (mailbox_view s) = handed s @ batch \<and> (cpc (ring s) = CIdle \<longrightarrow> batch = [])"
proof -
  note safe = mail_inv_safe [OF inv]
  let ?r = "ring s"
  have "out ?r = take (headA ?r) (published ?r)"
    using rb_safe_linear(1) [OF safe] ring_counts(1,2) [OF safe] by (simp add: published_def taken_def min_def)
  then have "take (taken ?r) (published ?r) = out ?r @ take (claimed (cpc ?r)) (drop (headA ?r) (published ?r))"
    by (simp add: taken_def take_add)
  moreover have "out ?r = handed s @ leaving (cpc ?r)" using inv by (simp add: mail_inv_def hands_ok_def)
  ultimately show ?thesis by (auto simp: mailbox_view_def)
qed

lemma stale_view:
  "map_option (\<lambda>s. (handed s, invokedH (mailbox_view s))) (mail_run 0 stale_run mail_two) = Some ([10], [10, 20])"
  by code_simp

section \<open>Property\<close>

text \<open>
  C6. The inbox over the interleaved ring buffer refines the mailbox over a list, in which a push and a batch pop are one
  step each. \<open>NewInbox\<close> gives the empty mailbox, and every atomic access of \<open>Send\<close>, \<open>Push\<close>, \<open>grow\<close>, \<open>process\<close>, \<open>run\<close>, \<open>PopN\<close>
  and \<open>Stop\<close>, in every interleaving, is a step of the mailbox or leaves it as it is; so every reachable state is
  seen as a reachable state of the mailbox. What was handed to \<open>Invoke\<close> there is what was handed over
  here, but for the batch that \<open>PopN\<close> has claimed and not yet returned.
\<close>
theorem inbox_refines_atomic_mailbox:
  assumes "NewInbox (ring_new zero) sz = Return ib" and "(mail_step zero)\<^sup>*\<^sup>* (mail_init ib) s"
  shows "(\<exists>lb. NewInbox list_new sz = Return lb \<and> mailbox_step\<^sup>*\<^sup>* (inbox_init lb) (mailbox_view s)) \<and>
    (\<forall>s'. mail_step zero s s' \<longrightarrow> mailbox_view s' = mailbox_view s \<or> mailbox_step (mailbox_view s) (mailbox_view s')) \<and>
    (\<exists>batch. invokedH (mailbox_view s) = handed s @ batch \<and> (cpc (ring s) = CIdle \<longrightarrow> batch = []))"
proof (intro conjI)
  let ?inv = "mail_inv zero (nat (sint (roundUpPow2 sz)))"
  have "?inv s" using assms mail_reach_inv [of zero sz s] by (auto simp: mail_reach_def)
  then show "\<forall>s'. mail_step zero s s' \<longrightarrow> mailbox_view s' = mailbox_view s \<or> mailbox_step (mailbox_view s) (mailbox_view s')"
    using mail_step_matched [OF _ \<open>?inv s\<close>] unfolding matched_def by blast
  let ?lb = "\<lparr>rb = [], proc = None, throughput = defaultThroughput, procStatus = StateIdle\<rparr>"
  have init: "mailbox_view (mail_init ib) = inbox_init ?lb"
    using assms(1) by (auto simp: NewInbox_def ring_new_def mailbox_view_def mail_init_def inbox_init_def published_def taken_def rb_init_def)
  have "mailbox_step\<^sup>*\<^sup>* (mailbox_view (mail_init ib)) (mailbox_view s) \<and> ?inv s"
    using assms(2)
  proof (induction rule: rtranclp_induct)
    case (step t u)
    then have inv: "?inv t" by simp
    have "mailbox_view u = mailbox_view t \<or> mailbox_step (mailbox_view t) (mailbox_view u)"
      using mail_step_matched [OF step(2) inv] by (simp add: matched_def)
    then show ?case using step(3) mail_step_keeps [OF step(2) inv] by (metis rtranclp.rtrancl_into_rtrancl)
  qed (simp add: mail_inv_init [OF assms(1)])
  then show "\<exists>lb. NewInbox list_new sz = Return lb \<and> mailbox_step\<^sup>*\<^sup>* (inbox_init lb) (mailbox_view s)"
    by (simp add: init NewInbox_def list_new_def)
  show "\<exists>batch. invokedH (mailbox_view s) = handed s @ batch \<and> (cpc (ring s) = CIdle \<longrightarrow> batch = [])"
    using handed_view [OF \<open>?inv s\<close>] .
qed

theorem inbox_refines_atomic_mailbox_witness:
  "\<exists>s. mail_run 0 stale_run mail_two = Some s \<and> handed s = [10] \<and> invokedH (mailbox_view s) = [10, 20] \<and>
     mailbox_step\<^sup>*\<^sup>* (inbox_init \<lparr>rb = [], proc = None, throughput = defaultThroughput, procStatus = StateIdle\<rparr>) (mailbox_view s)"
proof -
  let ?ib = "\<lparr>rb = rb_init (0 :: nat) 2, proc = None, throughput = defaultThroughput, procStatus = StateIdle\<rparr>"
  obtain s where s: "mail_run 0 stale_run mail_two = Some s" "handed s = [10]" "invokedH (mailbox_view s) = [10, 20]"
    using stale_view by auto
  have "NewInbox (ring_new 0) 0 = Return ?ib"
    by (simp add: NewInbox_def ring_new_def roundUpPow2_def minSize_def)
  moreover have "(mail_step 0)\<^sup>*\<^sup>* (mail_init ?ib) s" using mail_run_steps [OF s(1)] by (simp add: mail_two_def)
  ultimately show ?thesis using inbox_refines_atomic_mailbox [of 0 0 ?ib s] s by (auto simp: NewInbox_def list_new_def)
qed

end
