(* ===== verification/GoMap.thy ===== *)
theory GoMap
  imports Prelude "HOL-Library.AList" "HOL-Library.Multiset"
begin

text \<open>
  Go's built-in maps as association lists with distinct keys: reads, writes, \<open>delete\<close>, \<open>len\<close>,
  and \<open>range\<close>, whose order the language leaves open. An iteration takes a list of choices that
  fixes its order; \<open>range_order_perm\<close> and \<open>range_order_any\<close> show that the choices give exactly
  the permutations of the entries. The registry, the subscriber table and the child sets
  are such maps.
\<close>

named_theorems gomap_simps \<open>rewrite rules for reading a map after a write\<close>

type_synonym ('k, 'v) gomap = "('k \<times> 'v) list"

definition gm_wf :: "('k, 'v) gomap \<Rightarrow> bool" where
  "gm_wf m \<longleftrightarrow> distinct (map fst m)"

definition gm_get :: "('k, 'v) gomap \<Rightarrow> 'k \<Rightarrow> 'v option" where
  "gm_get m k = map_of m k"

definition gm_put :: "'k \<Rightarrow> 'v \<Rightarrow> ('k, 'v) gomap \<Rightarrow> ('k, 'v) gomap" where
  "gm_put k v m = AList.update k v m"

definition gm_del :: "'k \<Rightarrow> ('k, 'v) gomap \<Rightarrow> ('k, 'v) gomap" where
  "gm_del k m = AList.delete k m"

definition gm_len :: "('k, 'v) gomap \<Rightarrow> int64" where
  "gm_len m = of_nat (length m)"

fun range_order :: "nat list \<Rightarrow> 'a list \<Rightarrow> 'a list" where
  "range_order ns [] = []"
| "range_order [] xs = xs"
| "range_order (n # ns) xs =
     (let i = n mod length xs in xs ! i # range_order ns (take i xs @ drop (Suc i) xs))"

lemma gm_get_Nil [gomap_simps]: "gm_get [] k = None"
  by (simp add: gm_get_def)

lemma gm_get_put [gomap_simps]: "gm_get (gm_put k v m) k' = (if k' = k then Some v else gm_get m k')"
  by (simp add: gm_get_def gm_put_def update_conv')

lemma gm_get_del [gomap_simps]: "gm_get (gm_del k m) k' = (if k' = k then None else gm_get m k')"
  by (auto simp: gm_get_def gm_del_def delete_conv')

lemma gm_wf_Nil [simp]: "gm_wf []"
  by (simp add: gm_wf_def)

lemma gm_wf_put [simp]: "gm_wf m \<Longrightarrow> gm_wf (gm_put k v m)"
  by (simp add: gm_wf_def gm_put_def distinct_update)

lemma gm_wf_del [simp]: "gm_wf m \<Longrightarrow> gm_wf (gm_del k m)"
  by (simp add: gm_wf_def gm_del_def distinct_delete)

lemma gm_wf_filter [simp]: "gm_wf m \<Longrightarrow> gm_wf (filter P m)"
  by (auto simp: gm_wf_def intro: distinct_map_filter)

lemma gm_get_set: "gm_wf m \<Longrightarrow> gm_get m k = Some v \<longleftrightarrow> (k, v) \<in> set m"
  by (simp add: gm_wf_def gm_get_def)

lemma gm_get_in: "gm_get m k = Some v \<Longrightarrow> (k, v) \<in> set m"
  by (simp add: gm_get_def map_of_SomeD)

lemma gm_len_del:
  assumes "gm_wf m"
  shows "length (gm_del k m) = length m - (if gm_get m k = None then 0 else 1)"
proof -
  have keys: "length m' = card (fst ` set m')" if "gm_wf m'" for m' :: "('a, 'b) gomap"
    using that by (metis distinct_card gm_wf_def length_map list.set_map)
  have "set (map fst (gm_del k m)) = set (map fst m) - {k}"
    by (simp only: gm_del_def delete_keys set_removeAll)
  then have "fst ` set (gm_del k m) = fst ` set m - {k}" by simp
  then show ?thesis
    using keys [of m] keys [of "gm_del k m"] assms
    by (auto simp: gm_get_def map_of_eq_None_iff card_Diff_singleton_if)
qed

lemma range_order_perm: "mset (range_order ns xs) = mset xs"
proof (induction ns xs rule: range_order.induct)
  case (3 n ns v va)
  let ?xs = "v # va" and ?i = "n mod length (v # va)"
  have "?i < length ?xs" by simp
  then have "?xs = take ?i ?xs @ ?xs ! ?i # drop (Suc ?i) ?xs" by (rule id_take_nth_drop)
  then have "mset ?xs = add_mset (?xs ! ?i) (mset (take ?i ?xs @ drop (Suc ?i) ?xs))"
    by (metis mset.simps(2) mset_append union_mset_add_mset_right)
  with 3 [OF refl] show ?case by (simp add: Let_def)
qed auto

lemma range_order_any: "mset ys = mset xs \<Longrightarrow> \<exists>ns. range_order ns xs = ys"
proof (induction ys arbitrary: xs)
  case (Cons y ys)
  then have "y \<in> set xs" by (metis list.set_intros(1) set_mset_mset)
  then obtain i where i: "i < length xs" "xs ! i = y" by (auto simp: in_set_conv_nth)
  have "xs = take i xs @ y # drop (Suc i) xs" using i id_take_nth_drop by metis
  then have "mset ys = mset (take i xs @ drop (Suc i) xs)"
    using Cons.prems by (metis add_mset_add_mset_same_iff mset.simps(2) mset_append union_mset_add_mset_right)
  then obtain ns where ns: "range_order ns (take i xs @ drop (Suc i) xs) = ys" using Cons.IH by metis
  obtain x xs' where "xs = x # xs'" using i by (cases xs) auto
  with i ns have "range_order (i # ns) xs = y # ys" by (simp add: Let_def)
  then show ?case by blast
qed (auto intro: exI [of _ "[]"])

lemma set_range_order [simp]: "set (range_order ns xs) = set xs"
  using range_order_perm [of ns xs] by (metis set_mset_mset)

lemma length_range_order [simp]: "length (range_order ns xs) = length xs"
  using range_order_perm [of ns xs] by (metis size_mset)

lemma distinct_range_order [simp]: "distinct (range_order ns xs) \<longleftrightarrow> distinct xs"
  using range_order_perm [of ns xs] by (metis mset_eq_imp_distinct_iff)

end
