(* ===== verification/Pid.thy ===== *)
theory Pid
  imports Prelude
begin

text \<open>
  \<^verbatim>\<open>src/actor/pid.go\<close> and the identifier functions of \<^verbatim>\<open>engine.go\<close> and \<^verbatim>\<open>context.go\<close>: actor addresses
  (a nil \<open>*PID\<close> is \<open>None\<close>), their printing, comparison and nesting, the decimal suffixes of
  generated IDs (\<open>strconv.FormatUint(n, 10)\<close>), \<open>buildID\<close> with its atomic 64-bit counter, the ID a
  child is given, and \<open>shortName\<close>. The lemmas show that printed and generated
  identifiers are unambiguous and that a child's short name is the one it was
  spawned under.
\<close>

section \<open>Addresses\<close>

record PID =
  Address :: string
  ID :: string

definition NewPID :: "string \<Rightarrow> string \<Rightarrow> PID" where
  "NewPID address ident = \<lparr>Address = address, ID = ident\<rparr>"

definition PID_String :: "PID option \<Rightarrow> string" where
  "PID_String p = (case p of None \<Rightarrow> ''<nil>'' | Some p \<Rightarrow> Address p @ ''/'' @ ID p)"

fun Equals :: "PID option \<Rightarrow> PID option \<Rightarrow> bool" where
  "Equals None None = True"
| "Equals None (Some q) = False"
| "Equals (Some p) None = False"
| "Equals (Some p) (Some q) = (Address p = Address q \<and> ID p = ID q)"

definition PID_Child :: "PID option \<Rightarrow> string \<Rightarrow> PID" where
  "PID_Child p ident =
     (case p of
        None \<Rightarrow> NewPID '''' ident
      | Some p \<Rightarrow> if ID p = '''' then NewPID (Address p) ident
                  else NewPID (Address p) (ID p @ ''/'' @ ident))"

section \<open>Generated identifiers\<close>

text \<open>\<open>strconv.FormatUint(n, 10)\<close>.\<close>

definition digit :: "nat \<Rightarrow> char" where
  "digit d = char_of (48 + d)"

fun format_digits :: "nat \<Rightarrow> string" where
  "format_digits n = (if n < 10 then [digit n] else format_digits (n div 10) @ [digit (n mod 10)])"

declare format_digits.simps [simp del]

definition FormatUint :: "uint64 \<Rightarrow> string" where
  "FormatUint n = format_digits (unat n)"

definition localAddress :: string where "localAddress = ''local''"

definition LocalLookupAddr :: string where "LocalLookupAddr = ''local''"

text \<open>\<open>buildID\<close>: the second component is the new value of \<open>pidCounter\<close>.\<close>

definition buildID :: "string \<Rightarrow> string \<Rightarrow> uint64 \<Rightarrow> string \<times> uint64" where
  "buildID kind ident pidCounter =
     (if ident \<noteq> '''' then (kind @ ''/'' @ ident, pidCounter)
      else let n = pidCounter + 1 in (kind @ ''/'' @ FormatUint n, n))"

text \<open>The ID part of \<open>Context.SpawnChild\<close>, with the new value of \<open>childIDCounter\<close>.\<close>

definition childID :: "PID \<Rightarrow> string \<Rightarrow> string \<Rightarrow> uint64 \<Rightarrow> string \<times> uint64" where
  "childID parent kind ident childIDCounter =
     (let (ident, n) = (if ident = '''' then (FormatUint (childIDCounter + 1), childIDCounter + 1)
                     else (ident, childIDCounter))
      in (ID (PID_Child (Some parent) (kind @ ''/'' @ ident)), n))"

text \<open>\<open>strings.LastIndexByte(ident, '/')\<close> and the slice after it.\<close>

fun last_slash :: "string \<Rightarrow> nat option" where
  "last_slash [] = None"
| "last_slash (c # cs) =
     (case last_slash cs of
        Some i \<Rightarrow> Some (Suc i)
      | None \<Rightarrow> if c = CHR ''/'' then Some 0 else None)"

definition shortName :: "string \<Rightarrow> string" where
  "shortName ident = (case last_slash ident of Some i \<Rightarrow> drop (Suc i) ident | None \<Rightarrow> ident)"

section \<open>Lemmas\<close>

lemma last_slash_None: "last_slash s = None \<longleftrightarrow> CHR ''/'' \<notin> set s"
  by (induction s) (auto split: option.splits)

lemma last_slash_append: "CHR ''/'' \<notin> set t \<Longrightarrow> last_slash (s @ CHR ''/'' # t) = Some (length s)"
proof (induction s)
  case Nil
  then have "last_slash t = None" by (simp add: last_slash_None)
  then show ?case by simp
qed simp

lemma shortName_append: "CHR ''/'' \<notin> set t \<Longrightarrow> shortName (s @ CHR ''/'' # t) = t"
  by (simp add: shortName_def last_slash_append)

lemma append_slash_cancel:
  assumes "CHR ''/'' \<notin> set a" "CHR ''/'' \<notin> set b" "a @ ''/'' @ s = b @ ''/'' @ t"
  shows "a = b \<and> s = t"
  using assms
proof (induction a arbitrary: b)
  case Nil
  then show ?case by (cases b) auto
next
  case (Cons x a)
  then show ?case by (cases b) auto
qed

lemma of_char_digit: "d < 10 \<Longrightarrow> of_char (digit d) = 48 + d"
  by (simp add: digit_def)

lemma digit_inj: "d < 10 \<Longrightarrow> e < 10 \<Longrightarrow> digit d = digit e \<longleftrightarrow> d = e"
  by (metis of_char_digit add_left_cancel)

lemma digit_not_slash: "d < 10 \<Longrightarrow> digit d \<noteq> CHR ''/''"
proof
  assume d: "d < 10" "digit d = CHR ''/''"
  have "of_char (CHR ''/'') = (47 :: nat)" by code_simp
  then show False using of_char_digit [of d] d by simp
qed

lemma format_digits_not_Nil [simp]: "format_digits n \<noteq> []"
  by (subst format_digits.simps) auto

lemma format_digits_no_slash: "CHR ''/'' \<notin> set (format_digits n)"
proof (induction n rule: format_digits.induct)
  case (1 n)
  have "CHR ''/'' \<noteq> digit (n mod 10)" using digit_not_slash [of "n mod 10"] by auto
  moreover have "n < 10 \<Longrightarrow> CHR ''/'' \<noteq> digit n" using digit_not_slash [of n] by auto
  ultimately show ?case using 1 by (subst format_digits.simps) auto
qed

lemma format_digits_inj: "format_digits m = format_digits n \<Longrightarrow> m = n"
proof (induction m arbitrary: n rule: format_digits.induct)
  case (1 m)
  note fm = format_digits.simps [of m] and fn = format_digits.simps [of n]
  show ?case
  proof (cases "m < 10"; cases "n < 10")
    assume "m < 10" "n < 10"
    then show ?thesis using 1(2) fm fn by (simp add: digit_inj)
  next
    assume "\<not> m < 10" "\<not> n < 10"
    then have "format_digits (m div 10) = format_digits (n div 10)" "digit (m mod 10) = digit (n mod 10)"
      using 1(2) fm fn by simp_all
    then have "m div 10 = n div 10" "m mod 10 = n mod 10"
      using 1(1) [OF \<open>\<not> m < 10\<close>] by (simp_all add: digit_inj)
    then show ?thesis by (metis div_mult_mod_eq)
  qed (use 1(2) fm fn in \<open>auto simp: append_eq_Cons_conv Cons_eq_append_conv\<close>)
qed

lemma FormatUint_inj: "FormatUint m = FormatUint n \<longleftrightarrow> m = n"
  by (auto simp: FormatUint_def word_unat_eq_iff dest: format_digits_inj)

lemma FormatUint_no_slash: "CHR ''/'' \<notin> set (FormatUint n)"
  by (simp add: FormatUint_def format_digits_no_slash)

section \<open>Properties\<close>

text \<open>
  The canonical form identifies the actor: two addresses without a slash in them that
  print the same are \<open>Equals\<close>, whatever slashes their IDs have, and \<open>Equals\<close> on any two
  PIDs, nil included, is equality.
\<close>
lemma PID_String_identifies:
  assumes "CHR ''/'' \<notin> set (Address p)" and "CHR ''/'' \<notin> set (Address q)"
  shows "(PID_String (Some p) = PID_String (Some q) \<longleftrightarrow> Equals (Some p) (Some q)) \<and>
    (\<forall>x y. Equals x y \<longleftrightarrow> x = y)"
proof -
  have "Equals x y \<longleftrightarrow> x = y" for x y by (cases "(x, y)" rule: Equals.cases) auto
  then show ?thesis using append_slash_cancel [OF assms] by (auto simp: PID_String_def)
qed

theorem PID_String_identifies_witness:
  "PID_String (Some (NewPID ''local'' ''a/b'')) = ''local/a/b'' \<and>
   PID_String (Some (NewPID ''local'' ''a/b'')) \<noteq> PID_String (Some (NewPID ''remote'' ''a/b'')) \<and>
   CHR ''/'' \<notin> set ''local''"
  using PID_String_identifies [of "NewPID ''local'' ''a/b''" "NewPID ''remote'' ''a/b''"]
  by (simp add: NewPID_def PID_String_def)

text \<open>
  Generated IDs do not collide. Two calls of \<open>buildID\<close> for kinds without a slash that both
  draw on the counter give the same ID only for the same kind and the same counter value, so
  IDs repeat only after the 64-bit counter wraps; and an ID pinned with \<open>WithID\<close> is taken
  as it is and leaves the counter alone.
\<close>
lemma buildID_unique:
  assumes "CHR ''/'' \<notin> set k1" and "CHR ''/'' \<notin> set k2"
  shows "(fst (buildID k1 [] n1) = fst (buildID k2 [] n2) \<longleftrightarrow> k1 = k2 \<and> n1 = n2) \<and>
    snd (buildID k1 [] n1) = n1 + 1 \<and>
    (\<forall>ident. ident \<noteq> [] \<longrightarrow> buildID k1 ident n1 = (k1 @ ''/'' @ ident, n1))"
proof -
  have "k1 @ ''/'' @ FormatUint (n1 + 1) = k2 @ ''/'' @ FormatUint (n2 + 1) \<longleftrightarrow> k1 = k2 \<and> n1 = n2"
    using append_slash_cancel [OF assms, of "FormatUint (n1 + 1)" "FormatUint (n2 + 1)"]
    by (auto simp: FormatUint_inj)
  then show ?thesis by (simp add: buildID_def Let_def)
qed

lemma buildID_unique_witness:
  "buildID ''actor'' [] 41 = (''actor/42'', 42) \<and> fst (buildID ''actor'' [] 41) \<noteq> fst (buildID ''actor'' [] 42)"
proof -
  have "buildID ''actor'' [] 41 = (''actor/42'', 42)" by code_simp
  then show ?thesis using buildID_unique [of "''actor''" "''actor''" 41 42] by simp
qed

text \<open>
  A child spawned under a name without a slash has that name as its short name, its ID
  lies below the parent's, and the name looked up by \<open>Context.Child\<close> in its qualified
  form \<open>kind/name\<close> is exactly the child's ID. Children of the same parent get the same ID
  only under the same kind and name.
\<close>
lemma childID_shortName:
  assumes "CHR ''/'' \<notin> set name" and "name \<noteq> []" and "ID parent \<noteq> []" and "CHR ''/'' \<notin> set kind"
  shows "shortName (fst (childID parent kind name n)) = name \<and>
    fst (childID parent kind name n) = ID parent @ ''/'' @ kind @ ''/'' @ name \<and>
    ID (PID_Child (Some parent) (kind @ ''/'' @ name)) = fst (childID parent kind name n) \<and>
    shortName (fst (childID parent kind [] n)) = FormatUint (n + 1) \<and>
    (\<forall>kind' name'. CHR ''/'' \<notin> set kind' \<and> name' \<noteq> [] \<and>
        fst (childID parent kind' name' n) = fst (childID parent kind name n) \<longrightarrow> kind' = kind \<and> name' = name)"
proof -
  have named: "fst (childID parent k m n) = ID parent @ CHR ''/'' # k @ CHR ''/'' # m" if "m \<noteq> []" for k m
    using that assms(3) by (simp add: childID_def PID_Child_def NewPID_def)
  have auto_id: "fst (childID parent kind [] n) = ID parent @ CHR ''/'' # kind @ CHR ''/'' # FormatUint (n + 1)"
    using assms(3) by (simp add: childID_def PID_Child_def NewPID_def)
  have short: "shortName (ID parent @ CHR ''/'' # kind @ CHR ''/'' # m) = m" if "CHR ''/'' \<notin> set m" for m
    using shortName_append [of m "ID parent @ CHR ''/'' # kind"] that by simp
  have "kind' = kind \<and> name' = name"
    if "CHR ''/'' \<notin> set kind'" "name' \<noteq> []" "fst (childID parent kind' name' n) = fst (childID parent kind name n)"
    for kind' name'
    using append_slash_cancel [OF that(1) assms(4), of name' name] that(2,3) named assms(2) by simp
  then show ?thesis
    using named [OF assms(2)] auto_id short [OF assms(1)] short [OF FormatUint_no_slash] assms(3)
    by (auto simp: PID_Child_def NewPID_def)
qed

lemma childID_shortName_witness:
  "shortName (fst (childID (NewPID ''local'' ''p/1'') ''worker'' ''w'' 0)) = ''w'' \<and>
   fst (childID (NewPID ''local'' ''p/1'') ''worker'' ''w'' 0) = ''p/1/worker/w''"
proof -
  have "ID (NewPID ''local'' ''p/1'') = ''p/1''" by (simp add: NewPID_def)
  then show ?thesis using childID_shortName [of "''w''" "NewPID ''local'' ''p/1''" "''worker''" 0] by force
qed

end
