(* ===== verification/Registry.thy ===== *)
theory Registry
  imports GoMap Pid
begin

text \<open>
  \<^verbatim>\<open>src/actor/registry.go\<close>: the table of live processes, keyed by PID ID. The type of processes is
  a parameter; \<open>pid_of\<close> is their method \<open>PID()\<close>, and \<open>==\<close> on the interface values is equality.
  Every method holds the registry's lock for its whole body, so each is one step.

  The locale \<open>process_table\<close> is what the engine relies on: what \<open>get\<close> returns after \<open>add\<close> and
  \<open>remove\<close>, that the incumbent wins a collision and that an entry is stored under the ID of
  its own PID. It is interpreted on the registry below.
\<close>

record 'proc registry =
  lookup :: "(string, 'proc) gomap"

definition newRegistry :: "'proc registry" where
  "newRegistry = \<lparr>lookup = []\<rparr>"

definition reg_getByID :: "'proc registry \<Rightarrow> string \<Rightarrow> 'proc option" where
  "reg_getByID r ident = gm_get (lookup r) ident"

definition reg_get :: "'proc registry \<Rightarrow> PID option \<Rightarrow> 'proc option" where
  "reg_get r pid = (case pid of None \<Rightarrow> None | Some p \<Rightarrow> reg_getByID r (ID p))"

definition reg_add :: "('proc \<Rightarrow> PID) \<Rightarrow> 'proc \<Rightarrow> 'proc registry \<Rightarrow> bool \<times> 'proc registry" where
  "reg_add pid_of proc r =
     (let ident = ID (pid_of proc) in
      case gm_get (lookup r) ident of
        Some existing \<Rightarrow> (existing = proc, r)
      | None \<Rightarrow> (True, r\<lparr>lookup := gm_put ident proc (lookup r)\<rparr>))"

definition reg_remove :: "PID option \<Rightarrow> 'proc registry \<Rightarrow> 'proc registry" where
  "reg_remove pid r = (case pid of None \<Rightarrow> r | Some p \<Rightarrow> r\<lparr>lookup := gm_del (ID p) (lookup r)\<rparr>)"

definition reg_len :: "'proc registry \<Rightarrow> int64" where
  "reg_len r = gm_len (lookup r)"

section \<open>The interface\<close>

locale process_table =
  fixes pid_of :: "'proc \<Rightarrow> PID"
    and getByID :: "'t \<Rightarrow> string \<Rightarrow> 'proc option"
    and add :: "'proc \<Rightarrow> 't \<Rightarrow> bool \<times> 't"
    and remove :: "PID option \<Rightarrow> 't \<Rightarrow> 't"
    and empty_table :: 't
  assumes get_empty: "getByID empty_table i = None"
    and add_free: "getByID t (ID (pid_of p)) = None \<Longrightarrow>
      fst (add p t) \<and> getByID (snd (add p t)) = (getByID t)(ID (pid_of p) := Some p)"
    and add_taken: "getByID t (ID (pid_of p)) = Some q \<Longrightarrow> add p t = (q = p, t)"
    and remove_get: "getByID (remove (Some pid) t) = (getByID t)(ID pid := None)"
    and remove_nil: "remove None t = t"
begin

definition well_keyed :: "'t \<Rightarrow> bool" where
  "well_keyed t \<longleftrightarrow> (\<forall>i p. getByID t i = Some p \<longrightarrow> ID (pid_of p) = i)"

lemma well_keyed_empty: "well_keyed empty_table"
  by (simp add: well_keyed_def get_empty)

lemma well_keyed_add: "well_keyed t \<Longrightarrow> well_keyed (snd (add p t))"
  using add_free [of t p] add_taken [of t p]
  by (cases "getByID t (ID (pid_of p))") (auto simp: well_keyed_def)

lemma well_keyed_remove: "well_keyed t \<Longrightarrow> well_keyed (remove pid t)"
  by (cases pid) (auto simp: well_keyed_def remove_get remove_nil)

lemma add_idem: "add p (snd (add p t)) = (fst (add p t), snd (add p t))"
proof (cases "getByID t (ID (pid_of p))")
  case None
  then have "fst (add p t)" "getByID (snd (add p t)) (ID (pid_of p)) = Some p" by (simp_all add: add_free)
  then show ?thesis using add_taken [of "snd (add p t)" p p] by simp
next
  case (Some q)
  then show ?thesis using add_taken [of t p q] by simp
qed

lemma add_keeps_incumbent:
  "getByID t i = Some q \<Longrightarrow> getByID (snd (add p t)) i = Some q"
  using add_free [of t p] add_taken [of t p] by (cases "getByID t (ID (pid_of p))") auto

lemma add_only_own:
  "getByID (snd (add p t)) i = Some q \<Longrightarrow> getByID t i = Some q \<or> q = p"
  using add_free [of t p] add_taken [of t p]
  by (cases "getByID t (ID (pid_of p))") (auto split: if_splits)

lemma remove_only: "getByID (remove pid t) i = Some q \<Longrightarrow> getByID t i = Some q"
  by (cases pid) (auto simp: remove_get remove_nil split: if_splits)

end

interpretation regt: process_table pid_of reg_getByID "reg_add pid_of" reg_remove newRegistry
  for pid_of
proof unfold_locales
  fix t :: "'a registry" and p q :: 'a and pid :: PID
  show "reg_getByID t (ID (pid_of p)) = None \<Longrightarrow>
      fst (reg_add pid_of p t) \<and> reg_getByID (snd (reg_add pid_of p t)) = (reg_getByID t)(ID (pid_of p) := Some p)"
    by (auto simp: reg_getByID_def reg_add_def gomap_simps)
  show "reg_getByID t (ID (pid_of p)) = Some q \<Longrightarrow> reg_add pid_of p t = (q = p, t)"
    by (simp add: reg_getByID_def reg_add_def)
  show "reg_getByID (reg_remove (Some pid) t) = (reg_getByID t)(ID pid := None)"
    by (auto simp: reg_getByID_def reg_remove_def gomap_simps)
qed (simp_all add: newRegistry_def reg_getByID_def reg_remove_def gomap_simps)

section \<open>Properties\<close>

definition reg_wf :: "('proc \<Rightarrow> PID) \<Rightarrow> 'proc registry \<Rightarrow> bool" where
  "reg_wf pid_of r \<longleftrightarrow> gm_wf (lookup r) \<and> (\<forall>i p. reg_getByID r i = Some p \<longrightarrow> ID (pid_of p) = i)"

lemma reg_wf_keyed: "reg_wf pid_of r \<longleftrightarrow> gm_wf (lookup r) \<and> process_table.well_keyed pid_of reg_getByID r"
  by (simp add: reg_wf_def regt.well_keyed_def)

lemma reg_wf_new: "reg_wf pid_of newRegistry"
  by (simp add: reg_wf_keyed regt.well_keyed_empty) (simp add: newRegistry_def)

lemma reg_wf_add: "reg_wf pid_of r \<Longrightarrow> reg_wf pid_of (snd (reg_add pid_of p r))"
  by (simp add: reg_wf_keyed regt.well_keyed_add) (auto simp: reg_add_def Let_def split: option.splits)

lemma reg_wf_remove: "reg_wf pid_of r \<Longrightarrow> reg_wf pid_of (reg_remove pid r)"
  by (simp add: reg_wf_keyed regt.well_keyed_remove) (auto simp: reg_remove_def split: option.splits)

text \<open>
  C26. The registry is a table of processes under their own IDs: from a well-formed registry
  \<open>add\<close> of a process with a free ID makes \<open>get\<close> return it and reports success; a taken ID
  keeps its incumbent, and success is reported only for the incumbent itself (a restart);
  other IDs are untouched; after \<open>remove\<close> the PID does not resolve. The invariant is kept
  by both, and \<open>len\<close> counts the resolvable IDs.
\<close>
theorem registry_contract:
  assumes "reg_wf pid_of r"
  shows "reg_wf pid_of (snd (reg_add pid_of p r)) \<and> reg_wf pid_of (reg_remove pid r) \<and>
    (reg_get r (Some (pid_of p)) = None \<longrightarrow>
       reg_add pid_of p r = (True, snd (reg_add pid_of p r)) \<and>
       reg_get (snd (reg_add pid_of p r)) (Some (pid_of p)) = Some p) \<and>
    (\<forall>q. reg_get r (Some (pid_of p)) = Some q \<longrightarrow> reg_add pid_of p r = (q = p, r)) \<and>
    (\<forall>i. i \<noteq> ID (pid_of p) \<longrightarrow> reg_getByID (snd (reg_add pid_of p r)) i = reg_getByID r i) \<and>
    reg_get (reg_remove pid r) pid = None \<and>
    (\<forall>i. pid \<noteq> None \<longrightarrow> i \<noteq> ID (the pid) \<longrightarrow> reg_getByID (reg_remove pid r) i = reg_getByID r i) \<and>
    reg_len r = of_nat (card {i. reg_getByID r i \<noteq> None})"
proof -
  have "length (lookup r) = card (dom (map_of (lookup r)))"
    using assms by (simp add: reg_wf_def gm_wf_def dom_map_of_conv_image_fst flip: distinct_card)
      (metis distinct_card length_map list.set_map)
  then have len: "reg_len r = of_nat (card {i. reg_getByID r i \<noteq> None})"
    by (simp add: reg_len_def gm_len_def reg_getByID_def gm_get_def dom_def)
  show ?thesis
    using reg_wf_add [OF assms, of p] reg_wf_remove [OF assms, of pid] assms regt.add_free [of r pid_of p] regt.add_taken [of r pid_of p] len
    by (cases pid; cases "reg_getByID r (ID (pid_of p))")
      (auto simp: reg_get_def regt.remove_get prod_eq_iff)
qed

theorem registry_contract_witness:
  "reg_add id (NewPID ''local'' ''a/1'') (newRegistry :: PID registry) =
     (True, \<lparr>lookup = [(''a/1'', NewPID ''local'' ''a/1'')]\<rparr>) \<and>
   reg_get (snd (reg_add id (NewPID ''local'' ''a/1'') newRegistry)) (Some (NewPID ''local'' ''a/1'')) =
     Some (NewPID ''local'' ''a/1'')"
  using registry_contract [OF reg_wf_new, of id "NewPID ''local'' ''a/1''" None]
  by (simp add: newRegistry_def reg_add_def reg_get_def reg_getByID_def gomap_simps)
    (simp add: gm_put_def NewPID_def)

end
