(* ===== verification/EventStream.thy ===== *)
theory EventStream
  imports Registry
begin

text \<open>
  \<^verbatim>\<open>src/actor/eventstream.go\<close>: the subscriber table. \<open>broadcast_scan\<close> is the part of \<open>broadcast\<close> under the
  lock: it walks the table in the order given by \<open>ord\<close> (Go leaves it open), drops the
  subscribers whose actor is gone and returns the others. \<open>resolves\<close> stands for
  \<open>e.registry.get(pid) != nil\<close>; each subscriber is looked up once, so it may be read as the answer at
  that moment. The engine takes the scan one iteration (\<open>broadcast_visit\<close>) at a time; the sends that
  follow, outside the lock, are steps of the engine too.

  The locale \<open>subscriber_table\<close> states what the engine relies on; it is interpreted here.
\<close>

record eventStream =
  subs :: "(string, PID) gomap"

definition newEventStream :: eventStream where
  "newEventStream = \<lparr>subs = []\<rparr>"

definition subscribe :: "PID option \<Rightarrow> eventStream \<Rightarrow> eventStream" where
  "subscribe pid s = (case pid of None \<Rightarrow> s | Some p \<Rightarrow> s\<lparr>subs := gm_put (ID p) p (subs s)\<rparr>)"

definition unsubscribe :: "PID option \<Rightarrow> eventStream \<Rightarrow> eventStream" where
  "unsubscribe pid s = (case pid of None \<Rightarrow> s | Some p \<Rightarrow> s\<lparr>subs := gm_del (ID p) (subs s)\<rparr>)"

text \<open>One iteration of the loop in \<open>broadcast\<close>, and the loop.\<close>

definition broadcast_visit :: "(PID \<Rightarrow> bool) \<Rightarrow> string \<times> PID \<Rightarrow> PID list \<Rightarrow> eventStream \<Rightarrow> PID list \<times> eventStream" where
  "broadcast_visit resolves e live s =
     (if \<not> resolves (snd e) then (live, s\<lparr>subs := gm_del (fst e) (subs s)\<rparr>) else (live @ [snd e], s))"

fun broadcast_loop :: "(PID \<Rightarrow> bool) \<Rightarrow> (string \<times> PID) list \<Rightarrow> eventStream \<Rightarrow> PID list
    \<Rightarrow> PID list \<times> eventStream" where
  "broadcast_loop resolves [] s live = (live, s)"
| "broadcast_loop resolves (e # rest) s live =
     (let (live, s) = broadcast_visit resolves e live s in broadcast_loop resolves rest s live)"

definition broadcast_scan :: "(PID \<Rightarrow> bool) \<Rightarrow> nat list \<Rightarrow> eventStream \<Rightarrow> PID list \<times> eventStream" where
  "broadcast_scan resolves ord s = broadcast_loop resolves (range_order ord (subs s)) s []"

definition es_len :: "eventStream \<Rightarrow> int64" where
  "es_len s = gm_len (subs s)"

section \<open>Lemmas\<close>

definition es_wf :: "eventStream \<Rightarrow> bool" where
  "es_wf s \<longleftrightarrow> gm_wf (subs s) \<and> (\<forall>i p. (i, p) \<in> set (subs s) \<longrightarrow> ID p = i)"

lemma set_gm_del: "set (gm_del k m) = {e \<in> set m. fst e \<noteq> k}"
  by (auto simp: gm_del_def AList.delete_eq)

lemma set_gm_put: "set (gm_put k v m) \<subseteq> insert (k, v) (set m)"
  unfolding gm_put_def by (induction m) auto

lemma es_wf_ops:
  "es_wf newEventStream"
  "es_wf s \<Longrightarrow> es_wf (subscribe pid s)"
  "es_wf s \<Longrightarrow> es_wf (unsubscribe pid s)"
  using set_gm_put [of "ID (the pid)" "the pid" "subs s"]
  by (auto simp: es_wf_def newEventStream_def subscribe_def unsubscribe_def set_gm_del split: option.splits)

lemma es_wf_del: "es_wf s \<Longrightarrow> es_wf (s\<lparr>subs := gm_del k (subs s)\<rparr>)"
  by (auto simp: es_wf_def set_gm_del)

lemma broadcast_loop_spec:
  assumes "distinct (map fst es)" "broadcast_loop resolves es s live = (live', s')" "es_wf s"
  shows "live' = live @ map snd (filter (\<lambda>e. resolves (snd e)) es) \<and>
    set (subs s') = {e \<in> set (subs s). \<forall>x \<in> set es. fst x = fst e \<longrightarrow> resolves (snd x)} \<and> es_wf s'"
  using assms
proof (induction es arbitrary: s live)
  case (Cons e es)
  obtain i p where e: "e = (i, p)" by fastforce
  let ?s = "if resolves p then s else s\<lparr>subs := gm_del i (subs s)\<rparr>"
  let ?live = "if resolves p then live @ [p] else live"
  have "es_wf ?s" using Cons.prems by (auto simp: es_wf_def set_gm_del)
  moreover have "broadcast_loop resolves es ?s ?live = (live', s')"
    using Cons.prems e by (simp add: broadcast_visit_def split: if_splits)
  ultimately show ?case
    using Cons.IH [of ?s ?live] Cons.prems(1) e by (auto simp: set_gm_del)
qed auto

lemma broadcast_scan_spec:
  assumes wf: "es_wf s" and scan: "broadcast_scan resolves ord s = (live, s')"
  shows "mset live = mset (map snd (filter (\<lambda>e. resolves (snd e)) (subs s)))"
    and "set (subs s') = {e \<in> set (subs s). resolves (snd e)}"
    and "es_wf s'"
proof -
  have dist: "distinct (map fst (range_order ord (subs s)))"
    using wf range_order_perm [of ord "subs s"]
    by (metis es_wf_def gm_wf_def mset_eq_imp_distinct_iff mset_map)
  note spec = broadcast_loop_spec [OF dist scan [unfolded broadcast_scan_def] wf]
  show "mset live = mset (map snd (filter (\<lambda>e. resolves (snd e)) (subs s)))"
    using spec range_order_perm [of ord "subs s"] by (simp add: mset_filter)
  show "es_wf s'" using spec by blast
  have "(\<forall>x \<in> set (subs s). fst x = fst e \<longrightarrow> resolves (snd x)) \<longleftrightarrow> resolves (snd e)"
    if e: "e \<in> set (subs s)" for e
  proof -
    have "x = e" if "x \<in> set (subs s)" "fst x = fst e" for x
      using e that wf eq_key_imp_eq_value [of "subs s" "fst e" "snd e" "snd x"]
      by (simp add: es_wf_def gm_wf_def) (metis prod.collapse)
    then show ?thesis using e by blast
  qed
  then show "set (subs s') = {e \<in> set (subs s). resolves (snd e)}" using spec by auto
qed

section \<open>The interface\<close>

locale subscriber_table =
  fixes sub :: "PID option \<Rightarrow> 's \<Rightarrow> 's"
    and unsub :: "PID option \<Rightarrow> 's \<Rightarrow> 's"
    and scan :: "(PID \<Rightarrow> bool) \<Rightarrow> nat list \<Rightarrow> 's \<Rightarrow> PID list \<times> 's"
    and members :: "'s \<Rightarrow> PID set"
    and wf_table :: "'s \<Rightarrow> bool"
  assumes sub_members: "wf_table s \<Longrightarrow> wf_table (sub (Some p) s) \<and>
      members (sub (Some p) s) = insert p {q \<in> members s. ID q \<noteq> ID p}"
    and unsub_members: "wf_table s \<Longrightarrow> wf_table (unsub (Some p) s) \<and>
      members (unsub (Some p) s) = {q \<in> members s. ID q \<noteq> ID p}"
    and scan_members: "wf_table s \<Longrightarrow> scan resolves ord s = (live, s') \<Longrightarrow>
      wf_table s' \<and> members s' = {q \<in> members s. resolves q} \<and> distinct live \<and> set live = members s'"
begin

lemma sub_idem: "wf_table s \<Longrightarrow> members (sub (Some p) (sub (Some p) s)) = members (sub (Some p) s)"
  using sub_members [of s p] sub_members [of "sub (Some p) s" p] by auto

lemma sub_receives_once:
  assumes "wf_table s" "resolves p" "scan resolves ord (sub (Some p) s) = (live, s')"
  shows "p \<in> set live" and "distinct live"
  using sub_members [OF assms(1), of p] scan_members [OF _ assms(3)] assms(2) by auto

lemma unsub_receives_not:
  assumes "wf_table s" "scan resolves ord (unsub (Some p) s) = (live, s')"
  shows "p \<notin> set live"
  using unsub_members [OF assms(1), of p] scan_members [OF _ assms(2)] by auto

lemma scan_again:
  assumes "wf_table s" "scan resolves ord s = (live, s')" "scan resolves ord' s' = (live', s'')"
  shows "set live' = set live" "members s'' = members s'"
  using scan_members [OF assms(1,2)] scan_members [OF _ assms(3)] by auto

end

definition subscribers :: "eventStream \<Rightarrow> PID set" where
  "subscribers s = snd ` set (subs s)"

lemma subscribers_iff: "es_wf s \<Longrightarrow> p \<in> subscribers s \<longleftrightarrow> gm_get (subs s) (ID p) = Some p"
  by (force simp: subscribers_def es_wf_def gm_get_set image_iff)

lemma es_wf_distinct_pids: "es_wf s \<Longrightarrow> distinct (map snd (subs s))"
proof -
  assume wf: "es_wf s"
  then have "map ID (map snd (subs s)) = map fst (subs s)" by (auto simp: es_wf_def)
  then show ?thesis using wf unfolding es_wf_def gm_wf_def by (metis distinct_map)
qed

interpretation est: subscriber_table subscribe unsubscribe broadcast_scan subscribers es_wf
proof unfold_locales
  fix s s' p resolves ord live
  assume wf: "es_wf s"
  have wf_sub: "es_wf (subscribe (Some p) s)" and wf_unsub: "es_wf (unsubscribe (Some p) s)"
    by (intro es_wf_ops wf)+
  have "q \<in> subscribers (subscribe (Some p) s) \<longleftrightarrow> q \<in> insert p {q \<in> subscribers s. ID q \<noteq> ID p}" for q
    by (auto simp: subscribers_iff wf wf_sub) (auto simp: subscribe_def gomap_simps split: if_splits)
  then show "es_wf (subscribe (Some p) s) \<and>
      subscribers (subscribe (Some p) s) = insert p {q \<in> subscribers s. ID q \<noteq> ID p}"
    using wf_sub by blast
  have "q \<in> subscribers (unsubscribe (Some p) s) \<longleftrightarrow> q \<in> {q \<in> subscribers s. ID q \<noteq> ID p}" for q
    by (auto simp: subscribers_iff wf wf_unsub) (auto simp: unsubscribe_def gomap_simps split: if_splits)
  then show "es_wf (unsubscribe (Some p) s) \<and>
      subscribers (unsubscribe (Some p) s) = {q \<in> subscribers s. ID q \<noteq> ID p}"
    using wf_unsub by blast
  assume scan: "broadcast_scan resolves ord s = (live, s')"
  note spec = broadcast_scan_spec [OF wf scan]
  have "distinct (map snd (filter (\<lambda>e. resolves (snd e)) (subs s)))"
    using es_wf_distinct_pids [OF wf] by (rule distinct_map_filter)
  then have "distinct live" using spec(1) by (metis mset_eq_imp_distinct_iff)
  moreover have "set live = set (map snd (filter (\<lambda>e. resolves (snd e)) (subs s)))"
    using spec(1) by (metis set_mset_mset)
  ultimately show "es_wf s' \<and> subscribers s' = {q \<in> subscribers s. resolves q} \<and> distinct live \<and> set live = subscribers s'"
    using spec(2,3) by (auto simp: subscribers_def)
qed

section \<open>Properties\<close>



end
