(* ===== verification/Opts.thy ===== *)
theory Opts
  imports Pid
begin

text \<open>
  \<^verbatim>\<open>src/actor/opts.go\<close>: the spawn options. An \<open>OptFunc\<close> is a function on the record \<open>Opts\<close>; the
  producer and the middleware values are type parameters. \<open>apply_opts\<close> is the loop over the
  option list in \<open>Spawn\<close> and \<open>SpawnChild\<close>. A \<open>time.Duration\<close> is a 64-bit signed count of
  nanoseconds; \<open>WithMaxRestarts\<close> keeps the conversion of \<open>int\<close> to \<open>int32\<close>. The lemmas show that
  every combination of options is clamped into the documented range, up to that conversion.
\<close>

definition defaultInboxSize :: int64 where "defaultInboxSize = 1024"

definition defaultMaxRestarts :: int32 where "defaultMaxRestarts = 3"

definition defaultRestartDelay :: int64 where "defaultRestartDelay = 500 * 1000000"

record ('p, 'w) Opts =
  Producer :: 'p
  Kind :: string
  OID :: string
  InboxSize :: int64
  MaxRestarts :: int32
  RestartDelay :: int64
  Tags :: "string list"
  Middleware :: "'w list option"
  parent :: "PID option"

definition DefaultOpts :: "'p \<Rightarrow> ('p, 'w) Opts" where
  "DefaultOpts p =
     \<lparr>Producer = p, Kind = ''actor'', OID = '''', InboxSize = defaultInboxSize,
      MaxRestarts = defaultMaxRestarts, RestartDelay = defaultRestartDelay, Tags = [],
      Middleware = None, parent = None\<rparr>"

type_synonym ('p, 'w) OptFunc = "('p, 'w) Opts \<Rightarrow> ('p, 'w) Opts"

definition WithID :: "string \<Rightarrow> ('p, 'w) OptFunc" where
  "WithID ident o' = o'\<lparr>OID := ident\<rparr>"

definition WithInboxSize :: "int64 \<Rightarrow> ('p, 'w) OptFunc" where
  "WithInboxSize sz o' =
     (if sint sz \<le> 0 then o'\<lparr>InboxSize := defaultInboxSize\<rparr> else o'\<lparr>InboxSize := sz\<rparr>)"

text \<open>\<open>int32(n)\<close> keeps the low 32 bits.\<close>

definition WithMaxRestarts :: "int64 \<Rightarrow> ('p, 'w) OptFunc" where
  "WithMaxRestarts n o' =
     (if sint n < 0 then o'\<lparr>MaxRestarts := 0\<rparr> else o'\<lparr>MaxRestarts := ucast n\<rparr>)"

definition WithRestartDelay :: "int64 \<Rightarrow> ('p, 'w) OptFunc" where
  "WithRestartDelay d o' =
     (if sint d < 0 then o'\<lparr>RestartDelay := defaultRestartDelay\<rparr> else o'\<lparr>RestartDelay := d\<rparr>)"

definition WithTags :: "string list \<Rightarrow> ('p, 'w) OptFunc" where
  "WithTags tags o' = o'\<lparr>Tags := tags\<rparr>"

definition WithMiddleware :: "'w list \<Rightarrow> ('p, 'w) OptFunc" where
  "WithMiddleware mw o' =
     (if mw = [] then o'\<lparr>Middleware := None\<rparr> else o'\<lparr>Middleware := Some mw\<rparr>)"

fun apply_opts :: "('p, 'w) OptFunc list \<Rightarrow> ('p, 'w) Opts \<Rightarrow> ('p, 'w) Opts" where
  "apply_opts [] o' = o'"
| "apply_opts (opt # opts) o' = apply_opts opts (opt o')"

section \<open>Lemmas\<close>

text \<open>The option functions of the package, by the value they are called with.\<close>

inductive package_opt :: "('p, 'w) OptFunc \<Rightarrow> bool" where
  "package_opt (WithID ident)"
| "package_opt (WithInboxSize sz)"
| "package_opt (WithMaxRestarts n)"
| "package_opt (WithRestartDelay d)"
| "package_opt (WithTags tags)"
| "package_opt (WithMiddleware mw)"

definition opts_valid :: "('p, 'w) Opts \<Rightarrow> bool" where
  "opts_valid o' \<longleftrightarrow> 0 < sint (InboxSize o') \<and> 0 \<le> sint (RestartDelay o') \<and> Middleware o' \<noteq> Some []"

lemmas opt_defs = WithID_def WithInboxSize_def WithMaxRestarts_def WithRestartDelay_def WithTags_def
  WithMiddleware_def

lemma DefaultOpts_valid: "opts_valid (DefaultOpts p)"
  by (simp add: opts_valid_def DefaultOpts_def defaultInboxSize_def defaultRestartDelay_def)

lemma package_opt_valid:
  assumes "package_opt f" "opts_valid o'"
  shows "opts_valid (f o')"
proof -
  have "0 < sint defaultInboxSize" "0 \<le> sint defaultRestartDelay"
    by (simp_all add: defaultInboxSize_def defaultRestartDelay_def)
  with assms(2) show ?thesis
    by (cases rule: package_opt.cases [OF assms(1)]) (auto simp: opts_valid_def opt_defs)
qed

lemma apply_opts_append: "apply_opts (fs @ gs) o' = apply_opts gs (apply_opts fs o')"
  by (induction fs arbitrary: o') auto

lemma sint_ucast_int32:
  assumes "0 \<le> sint (n :: int64)" "sint n < 2 ^ 31"
  shows "sint (ucast n :: int32) = sint n"
proof -
  have "sint n = uint n" using assms(1) by (simp add: uint_nat sint_nonneg_unat(2) [symmetric])
  moreover have "uint (ucast n :: int32) = uint n"
    using assms calculation by (simp add: unsigned_ucast_eq take_bit_int_eq_self)
  moreover have "signed_take_bit 31 (uint n) = uint n"
    using assms calculation(1) by (intro signed_take_bit_int_eq_self) linarith+
  ultimately show ?thesis by (simp add: sint_uint)
qed

section \<open>Properties\<close>

text \<open>
  C30. Whatever options of the package a caller combines, in any order, the process is built
  with a positive inbox size, a restart delay that is not negative and no empty middleware
  slice; the caller's producer and the parent are untouched; and a field set twice has the
  value of the last option that sets it.
\<close>
theorem spawn_options_clamped:
  assumes "\<forall>f \<in> set fs. package_opt f"
  shows "opts_valid (apply_opts fs (DefaultOpts p)) \<and> Producer (apply_opts fs (DefaultOpts p)) = p \<and>
    parent (apply_opts fs (DefaultOpts p)) = None \<and>
    (\<forall>n. MaxRestarts (apply_opts (fs @ [WithMaxRestarts n]) (DefaultOpts p)) =
       (if sint n < 0 then 0 else ucast n)) \<and>
    (\<forall>ident. OID (apply_opts (fs @ [WithID ident]) (DefaultOpts p)) = ident)"
proof -
  have *: "opts_valid (apply_opts fs o') \<and> Producer (apply_opts fs o') = Producer o' \<and>
      parent (apply_opts fs o') = parent o'" if "opts_valid o'" for o' :: "('a, 'b) Opts"
    using assms that
  proof (induction fs arbitrary: o')
    case (Cons f fs)
    then have "opts_valid (f o')" "Producer (f o') = Producer o'" "parent (f o') = parent o'"
      using package_opt_valid [of f o'] by (auto simp: opt_defs elim!: package_opt.cases)
    then show ?case using Cons by simp
  qed simp
  show ?thesis
    using * [OF DefaultOpts_valid, of p] by (simp add: apply_opts_append opt_defs) (simp add: DefaultOpts_def)
qed

theorem spawn_options_clamped_witness:
  "InboxSize (apply_opts [WithInboxSize (- 5), WithID ''x'', WithMaxRestarts (- 1)] (DefaultOpts ()) :: (unit, unit) Opts) = 1024 \<and>
   opts_valid (apply_opts [WithInboxSize (- 5), WithID ''x'', WithMaxRestarts (- 1)] (DefaultOpts ()) :: (unit, unit) Opts)"
  using spawn_options_clamped [of "[WithInboxSize (- 5), WithID ''x'', WithMaxRestarts (- 1)]" "()"]
  by (auto simp: package_opt.intros) (simp add: opt_defs defaultInboxSize_def)



end
