(* ===== verification/Trace.thy ===== *)
theory Trace
  imports Prelude
begin

text \<open>
  \<open>cleanTrace\<close> of \<^verbatim>\<open>src/actor/process.go\<close>, with the functions of package \<open>bytes\<close> it calls: \<open>Split\<close> on
  a newline, \<open>HasPrefix\<close> and \<open>Join\<close>. The lemmas show that splitting and joining are inverse and
  what \<open>cleanTrace\<close> keeps: the header line and everything from the frame below the first
  \<open>panic(\<close> frame on, or the stack as it is when there is no such frame.
\<close>

definition newline :: char where "newline = CHR 0x0A"

text \<open>\<open>bytes.Split(s, "\n")\<close> and \<open>bytes.Join(lines, "\n")\<close>.\<close>

fun split_lines :: "string \<Rightarrow> string list" where
  "split_lines [] = [[]]"
| "split_lines (c # cs) =
     (if c = newline then [] # split_lines cs
      else case split_lines cs of l # ls \<Rightarrow> (c # l) # ls | [] \<Rightarrow> [[c]])"

fun join_lines :: "string list \<Rightarrow> string" where
  "join_lines [] = []"
| "join_lines [l] = l"
| "join_lines (l # ls) = l @ newline # join_lines ls"

definition HasPrefix :: "string \<Rightarrow> string \<Rightarrow> bool" where
  "HasPrefix s prefix \<longleftrightarrow> take (length prefix) s = prefix"

text \<open>The loop \<open>for i, line := range lines\<close>, from index \<open>i\<close> on; \<open>rest\<close> is \<open>lines[i:]\<close>.\<close>

fun cleanTrace_loop :: "string \<Rightarrow> string list \<Rightarrow> string \<Rightarrow> string list \<Rightarrow> string" where
  "cleanTrace_loop stack lines header [] = stack"
| "cleanTrace_loop stack lines header (line # rest) =
     (if \<not> HasPrefix line ''panic('' then cleanTrace_loop stack lines header rest
      else let i = length lines - length (line # rest) in
        if i + 2 \<ge> length lines then stack
        else join_lines (header # drop (i + 2) lines))"

definition cleanTrace :: "string \<Rightarrow> string" where
  "cleanTrace stack =
     (let lines = split_lines stack in
      if lines = [] then stack else cleanTrace_loop stack lines (lines ! 0) lines)"

section \<open>Lemmas\<close>

lemma split_lines_not_Nil [simp]: "split_lines s \<noteq> []"
  by (induction s) (auto split: list.splits)

lemma split_lines_no_newline: "l \<in> set (split_lines s) \<Longrightarrow> newline \<notin> set l"
  by (induction s arbitrary: l) (auto split: list.splits if_splits)

lemma join_lines_Cons: "ls \<noteq> [] \<Longrightarrow> join_lines (l # ls) = l @ newline # join_lines ls"
  by (cases ls) auto

lemma join_split: "join_lines (split_lines s) = s"
proof (induction s)
  case (Cons c s)
  then show ?case
    by (cases "split_lines s"; cases "tl (split_lines s)") (auto simp: join_lines_Cons)
qed simp

lemma split_lines_append:
  "newline \<notin> set l \<Longrightarrow> split_lines (l @ newline # s) = l # split_lines s"
  by (induction l) auto

lemma split_lines_line: "newline \<notin> set l \<Longrightarrow> split_lines l = [l]"
  by (induction l) auto

lemma split_join: "ls \<noteq> [] \<Longrightarrow> \<forall>l \<in> set ls. newline \<notin> set l \<Longrightarrow> split_lines (join_lines ls) = ls"
  by (induction ls rule: join_lines.induct) (auto simp: split_lines_append split_lines_line)

lemma cleanTrace_loop_none:
  "\<forall>l \<in> set rest. \<not> HasPrefix l ''panic('' \<Longrightarrow> cleanTrace_loop stack lines header rest = stack"
  by (induction rest) auto

lemma cleanTrace_loop_found:
  assumes "\<forall>l \<in> set pre. \<not> HasPrefix l ''panic(''" "HasPrefix l ''panic(''"
  shows "cleanTrace_loop stack (done' @ pre @ l # post) header (pre @ l # post) =
    (if length post < 2 then stack else join_lines (header # tl post))"
  using assms(1)
proof (induction pre arbitrary: done')
  case Nil
  then show ?case using assms(2) by (cases post) (auto simp: Let_def drop_Suc)
next
  case (Cons p pre)
  then show ?case using Cons.IH [of "done' @ [p]"] by simp
qed

section \<open>Properties\<close>

text \<open>
  C31. \<open>cleanTrace\<close> of a stack of lines: with no \<open>panic(\<close> frame it is the stack itself; with a
  first one at line \<open>i\<close> that has a frame below its location line it is the header followed by
  the lines from \<open>i + 2\<close> on, and a truncated stack is returned unchanged.
\<close>
theorem cleanTrace_lines:
  assumes "\<forall>l \<in> set (pre @ frame # post). newline \<notin> set l"
    and "\<forall>l \<in> set pre. \<not> HasPrefix l ''panic(''" and "HasPrefix frame ''panic(''"
  shows "cleanTrace (join_lines (pre @ frame # post)) =
      (if length post < 2 then join_lines (pre @ frame # post)
       else join_lines ((pre @ [frame]) ! 0 # tl post)) \<and>
    (\<forall>ls. ls \<noteq> [] \<and> (\<forall>l \<in> set ls. newline \<notin> set l \<and> \<not> HasPrefix l ''panic('') \<longrightarrow>
       cleanTrace (join_lines ls) = join_lines ls)"
proof (intro conjI allI impI)
  have hd: "(pre @ frame # post) ! 0 = (pre @ [frame]) ! 0" by (cases pre) auto
  show "cleanTrace (join_lines (pre @ frame # post)) =
      (if length post < 2 then join_lines (pre @ frame # post)
       else join_lines ((pre @ [frame]) ! 0 # tl post))"
    using cleanTrace_loop_found [OF assms(2,3), of _ "[]" post] split_join [OF _ assms(1)] hd
    by (simp add: cleanTrace_def)
next
  fix ls :: "string list"
  assume "ls \<noteq> [] \<and> (\<forall>l \<in> set ls. newline \<notin> set l \<and> \<not> HasPrefix l ''panic('')"
  then show "cleanTrace (join_lines ls) = join_lines ls"
    by (simp add: cleanTrace_def split_join cleanTrace_loop_none)
qed

theorem cleanTrace_lines_witness:
  "cleanTrace (join_lines [''goroutine 7'', ''debug.Stack()'', ''stack.go:26'', ''panic(0x1)'', ''panic.go:785'',
     ''main.recv()'', ''main.go:12'']) = join_lines [''goroutine 7'', ''main.recv()'', ''main.go:12'']"
  using cleanTrace_lines [of "[''goroutine 7'', ''debug.Stack()'', ''stack.go:26'']" "''panic(0x1)''"
      "[''panic.go:785'', ''main.recv()'', ''main.go:12'']"]
  by (simp add: newline_def HasPrefix_def)

end
