(* ===== verification/Message.thy ===== *)
theory Message
  imports Opts Trace
begin

text \<open>
  The messages, envelopes, receivers and producers of \<^verbatim>\<open>src/actor\<close> (\<^verbatim>\<open>lifecycle.go\<close>, \<^verbatim>\<open>events.go\<close>,
  \<^verbatim>\<open>envelope.go\<close>, \<^verbatim>\<open>receiver.go\<close>, \<^verbatim>\<open>deadletter.go\<close>) and the code an actor runs.

  The values of the user's program, its messages, receivers, producers, closures and
  middlewares, are of a type parameter \<open>'u\<close>. What a handler does is a \<open>prog\<close>: it returns, panics
  with a value (and the stack the runtime captures), or calls the package's API and goes
  on with the result. \<open>user_code\<close> is the user's side of the interfaces \<open>Receiver\<close>,
  \<open>Producer\<close> and \<open>Middleware\<close>; every theorem about the engine holds for all of them. A producer
  only allocates; a handler may read and write the user's memory (\<open>Load\<close>, \<open>Store\<close>), so it
  may keep private or shared state.

  A \<open>*Context\<close> is the reference of its process, since \<open>newProcess\<close> makes exactly one.
\<close>

section \<open>Messages\<close>

datatype (plugins only: code size) 'u msg =
    User 'u
  | Initialized
  | Started
  | Stopped
  | poisonPill "nat option" bool
  | ActorInitializedEvent PID int
  | ActorStartedEvent PID int
  | ActorStoppedEvent PID int
  | ActorRestartedEvent PID int string 'u int32
  | DeadLetterEvent "PID option" "'u msg" "PID option"

fun is_deadletter :: "'u msg \<Rightarrow> bool" where
  "is_deadletter (DeadLetterEvent target m sender) = True"
| "is_deadletter _ = False"

text \<open>\<open>poisonPill\<close> is not exported: no code outside the package can make one.\<close>

fun exported :: "'u msg \<Rightarrow> bool" where
  "exported (poisonPill c graceful) = False"
| "exported _ = True"

record 'u Envelope =
  Msg :: "'u msg"
  Sender :: "PID option"

section \<open>Receivers and producers\<close>

text \<open>\<open>ReplyFn ch\<close> is the closure that \<open>Engine.Request\<close> spawns, over its reply channel \<open>ch\<close>.\<close>

datatype 'u fn = UserFn 'u | ReplyFn nat

datatype 'u Receiver = UserReceiver 'u | funcReceiver "'u fn" | deadLetterActor

datatype 'u Producer = UserProducer 'u | funcProducer "'u fn" | newDeadLetter

datatype 'u mware = UserMW 'u | WithLogging

type_synonym 'u opts = "('u Producer, 'u mware) Opts"
type_synonym 'u optfunc = "('u Producer, 'u mware) OptFunc"

section \<open>Handlers\<close>

datatype (plugins only: code size) 'u api =
    Load
  | Store 'u
  | Now
  | LogReceive nat int
  | LogDeadLetter "'u msg"
  | ChanOffer nat "'u msg"
  | C_Message nat
  | C_Sender nat
  | C_PID nat
  | C_Parent nat
  | C_Respond nat "'u msg"
  | C_Send nat "PID option" "'u msg"
  | C_Forward nat "PID option"
  | C_Child nat string
  | C_Children nat
  | C_SpawnChild nat "'u Producer" string "'u optfunc list"
  | E_Spawn "'u Producer" string "'u optfunc list"
  | E_SpawnProc PID
  | E_Send "PID option" "'u msg"
  | E_SendWithSender "PID option" "'u msg" "PID option"
  | E_Request "PID option" "'u msg"
  | E_Poison "PID option"
  | E_PoisonAfter "PID option"
  | E_Subscribe "PID option"
  | E_Unsubscribe "PID option"
  | E_BroadcastEvent "'u msg"
  | E_SendRepeat "PID option" "'u msg" int64
  | E_SendAfter "PID option" "'u msg"
  | Ctx_Done nat
  | Response_Result nat
  | Repeater_Stop "nat option"

text \<open>Methods that only call another: \<open>SpawnFunc\<close>, \<open>SpawnChildFunc\<close>, \<open>Stop\<close>, \<open>Context.SendRepeat\<close>.\<close>

definition E_SpawnFunc :: "'u \<Rightarrow> string \<Rightarrow> 'u optfunc list \<Rightarrow> 'u api" where
  "E_SpawnFunc f kind opts = E_Spawn (funcProducer (UserFn f)) kind opts"

definition C_SpawnChildFunc :: "nat \<Rightarrow> 'u \<Rightarrow> string \<Rightarrow> 'u optfunc list \<Rightarrow> 'u api" where
  "C_SpawnChildFunc c f kind opts = C_SpawnChild c (funcProducer (UserFn f)) kind opts"

definition E_Stop :: "PID option \<Rightarrow> 'u api" where
  "E_Stop pid = E_Poison pid"

definition C_SendRepeat :: "nat \<Rightarrow> PID option \<Rightarrow> 'u msg \<Rightarrow> int64 \<Rightarrow> 'u api" where
  "C_SendRepeat c to m interval = E_SendRepeat to m interval"

datatype (plugins only: code size) 'u ret =
    RUnit
  | RVal 'u
  | RTime int
  | RMsg "'u msg"
  | RPid "PID option"
  | RPids "PID list"
  | RRef nat
  | RResult "'u msg option" bool

datatype (plugins only: code size) 'u prog = Done | PanicWith 'u string | Do "'u api" "'u ret \<Rightarrow> 'u prog"

fun ret_time :: "'u ret \<Rightarrow> int" where
  "ret_time (RTime t) = t"
| "ret_time _ = 0"

type_synonym 'u ReceiveFunc = "nat \<Rightarrow> 'u prog"

primrec pseq :: "'u prog \<Rightarrow> 'u prog \<Rightarrow> 'u prog" where
  "pseq Done q = q"
| "pseq (PanicWith v stack) q = PanicWith v stack"
| "pseq (Do a k) q = Do a (\<lambda>r. pseq (k r) q)"

definition call :: "'u api \<Rightarrow> 'u prog" where
  "call a = Do a (\<lambda>_. Done)"

record 'u user_code =
  uc_produce :: "'u \<Rightarrow> 'u \<Rightarrow> 'u \<times> 'u"
  uc_receive :: "'u \<Rightarrow> 'u ReceiveFunc"
  uc_func :: "'u \<Rightarrow> 'u ReceiveFunc"
  uc_middleware :: "'u \<Rightarrow> 'u ReceiveFunc \<Rightarrow> 'u ReceiveFunc"

text \<open>\<open>deadLetterActor.Receive\<close>: log a \<open>DeadLetterEvent\<close>, ignore everything else.\<close>

definition deadLetter_Receive :: "'u ReceiveFunc" where
  "deadLetter_Receive c =
     Do (C_Message c) (\<lambda>r. case r of
        RMsg m \<Rightarrow> if is_deadletter m then call (LogDeadLetter m) else Done
      | _ \<Rightarrow> Done)"

text \<open>The handler inside \<open>Engine.Request\<close>: ignore the lifecycle, offer the first reply to the channel.\<close>

definition reply_Receive :: "nat \<Rightarrow> 'u ReceiveFunc" where
  "reply_Receive ch c =
     Do (C_Message c) (\<lambda>r. case r of
        RMsg m \<Rightarrow> (case m of Initialized \<Rightarrow> Done | Started \<Rightarrow> Done | Stopped \<Rightarrow> Done
                   | _ \<Rightarrow> Do (C_Message c) (\<lambda>r. case r of RMsg m \<Rightarrow> call (ChanOffer ch m) | _ \<Rightarrow> Done))
      | _ \<Rightarrow> Done)"

fun fn_call :: "'u user_code \<Rightarrow> 'u fn \<Rightarrow> 'u ReceiveFunc" where
  "fn_call U (UserFn f) = uc_func U f"
| "fn_call U (ReplyFn ch) = reply_Receive ch"

text \<open>\<open>Receiver.Receive\<close>, by the dynamic type of the receiver.\<close>

fun Receive :: "'u user_code \<Rightarrow> 'u Receiver \<Rightarrow> 'u ReceiveFunc" where
  "Receive U (UserReceiver x) = uc_receive U x"
| "Receive U (funcReceiver f) = fn_call U f"
| "Receive U deadLetterActor = deadLetter_Receive"

text \<open>Calling a \<open>Producer\<close>, with the user's memory.\<close>

fun produce :: "'u user_code \<Rightarrow> 'u Producer \<Rightarrow> 'u \<Rightarrow> 'u Receiver \<times> 'u" where
  "produce U (UserProducer p) m = (case uc_produce U p m of (x, m) \<Rightarrow> (UserReceiver x, m))"
| "produce U (funcProducer f) m = (funcReceiver f, m)"
| "produce U newDeadLetter m = (deadLetterActor, m)"

lemma pseq_Done [simp]: "pseq p Done = p"
  by (induction p) auto

lemma pseq_assoc: "pseq (pseq p q) r = pseq p (pseq q r)"
  by (induction p) auto

end
