(* ===== verification/Middleware.thy ===== *)
theory Middleware
  imports Message
begin

text \<open>
  \<^verbatim>\<open>src/actor/middleware.go\<close>: a middleware is a function on handlers, as in the source. \<open>buildChain\<close>
  keeps the loop that runs from the last index down; \<open>WithLogging\<close> is the logging wrapper.
  \<open>calls\<close> gives the API calls a handler makes when the calls are answered by \<open>env\<close>, so the
  order in which a chain runs can be stated.
\<close>

definition logging :: "'u ReceiveFunc \<Rightarrow> 'u ReceiveFunc" where
  "logging nxt c = Do Now (\<lambda>start. pseq (nxt c) (call (LogReceive c (ret_time start))))"

fun mw_apply :: "'u user_code \<Rightarrow> 'u mware \<Rightarrow> 'u ReceiveFunc \<Rightarrow> 'u ReceiveFunc" where
  "mw_apply U (UserMW w) nxt = uc_middleware U w nxt"
| "mw_apply U WithLogging nxt = logging nxt"

text \<open>\<open>for i := len(mw) - 1; i >= 0; i--\<close>, with \<open>n = i + 1\<close> middlewares left to wrap.\<close>

fun buildChain_loop :: "'u user_code \<Rightarrow> 'u mware list \<Rightarrow> nat \<Rightarrow> 'u ReceiveFunc \<Rightarrow> 'u ReceiveFunc" where
  "buildChain_loop U mw 0 h = h"
| "buildChain_loop U mw (Suc i) h = buildChain_loop U mw i (mw_apply U (mw ! i) h)"

definition buildChain :: "'u user_code \<Rightarrow> 'u mware list \<Rightarrow> 'u Receiver \<Rightarrow> 'u ReceiveFunc" where
  "buildChain U mw receiver =
     (if mw = [] then Receive U receiver
      else buildChain_loop U mw (length mw) (Receive U receiver))"

section \<open>Running a handler against its answers\<close>

primrec calls :: "'u prog \<Rightarrow> ('u api list \<Rightarrow> 'u ret) \<Rightarrow> 'u api list \<Rightarrow> 'u api list \<times> bool" where
  "calls Done env done' = (done', True)"
| "calls (PanicWith v stack) env done' = (done', False)"
| "calls (Do a k) env done' = calls (k (env (done' @ [a]))) env (done' @ [a])"

lemma calls_pseq:
  "calls (pseq p q) env d =
     (case calls p env d of (d', True) \<Rightarrow> calls q env d' | (d', False) \<Rightarrow> (d', False))"
  by (induction p arbitrary: d) auto

lemma calls_extends: "\<exists>d'. fst (calls p env d) = d @ d'"
proof (induction p arbitrary: d)
  case (Do a k)
  then obtain d' where "fst (calls (k (env (d @ [a]))) env (d @ [a])) = (d @ [a]) @ d'"
    by (metis rangeI)
  then show ?case by simp
qed auto

lemma buildChain_loop_foldr:
  "n \<le> length mw \<Longrightarrow> buildChain_loop U mw n h = foldr (mw_apply U) (take n mw) h"
  by (induction n arbitrary: h) (auto simp: take_Suc_conv_app_nth)

lemma buildChain_foldr: "buildChain U mw receiver = foldr (mw_apply U) mw (Receive U receiver)"
  by (simp add: buildChain_def buildChain_loop_foldr)

text \<open>
  A middleware that makes one call on the way in and one on the way out, which may use what the
  first returned.
\<close>

definition around :: "(nat \<Rightarrow> 'u api) \<Rightarrow> (nat \<Rightarrow> 'u ret \<Rightarrow> 'u api) \<Rightarrow> 'u ReceiveFunc \<Rightarrow> 'u ReceiveFunc" where
  "around pre post nxt c = Do (pre c) (\<lambda>r. pseq (nxt c) (call (post c r)))"

lemma logging_around: "logging = around (\<lambda>_. Now) (\<lambda>c r. LogReceive c (ret_time r))"
  by (auto simp: logging_def around_def fun_eq_iff)

text \<open>The calls on the way in, and those on the way out, after the calls \<open>d\<close>.\<close>

definition ins :: "('w \<Rightarrow> nat \<Rightarrow> 'u api) \<Rightarrow> nat \<Rightarrow> 'w list \<Rightarrow> 'u api list" where
  "ins pre c mw = map (\<lambda>w. pre w c) mw"

definition outs :: "('u api list \<Rightarrow> 'u ret) \<Rightarrow> 'u api list \<Rightarrow> ('w \<Rightarrow> nat \<Rightarrow> 'u api) \<Rightarrow> ('w \<Rightarrow> nat \<Rightarrow> 'u ret \<Rightarrow> 'u api)
    \<Rightarrow> nat \<Rightarrow> 'w list \<Rightarrow> 'u api list" where
  "outs env d pre post c mw =
     map (\<lambda>k. post (mw ! k) c (env (d @ ins pre c (take (Suc k) mw)))) (rev [0..<length mw])"

lemma outs_Nil [simp]: "outs env d pre post c [] = []"
  by (simp add: outs_def)

lemma outs_Cons [simp]:
  "outs env d pre post c (w # mw) =
     outs env (d @ [pre w c]) pre post c mw @ [post w c (env (d @ [pre w c]))]"
  by (simp add: outs_def ins_def upt_conv_Cons rev_map map_Suc_upt [symmetric] comp_def del: upt_Suc)

lemma calls_around_chain:
  assumes "\<forall>w \<in> set mw. mw_apply U w = around (pre w) (post w)"
  shows "calls (foldr (mw_apply U) mw h c) env d =
    (case calls (h c) env (d @ ins pre c mw) of
       (d', ok) \<Rightarrow> (if ok then d' @ outs env d pre post c mw else d', ok))"
  using assms
proof (induction mw arbitrary: d)
  case (Cons w mw)
  then show ?case
    using Cons.IH [of "d @ [pre w c]"]
    by (auto simp: around_def calls_pseq call_def ins_def split: prod.splits bool.splits)
qed (auto simp: ins_def split: prod.splits)

section \<open>Properties\<close>

text \<open>
  \<open>buildChain\<close> wraps outermost first: \<open>buildChain([w1, ..., wn], r)\<close> is
  \<open>w1(w2(...(wn(r.Receive))))\<close>, and with no middleware it is \<open>r.Receive\<close> itself.
\<close>
lemma buildChain_outermost_first:
  "buildChain U [] r = Receive U r \<and>
   buildChain U (w # mw) r = mw_apply U w (buildChain U mw r) \<and>
   buildChain U (mw @ mw') r = foldr (mw_apply U) mw (buildChain U mw' r)"
  by (simp add: buildChain_foldr)

text \<open>
  C28. A chain of middlewares that each act before and after the next handler runs like an
  onion: the calls on the way in happen in the order of the list, then the receiver's own,
  then the calls on the way out in reverse order, each with what its own first call
  returned. When the receiver panics none of the calls on the way out is made, and the
  panic is the chain's own. \<open>WithLogging\<close> is such a middleware, so it neither hides a panic
  nor changes what the handler does.
\<close>
theorem buildChain_onion:
  assumes "\<forall>w \<in> set mw. mw_apply U w = around (pre w) (post w)"
  shows "calls (buildChain U mw r c) env [] =
      (case calls (Receive U r c) env (ins pre c mw) of
         (d, ok) \<Rightarrow> (if ok then d @ outs env [] pre post c mw else d, ok)) \<and>
    mw_apply U WithLogging = around (\<lambda>_. Now) (\<lambda>c r. LogReceive c (ret_time r))"
  using calls_around_chain [OF assms, of "Receive U r" c env "[]"]
  by (simp add: buildChain_foldr) (auto simp: logging_around fun_eq_iff)

definition mw_demo :: "nat user_code" where
  "mw_demo = \<lparr>uc_produce = (\<lambda>p m. (p, m)), uc_receive = (\<lambda>x c. call (Store x)), uc_func = (\<lambda>f c. Done),
     uc_middleware = (\<lambda>w. around (\<lambda>_. Store (10 + w)) (\<lambda>_ _. Store (20 + w)))\<rparr>"

theorem buildChain_onion_witness:
  "calls (buildChain mw_demo [UserMW 1, WithLogging, UserMW 2] (UserReceiver 7) 0) (\<lambda>d. RTime (int (length d))) [] =
     ([Store 11, Now, Store 12, Store 7, Store 22, LogReceive 0 2, Store 21], True)"
proof -
  define pre where "pre w = (case w of UserMW x \<Rightarrow> (\<lambda>_ :: nat. Store (10 + x)) | WithLogging \<Rightarrow> (\<lambda>_. Now))" for w :: "nat mware"
  define post where "post w = (case w of UserMW x \<Rightarrow> (\<lambda>_ (_ :: nat ret). Store (20 + x))
      | WithLogging \<Rightarrow> (\<lambda>c r. LogReceive c (ret_time r)))" for w :: "nat mware"
  have "\<forall>w \<in> set [UserMW 1, WithLogging, UserMW 2]. mw_apply mw_demo w = around (pre w) (post w)"
    by (auto simp: mw_demo_def pre_def post_def logging_around fun_eq_iff)
  from buildChain_onion [OF this, of "UserReceiver 7" 0 "\<lambda>d. RTime (int (length d))"] show ?thesis
    by (simp add: mw_demo_def pre_def post_def call_def ins_def)
qed

end
