(* ===== verification/Engine.thy ===== *)
theory Engine
  imports Mailbox EventStream Middleware
begin

text \<open>
  The engine as a machine: \<^verbatim>\<open>src/actor/process.go\<close>, \<^verbatim>\<open>engine.go\<close>, \<^verbatim>\<open>context.go\<close>, \<^verbatim>\<open>response.go\<close> and
  \<^verbatim>\<open>repeat.go\<close>.

  A goroutine is a stack of instructions and a register for the last result. An instruction is
  one atomic action of the Go code: a critical section under one lock, an atomic
  operation, a channel operation, or a call. Executing it (\<open>exec_instr\<close>) changes the engine's
  state and replaces it by the instructions of the body it stands for, so the stack is what
  the goroutine still has to do, and it may start goroutines. The functions with names in
  \<open>_code\<close> are the bodies of the Go functions, in order. A deferred \<open>recover\<close> is the step that
  replaces a handler that panics by \<open>ITryRestart\<close>.

  Objects on the heap (processes, cancellable contexts, wait groups, channels, responses,
  repeaters) are lists indexed by reference. Timers may fire at any moment, so the
  model has every timing; \<open>ch\<close> resolves what Go leaves open (the order of a range over a
  map, the branch of a select).

  The fields with names in \<open>g\<close> are history variables: no instruction reads them. \<open>gsent\<close> lists the
  envelopes pushed into the inboxes and \<open>gtaken\<close> those that \<open>Invoke\<close> got to, with their process;
  \<open>gtarget\<close> is the PID that each context was made to poison, and \<open>gwgs\<close> the process whose children
  each wait group counts.
\<close>

section \<open>State\<close>

record 'u process =
  popts :: "'u opts"
  inbox :: "'u Envelope list Inbox"
  ppid :: PID
  receiver :: "'u Receiver option"
  chain :: "'u ReceiveFunc option"
  stopped :: bool
  cancels :: "nat list"
  restarts :: int32
  children :: "(string, PID) gomap"
  cmessage :: "'u msg option"
  csender :: "PID option"
  gdelivered :: "'u Envelope list"
  gpanics :: nat
  grestarted :: nat
  gtorn :: nat

text \<open>What the registry holds: a \<open>*process\<close>, or a \<open>Processer\<close> of the user's own.\<close>

datatype Processer = Process nat PID | Custom nat PID

fun Processer_PID :: "Processer \<Rightarrow> PID" where
  "Processer_PID (Process r pid) = pid"
| "Processer_PID (Custom n pid) = pid"

record 'u Response =
  resp_pid :: "PID option"
  resp_done :: bool
  resp_result :: "'u msg option"
  resp_err :: bool

record SendRepeater =
  rep_stop :: bool
  rep_done :: bool

datatype 'u log =
    ActorReceive PID "'u msg option" int
  | DeadLetter "'u msg"
  | RestartsDisabled PID 'u string
  | RestartsExhausted PID int32 'u string
  | Restarting PID int32 'u string

datatype (plugins only: code size) 'u instr =
    IProg "nat option" "'u prog"
  | IResume "nat option" "'u ret \<Rightarrow> 'u prog"
  | IApi "'u api"
  | IProduce nat
  | IInvokeMsg nat "'u Envelope"
  | ITryRestart nat 'u string
  | IShutdown nat
  | IRemoveFromParent nat
  | IRemoveChild nat PID
  | IInboxStop nat
  | ICancel nat
  | IInvoke nat "'u Envelope list"
  | IHandlePoison nat "nat option"
  | IShutdownChildren nat
  | IGoPoison "PID list" nat
  | IPoisonWait "PID option"
  | IAwaitCtx nat
  | IWgDone nat
  | IWgWait nat
  | IEvent "int \<Rightarrow> 'u msg"
  | IBroadcast "'u msg"
  | IBroadcastScan "(string \<times> PID) list" "PID list" "'u msg"
  | IRegister nat
  | IUnregister PID
  | ISendMessage "PID option" "'u msg" "PID option"
  | ISendMiss "PID option" "'u msg" "PID option"
  | IDeliver nat "'u Envelope"
  | ISchedule nat
  | IPoison "PID option" nat
  | IAddCancel nat nat
  | ISpawn "'u Producer" string "'u optfunc list"
  | ISpawnChild nat "'u Producer" string "'u optfunc list"
  | ISpawnProc nat
  | IAddChild nat
  | IAddChildTo nat PID
  | ISetDeadletter
  | ISubscribeDeadletter
  | IProcessor nat "'u Envelope processor_pc"
  | IRequest "PID option" "'u msg"
  | IRequestSend "PID option" "'u msg" nat
  | IGoAwait "PID option" nat
  | IAwait nat nat "PID option"
  | ICloseResponse nat
  | IAfter "PID option" nat
  | IRepeat nat "PID option" "'u msg" int64
  | IRepeatLoop nat "PID option" "'u msg"
  | ISendAfterTimer nat "PID option" "'u msg"
  | ICloseRepeater nat
  | IAwaitRepeater nat
  | IReturn "'u ret"

record 'u goroutine =
  code :: "'u instr list"
  acc :: "'u ret"

record 'u engine =
  procs :: "'u process list"
  registry :: "Processer registry"
  events :: eventStream
  es_mu :: bool
  deadletter :: "PID option"
  pidCounter :: uint64
  childIDCounter :: uint64
  ctxs :: "bool list"
  wgs :: "nat list"
  chans :: "'u msg option list"
  responses :: "'u Response list"
  repeaters :: "SendRepeater list"
  customs :: nat
  memory :: 'u
  clock :: int
  slog :: "'u log list"
  gtarget :: "PID option list"
  gwgs :: "nat list"
  gsent :: "(nat \<times> 'u Envelope) list"
  gtaken :: "(nat \<times> 'u Envelope) list"
  threads :: "'u goroutine list"

definition upd_proc :: "nat \<Rightarrow> ('u process \<Rightarrow> 'u process) \<Rightarrow> 'u engine \<Rightarrow> 'u engine" where
  "upd_proc r f s = s\<lparr>procs := (procs s)[r := f (procs s ! r)]\<rparr>"

section \<open>Processes\<close>

definition newProcess :: "'u opts \<Rightarrow> 'u process" where
  "newProcess opts =
     \<lparr>popts = opts,
      inbox = (case NewInbox list_new (InboxSize opts) of Return ib \<Rightarrow> ib
               | _ \<Rightarrow> \<lparr>rb = [], proc = None, throughput = defaultThroughput, procStatus = StateIdle\<rparr>),
      ppid = NewPID localAddress (OID opts), receiver = None, chain = None, stopped = False,
      cancels = [], restarts = 0, children = [], cmessage = None, csender = None,
      gdelivered = [], gpanics = 0, grestarted = 0, gtorn = 0\<rparr>"

definition addChild :: "PID \<Rightarrow> 'u process \<Rightarrow> 'u process" where
  "addChild pid p = p\<lparr>children := gm_put (ID pid) pid (children p)\<rparr>"

definition removeChild :: "PID \<Rightarrow> 'u process \<Rightarrow> 'u process" where
  "removeChild pid p = p\<lparr>children := gm_del (ID pid) (children p)\<rparr>"

definition childPIDs :: "nat list \<Rightarrow> 'u process \<Rightarrow> PID list" where
  "childPIDs ord p = map snd (range_order ord (children p))"

definition addCancel :: "nat \<Rightarrow> 'u process \<Rightarrow> bool \<times> 'u process" where
  "addCancel c p = (if stopped p then (False, p) else (True, p\<lparr>cancels := cancels p @ [c]\<rparr>))"

definition withEnvelope :: "'u Envelope \<Rightarrow> 'u process \<Rightarrow> 'u process" where
  "withEnvelope e p = p\<lparr>cmessage := Some (Msg e), csender := Sender e, gdelivered := gdelivered p @ [e]\<rparr>"

definition env_of :: "'u msg \<Rightarrow> 'u Envelope" where
  "env_of m = \<lparr>Msg = m, Sender = None\<rparr>"

text \<open>\<open>process.Start\<close>; the producer call, \<open>context.receiver\<close> and the chain are one instruction.\<close>

definition Start_code :: "nat \<Rightarrow> PID \<Rightarrow> 'u instr list" where
  "Start_code r pid =
     [IProduce r,
      IInvokeMsg r (env_of Initialized),
      IEvent (ActorInitializedEvent pid),
      IRegister r,
      IInvokeMsg r (env_of Started),
      IEvent (ActorStartedEvent pid)]"

definition handlePoison_code :: "nat \<Rightarrow> nat option \<Rightarrow> 'u instr list" where
  "handlePoison_code r cancel =
     [IShutdownChildren r, IShutdown r] @ (case cancel of None \<Rightarrow> [] | Some c \<Rightarrow> [ICancel c])"

fun Invoke_code :: "nat \<Rightarrow> 'u Envelope list \<Rightarrow> 'u instr list" where
  "Invoke_code r [] = []"
| "Invoke_code r (e # es) =
     (case Msg e of
        poisonPill cancel graceful \<Rightarrow> [IHandlePoison r cancel]
      | _ \<Rightarrow> [IInvokeMsg r e, IInvoke r es])"

text \<open>The first half of \<open>Shutdown\<close>, under the lock, gives the second half, or nothing if it lost.\<close>

definition Shutdown :: "nat \<Rightarrow> 'u process \<Rightarrow> 'u process \<times> 'u instr list" where
  "Shutdown r p =
     (if stopped p then (p, [])
      else (p\<lparr>stopped := True, cancels := [], gtorn := Suc (gtorn p)\<rparr>,
        [IRemoveFromParent r,
         IInvokeMsg r (env_of Stopped),
         IEvent (ActorStoppedEvent (ppid p)),
         IUnregister (ppid p),
         IInboxStop r] @ map ICancel (cancels p)))"

text \<open>\<open>tryRestart\<close>: the process, what is logged, and what runs next. The sleep takes no step.\<close>

definition tryRestart :: "nat \<Rightarrow> 'u \<Rightarrow> string \<Rightarrow> 'u process \<Rightarrow> 'u process \<times> 'u log \<times> 'u instr list" where
  "tryRestart r v trace p =
     (let stack = cleanTrace trace; p = p\<lparr>gpanics := Suc (gpanics p)\<rparr> in
      if MaxRestarts (popts p) = 0 then (p, RestartsDisabled (ppid p) v stack, [IShutdown r])
      else
        let n = restarts p + 1; p = p\<lparr>restarts := n\<rparr> in
        if sint n > sint (MaxRestarts (popts p)) then (p, RestartsExhausted (ppid p) n v stack, [IShutdown r])
        else (p\<lparr>grestarted := Suc (grestarted p)\<rparr>, Restarting (ppid p) n v stack,
              IEvent (\<lambda>t. ActorRestartedEvent (ppid p) t stack v n) # Start_code r (ppid p)))"

section \<open>Executing an instruction\<close>

text \<open>
  The result of an instruction: the new state, the instructions that replace it, the value it
  returns if it returns one, and the goroutines it starts. \<open>None\<close> says that it cannot run
  now: it waits, or (a handle the program never received, a panic outside \<open>Receive\<close>) a Go
  program has no such step.
\<close>

type_synonym 'u eff = "('u engine \<times> 'u instr list \<times> 'u ret option \<times> 'u instr list list) option"

definition goes :: "'u engine \<Rightarrow> 'u instr list \<Rightarrow> 'u eff" where
  "goes s is = Some (s, is, None, [])"

definition returns :: "'u engine \<Rightarrow> 'u ret \<Rightarrow> 'u eff" where
  "returns s v = Some (s, [], Some v, [])"

definition resolve :: "'u engine \<Rightarrow> PID option \<Rightarrow> Processer option" where
  "resolve s pid = reg_get (registry s) pid"

definition new_ctx :: "PID option \<Rightarrow> 'u engine \<Rightarrow> nat \<times> 'u engine" where
  "new_ctx pid s = (length (ctxs s), s\<lparr>ctxs := ctxs s @ [False], gtarget := gtarget s @ [pid]\<rparr>)"

definition handler :: "'u user_code \<Rightarrow> nat \<Rightarrow> 'u process \<Rightarrow> 'u prog option" where
  "handler U r p =
     (case chain p of
        Some f \<Rightarrow> Some (f r)
      | None \<Rightarrow> (case receiver p of Some x \<Rightarrow> Some (Receive U x r) | None \<Rightarrow> None))"

text \<open>The calls of a handler: \<open>Context\<close> methods, then \<open>Engine\<close> methods.\<close>

definition Context_Child :: "nat list \<Rightarrow> string \<Rightarrow> 'u process \<Rightarrow> PID option" where
  "Context_Child ord ident p =
     List.find (\<lambda>pid. ID pid = ID (PID_Child (Some (ppid p)) ident) \<or> shortName (ID pid) = ident)
       (childPIDs ord p)"

definition Context_Children :: "nat list \<Rightarrow> 'u process \<Rightarrow> PID list" where
  "Context_Children ord p = childPIDs ord p"

definition Context_Respond :: "'u process \<Rightarrow> 'u msg \<Rightarrow> 'u instr list" where
  "Context_Respond p m =
     (case csender p of None \<Rightarrow> [] | Some to \<Rightarrow> [ISendMessage (Some to) m None]) @ [IReturn RUnit]"

definition log_line :: "'u log \<Rightarrow> 'u engine \<Rightarrow> 'u engine" where
  "log_line l s = s\<lparr>slog := slog s @ [l]\<rparr>"

definition Context_Send :: "'u process \<Rightarrow> PID option \<Rightarrow> 'u msg \<Rightarrow> 'u instr list" where
  "Context_Send p to m = [ISendMessage to m (Some (ppid p)), IReturn RUnit]"

definition Context_Forward :: "'u process \<Rightarrow> PID option \<Rightarrow> 'u engine \<Rightarrow> 'u eff" where
  "Context_Forward p to s =
     map_option (\<lambda>m. (s, [ISendMessage to m (csender p), IReturn RUnit], None, [])) (cmessage p)"

definition Send :: "PID option \<Rightarrow> 'u msg \<Rightarrow> 'u instr list" where
  "Send pid m = [ISendMessage pid m None, IReturn RUnit]"

definition SendWithSender :: "PID option \<Rightarrow> 'u msg \<Rightarrow> PID option \<Rightarrow> 'u instr list" where
  "SendWithSender pid m sender = [ISendMessage pid m sender, IReturn RUnit]"

definition BroadcastEvent :: "'u msg \<Rightarrow> 'u instr list" where
  "BroadcastEvent m = [IBroadcast m, IReturn RUnit]"

definition Subscribe :: "PID option \<Rightarrow> 'u engine \<Rightarrow> 'u eff" where
  "Subscribe pid s = (if es_mu s then None else returns (s\<lparr>events := subscribe pid (events s)\<rparr>) RUnit)"

definition Unsubscribe :: "PID option \<Rightarrow> 'u engine \<Rightarrow> 'u eff" where
  "Unsubscribe pid s = (if es_mu s then None else returns (s\<lparr>events := unsubscribe pid (events s)\<rparr>) RUnit)"

text \<open>
  \<open>SpawnProc\<close> with a \<open>Processer\<close> of the user's own, whose \<open>Start\<close> is code of the user's that runs
  before this step. (\<open>newProcess\<close> is not exported, so no user has a \<open>*process\<close> to pass.)
\<close>

definition SpawnProc :: "PID \<Rightarrow> 'u engine \<Rightarrow> 'u eff" where
  "SpawnProc pid s =
     returns (s\<lparr>customs := Suc (customs s),
               registry := snd (reg_add Processer_PID (Custom (customs s) pid) (registry s))\<rparr>)
       (RPid (Some pid))"

definition Poison :: "PID option \<Rightarrow> 'u engine \<Rightarrow> 'u eff" where
  "Poison pid s = (let (c, s) = new_ctx pid s in goes s [IPoison pid c, IReturn (RRef c)])"

definition PoisonAfter :: "PID option \<Rightarrow> 'u engine \<Rightarrow> 'u eff" where
  "PoisonAfter pid s = (let (c, s) = new_ctx pid s in Some (s, [], Some (RRef c), [[IAfter pid c]]))"

definition newSendRepeater :: SendRepeater where
  "newSendRepeater = \<lparr>rep_stop = False, rep_done = False\<rparr>"

definition SendRepeat :: "PID option \<Rightarrow> 'u msg \<Rightarrow> int64 \<Rightarrow> 'u engine \<Rightarrow> 'u eff" where
  "SendRepeat to m interval s =
     goes (s\<lparr>repeaters := repeaters s @ [newSendRepeater]\<rparr>)
       [ISendMessage to m None, IRepeat (length (repeaters s)) to m interval]"

definition SendAfter :: "PID option \<Rightarrow> 'u msg \<Rightarrow> 'u engine \<Rightarrow> 'u eff" where
  "SendAfter to m s =
     Some (s\<lparr>repeaters := repeaters s @ [newSendRepeater]\<rparr>, [], Some (RRef (length (repeaters s))),
       [[ISendAfterTimer (length (repeaters s)) to m]])"

definition SendRepeater_Stop :: "nat option \<Rightarrow> 'u engine \<Rightarrow> 'u eff" where
  "SendRepeater_Stop rep s =
     (case rep of
        None \<Rightarrow> returns s RUnit
      | Some i \<Rightarrow>
          if i < length (repeaters s)
          then goes (s\<lparr>repeaters := (repeaters s)[i := (repeaters s ! i)\<lparr>rep_stop := True\<rparr>]\<rparr>) [IAwaitRepeater i]
          else None)"

definition Result :: "nat \<Rightarrow> 'u engine \<Rightarrow> 'u eff" where
  "Result i s =
     (if i < length (responses s) \<and> resp_done (responses s ! i)
      then returns s (RResult (resp_result (responses s ! i)) (resp_err (responses s ! i))) else None)"

primrec exec_api :: "'u api \<Rightarrow> nat list \<Rightarrow> 'u engine \<Rightarrow> 'u eff" where
  "exec_api Load ch s = returns s (RVal (memory s))"
| "exec_api (Store v) ch s = returns (s\<lparr>memory := v\<rparr>) RUnit"
| "exec_api Now ch s = returns s (RTime (clock s))"
| "exec_api (LogReceive c start) ch s =
     (if c < length (procs s)
      then returns (log_line (ActorReceive (ppid (procs s ! c)) (cmessage (procs s ! c)) (clock s - start)) s) RUnit
      else None)"
| "exec_api (LogDeadLetter m) ch s = returns (log_line (DeadLetter m) s) RUnit"
| "exec_api (ChanOffer i m) ch s =
     (if i < length (chans s)
      then returns (if chans s ! i = None then s\<lparr>chans := (chans s)[i := Some m]\<rparr> else s) RUnit
      else None)"
| "exec_api (C_Message c) ch s =
     (if c < length (procs s) then map_option (\<lambda>m. (s, [], Some (RMsg m), [])) (cmessage (procs s ! c)) else None)"
| "exec_api (C_Sender c) ch s =
     (if c < length (procs s) then returns s (RPid (csender (procs s ! c))) else None)"
| "exec_api (C_PID c) ch s =
     (if c < length (procs s) then returns s (RPid (Some (ppid (procs s ! c)))) else None)"
| "exec_api (C_Parent c) ch s =
     (if c < length (procs s) then returns s (RPid (parent (popts (procs s ! c)))) else None)"
| "exec_api (C_Respond c m) ch s =
     (if c < length (procs s) \<and> exported m then goes s (Context_Respond (procs s ! c) m) else None)"
| "exec_api (C_Send c to m) ch s =
     (if c < length (procs s) \<and> exported m
      then goes s (Context_Send (procs s ! c) to m) else None)"
| "exec_api (C_Forward c to) ch s =
     (if c < length (procs s) then Context_Forward (procs s ! c) to s else None)"
| "exec_api (C_Child c ident) ch s =
     (if c < length (procs s) then returns s (RPid (Context_Child ch ident (procs s ! c))) else None)"
| "exec_api (C_Children c) ch s =
     (if c < length (procs s) then returns s (RPids (Context_Children ch (procs s ! c))) else None)"
| "exec_api (C_SpawnChild c p kind opts) ch s =
     (if c < length (procs s) then goes s [ISpawnChild c p kind opts] else None)"
| "exec_api (E_Spawn p kind opts) ch s = goes s [ISpawn p kind opts]"
| "exec_api (E_SpawnProc pid) ch s = SpawnProc pid s"
| "exec_api (E_Send to m) ch s =
     (if exported m then goes s (Send to m) else None)"
| "exec_api (E_SendWithSender to m sender) ch s =
     (if exported m then goes s (SendWithSender to m sender) else None)"
| "exec_api (E_Request to m) ch s = (if exported m then goes s [IRequest to m] else None)"
| "exec_api (E_Poison pid) ch s = Poison pid s"
| "exec_api (E_PoisonAfter pid) ch s = PoisonAfter pid s"
| "exec_api (E_Subscribe pid) ch s = Subscribe pid s"
| "exec_api (E_Unsubscribe pid) ch s = Unsubscribe pid s"
| "exec_api (E_BroadcastEvent m) ch s =
     (if exported m then goes s (BroadcastEvent m) else None)"
| "exec_api (E_SendRepeat to m interval) ch s = (if exported m then SendRepeat to m interval s else None)"
| "exec_api (E_SendAfter to m) ch s = (if exported m then SendAfter to m s else None)"
| "exec_api (Ctx_Done c) ch s =
     (if c < length (ctxs s) \<and> ctxs s ! c then returns s RUnit else None)"
| "exec_api (Response_Result i) ch s = Result i s"
| "exec_api (Repeater_Stop rep) ch s = SendRepeater_Stop rep s"

text \<open>Spawning: the options, the identifier and the new process.\<close>

definition Spawn :: "'u Producer \<Rightarrow> string \<Rightarrow> 'u optfunc list \<Rightarrow> 'u engine \<Rightarrow> nat \<times> 'u engine" where
  "Spawn p kind opts s =
     (let o' = apply_opts opts ((DefaultOpts p)\<lparr>Kind := kind\<rparr>);
          (ident, n) = buildID kind (OID o') (pidCounter s)
      in (length (procs s),
          s\<lparr>pidCounter := n, procs := procs s @ [newProcess (o'\<lparr>OID := ident\<rparr>)]\<rparr>))"

definition SpawnChild :: "PID \<Rightarrow> 'u Producer \<Rightarrow> string \<Rightarrow> 'u optfunc list \<Rightarrow> 'u engine \<Rightarrow> nat \<times> 'u engine" where
  "SpawnChild pid p kind opts s =
     (let o' = apply_opts opts ((DefaultOpts p)\<lparr>Kind := kind\<rparr>);
          (ident, n) = childID pid kind (OID o') (childIDCounter s)
      in (length (procs s),
          s\<lparr>childIDCounter := n,
            procs := procs s @ [newProcess (o'\<lparr>OID := ident, parent := Some pid\<rparr>)]\<rparr>))"

text \<open>\<open>spawnProc\<close>: the incumbent's PID, or the start of the new process.\<close>

definition spawnProc :: "nat \<Rightarrow> 'u engine \<Rightarrow> 'u eff" where
  "spawnProc r s =
     (case reg_getByID (registry s) (ID (ppid (procs s ! r))) of
        Some existing \<Rightarrow> returns s (RPid (Some (Processer_PID existing)))
      | None \<Rightarrow>
          goes (upd_proc r (\<lambda>p. p\<lparr>inbox := Inbox_Start r (inbox p)\<rparr>) s)
            (Start_code r (ppid (procs s ! r)) @ [IReturn (RPid (Some (ppid (procs s ! r))))]))"

definition sendMessage :: "PID option \<Rightarrow> 'u msg \<Rightarrow> PID option \<Rightarrow> 'u engine \<Rightarrow> 'u instr list" where
  "sendMessage to m sender s =
     (case resolve s to of
        None \<Rightarrow> [ISendMiss to m sender]
      | Some (Process r pid) \<Rightarrow> [IDeliver r \<lparr>Msg = m, Sender = sender\<rparr>]
      | Some (Custom n pid) \<Rightarrow> [])"

definition sendMiss :: "PID option \<Rightarrow> 'u msg \<Rightarrow> PID option \<Rightarrow> 'u engine \<Rightarrow> 'u instr list" where
  "sendMiss pid m sender s =
     (if deadletter s \<noteq> None \<and> Equals pid (deadletter s) then []
      else if is_deadletter m then []
      else [IBroadcast (DeadLetterEvent pid m sender)])"

definition poison :: "PID option \<Rightarrow> nat \<Rightarrow> 'u engine \<Rightarrow> 'u instr list" where
  "poison pid c s =
     (case resolve s pid of Some (Process r _) \<Rightarrow> [IAddCancel r c] | _ \<Rightarrow> [ICancel c])"

text \<open>
  \<open>broadcast\<close> takes the stream's lock and fixes the order of the range; every look-up of the scan is
  a step, since the registry may change in between; the last step gives the lock back and
  leaves the sends.
\<close>

definition broadcast :: "nat list \<Rightarrow> 'u msg \<Rightarrow> 'u engine \<Rightarrow> 'u eff" where
  "broadcast ch m s =
     (if es_mu s then None
      else goes (s\<lparr>es_mu := True\<rparr>) [IBroadcastScan (range_order ch (subs (events s))) [] m])"

definition broadcast_next :: "(string \<times> PID) list \<Rightarrow> PID list \<Rightarrow> 'u msg \<Rightarrow> 'u engine \<Rightarrow> 'u eff" where
  "broadcast_next entries live m s =
     (case entries of
        [] \<Rightarrow> goes (s\<lparr>es_mu := False\<rparr>) (map (\<lambda>p. ISendMessage (Some p) m None) live)
      | e # rest \<Rightarrow>
          let (live, es) = broadcast_visit (\<lambda>p. resolve s (Some p) \<noteq> None) e live (events s)
          in goes (s\<lparr>events := es\<rparr>) [IBroadcastScan rest live m])"

type_synonym 'u EngineConfig = "'u Producer option"

definition NewEngineConfig :: "'u EngineConfig" where
  "NewEngineConfig = None"

definition WithDeadletter :: "'u Producer option \<Rightarrow> 'u EngineConfig \<Rightarrow> 'u EngineConfig" where
  "WithDeadletter p cfg = p"

definition NewEngine_code :: "'u EngineConfig \<Rightarrow> 'u instr list" where
  "NewEngine_code cfg =
     [ISpawn (case cfg of None \<Rightarrow> newDeadLetter | Some p \<Rightarrow> p) ''deadletter'' [WithID ''deadletter''],
      ISetDeadletter,
      ISubscribeDeadletter]"

definition first_branch :: "nat list \<Rightarrow> bool" where
  "first_branch ch = (case ch of [] \<Rightarrow> True | n # _ \<Rightarrow> n = 0)"

text \<open>
  One turn of a processor goroutine: the step of \<open>Inbox.process\<close>, and \<open>Invoke\<close> on a batch. The schedule says whether the
  \<open>Len\<close> of the re-check is exact or counts items that another processor is draining.
\<close>

definition processor_turn :: "nat list \<Rightarrow> nat \<Rightarrow> 'u Envelope processor_pc \<Rightarrow> 'u engine \<Rightarrow> 'u eff" where
  "processor_turn ch r pc s =
     (case process_next list_popn (seen_len (first_branch ch)) (inbox (procs s ! r)) pc of
        Return (ib, pc') \<Rightarrow>
          goes (upd_proc r (\<lambda>p. p\<lparr>inbox := ib\<rparr>) s)
            (case pc' of
               Exited \<Rightarrow> []
             | RunInvoke batch \<Rightarrow> [IInvoke r batch, IProcessor r pc']
             | _ \<Rightarrow> [IProcessor r pc'])
      | _ \<Rightarrow> None)"

text \<open>The look-up of the parent, and what is done to the process that was found.\<close>

definition removeFromParent :: "nat \<Rightarrow> 'u engine \<Rightarrow> 'u instr list" where
  "removeFromParent r s =
     (case parent (popts (procs s ! r)) of
        None \<Rightarrow> []
      | Some par \<Rightarrow>
          (case resolve s (Some par) of
             Some (Process q _) \<Rightarrow> [IRemoveChild q (ppid (procs s ! r))]
           | _ \<Rightarrow> []))"

fun ret_pid :: "'u ret \<Rightarrow> PID option" where
  "ret_pid (RPid pid) = pid"
| "ret_pid _ = None"

definition addChildOf :: "nat \<Rightarrow> 'u ret \<Rightarrow> 'u engine \<Rightarrow> 'u instr list" where
  "addChildOf c v s =
     (case (ret_pid v, resolve s (Some (ppid (procs s ! c)))) of
        (Some pid, Some (Process q _)) \<Rightarrow> [IAddChildTo q pid]
      | _ \<Rightarrow> [])"

text \<open>The producer and the chain, the first part of \<open>Start\<close>.\<close>

definition Start_produce :: "'u user_code \<Rightarrow> nat \<Rightarrow> 'u engine \<Rightarrow> 'u eff" where
  "Start_produce U r s =
     (let (x, m) = produce U (Producer (popts (procs s ! r))) (memory s);
          mw = (case Middleware (popts (procs s ! r)) of None \<Rightarrow> [] | Some mw \<Rightarrow> mw)
      in goes (upd_proc r (\<lambda>p. p\<lparr>receiver := Some x, chain := Some (buildChain U mw x)\<rparr>) (s\<lparr>memory := m\<rparr>)) [])"

definition invokeMsg :: "'u user_code \<Rightarrow> nat \<Rightarrow> 'u Envelope \<Rightarrow> 'u engine \<Rightarrow> 'u eff" where
  "invokeMsg U r e s =
     (case handler U r (procs s ! r) of
        None \<Rightarrow> None
      | Some p \<Rightarrow> goes (upd_proc r (withEnvelope e) s) [IProg (Some r) p])"

text \<open>\<open>shutdownChildren\<close>: the wait group, then one goroutine per child, then the wait.\<close>

definition shutdownChildren :: "nat list \<Rightarrow> nat \<Rightarrow> 'u engine \<Rightarrow> 'u eff" where
  "shutdownChildren ch r s =
     (let pids = childPIDs ch (procs s ! r) in
      if pids = [] then goes s []
      else goes (s\<lparr>wgs := wgs s @ [length pids], gwgs := gwgs s @ [r]\<rparr>) [IGoPoison pids (length (wgs s))])"

definition shutdownChildren_go :: "PID list \<Rightarrow> nat \<Rightarrow> 'u engine \<Rightarrow> 'u eff" where
  "shutdownChildren_go pids w s =
     (case pids of
        [] \<Rightarrow> goes s [IWgWait w]
      | pid # rest \<Rightarrow> Some (s, [IGoPoison rest w], None, [[IPoisonWait (Some pid), IWgDone w]]))"

definition registerProcess :: "nat \<Rightarrow> 'u engine \<Rightarrow> 'u engine" where
  "registerProcess r s =
     s\<lparr>registry := snd (reg_add Processer_PID (Process r (ppid (procs s ! r))) (registry s))\<rparr>"

definition unregisterProcess :: "PID \<Rightarrow> 'u engine \<Rightarrow> 'u engine" where
  "unregisterProcess pid s = s\<lparr>registry := reg_remove (Some pid) (registry s)\<rparr>"

text \<open>\<open>deliver\<close> is \<open>Inbox.Send\<close>: the push, then \<open>schedule\<close>.\<close>

definition deliver :: "nat \<Rightarrow> 'u Envelope \<Rightarrow> 'u engine \<Rightarrow> 'u eff" where
  "deliver r e s =
     (case Inbox_push list_push e (inbox (procs s ! r)) of
        Return ib \<Rightarrow> goes (upd_proc r (\<lambda>p. p\<lparr>inbox := ib\<rparr>) (s\<lparr>gsent := gsent s @ [(r, e)]\<rparr>)) [ISchedule r]
      | _ \<Rightarrow> None)"

definition deliver_schedule :: "nat \<Rightarrow> 'u engine \<Rightarrow> 'u eff" where
  "deliver_schedule r s =
     (let (started, ib) = schedule (inbox (procs s ! r)) in
      Some (upd_proc r (\<lambda>p. p\<lparr>inbox := ib\<rparr>) s, [], None, if started then [[IProcessor r RunTop]] else []))"

text \<open>The rest of \<open>poison\<close> once the process is found.\<close>

definition poison_deliver :: "nat \<Rightarrow> nat \<Rightarrow> 'u engine \<Rightarrow> 'u eff" where
  "poison_deliver r c s =
     (let (added, p) = addCancel c (procs s ! r) in
      goes (upd_proc r (\<lambda>_. p) s)
        (if added then [IDeliver r (env_of (poisonPill (Some c) True))] else [ICancel c]))"

text \<open>\<open>Request\<close>: the reply channel and the responder; the send; the \<open>Response\<close> and its goroutine.\<close>

definition Request :: "PID option \<Rightarrow> 'u msg \<Rightarrow> 'u engine \<Rightarrow> 'u eff" where
  "Request to m s =
     goes (s\<lparr>chans := chans s @ [None]\<rparr>)
       [ISpawn (funcProducer (ReplyFn (length (chans s)))) ''response'' [], IRequestSend to m (length (chans s))]"

definition Request_await :: "PID option \<Rightarrow> nat \<Rightarrow> 'u engine \<Rightarrow> 'u eff" where
  "Request_await pid i s =
     Some (s\<lparr>responses := responses s @ [\<lparr>resp_pid = pid, resp_done = False, resp_result = None, resp_err = False\<rparr>]\<rparr>,
       [], Some (RRef (length (responses s))),
       [[IAwait (length (responses s)) i pid]])"

definition await :: "nat list \<Rightarrow> nat \<Rightarrow> nat \<Rightarrow> PID option \<Rightarrow> 'u engine \<Rightarrow> 'u eff" where
  "await ch i ci pid s =
     (if first_branch ch
      then (case chans s ! ci of
              None \<Rightarrow> None
            | Some m \<Rightarrow> goes (s\<lparr>chans := (chans s)[ci := None],
                               responses := (responses s)[i := (responses s ! i)\<lparr>resp_result := Some m\<rparr>]\<rparr>)
                          [IPoisonWait pid, ICloseResponse i])
      else goes (s\<lparr>responses := (responses s)[i := (responses s ! i)\<lparr>resp_err := True\<rparr>]\<rparr>)
             [IPoisonWait pid, ICloseResponse i])"

text \<open>\<open>SendRepeat\<close> after its first send, its loop, and the goroutine of \<open>SendAfter\<close>.\<close>

definition SendRepeat_start :: "nat \<Rightarrow> PID option \<Rightarrow> 'u msg \<Rightarrow> int64 \<Rightarrow> 'u engine \<Rightarrow> 'u eff" where
  "SendRepeat_start i to m interval s =
     (if sint interval \<le> 0
      then returns (s\<lparr>repeaters := (repeaters s)[i := (repeaters s ! i)\<lparr>rep_done := True\<rparr>]\<rparr>) (RRef i)
      else Some (s, [], Some (RRef i), [[IRepeatLoop i to m]]))"

definition SendRepeat_loop :: "nat list \<Rightarrow> nat \<Rightarrow> PID option \<Rightarrow> 'u msg \<Rightarrow> 'u engine \<Rightarrow> 'u eff" where
  "SendRepeat_loop ch i to m s =
     (if first_branch ch then goes s [ISendMessage to m None, IRepeatLoop i to m]
      else if rep_stop (repeaters s ! i) then goes s [ICloseRepeater i] else None)"

definition SendAfter_timer :: "nat list \<Rightarrow> nat \<Rightarrow> PID option \<Rightarrow> 'u msg \<Rightarrow> 'u engine \<Rightarrow> 'u eff" where
  "SendAfter_timer ch i to m s =
     (if first_branch ch then goes s [ISendMessage to m None, ICloseRepeater i]
      else if rep_stop (repeaters s ! i) then goes s [ICloseRepeater i] else None)"

primrec exec_instr :: "'u instr \<Rightarrow> 'u user_code \<Rightarrow> nat list \<Rightarrow> 'u ret \<Rightarrow> 'u engine \<Rightarrow> 'u eff" where
  "exec_instr (IProg ro p) U ch v s =
     (case p of
        Done \<Rightarrow> goes s []
      | PanicWith x stack \<Rightarrow> (case ro of Some r \<Rightarrow> goes s [ITryRestart r x stack] | None \<Rightarrow> None)
      | Do a k \<Rightarrow> goes s [IApi a, IResume ro k])"
| "exec_instr (IResume ro k) U ch v s = goes s [IProg ro (k v)]"
| "exec_instr (IApi a) U ch v s = exec_api a ch s"
| "exec_instr (IProduce r) U ch v s = Start_produce U r s"
| "exec_instr (IInvokeMsg r e) U ch v s = invokeMsg U r e s"
| "exec_instr (ITryRestart r x trace) U ch v s =
     (let (p, l, is) = tryRestart r x trace (procs s ! r)
      in goes (log_line l (upd_proc r (\<lambda>_. p) s)) is)"
| "exec_instr (IShutdown r) U ch v s =
     (let (p, is) = Shutdown r (procs s ! r) in goes (upd_proc r (\<lambda>_. p) s) is)"
| "exec_instr (IRemoveFromParent r) U ch v s = goes s (removeFromParent r s)"
| "exec_instr (IRemoveChild q pid) U ch v s = goes (upd_proc q (removeChild pid) s) []"
| "exec_instr (IInboxStop r) U ch v s =
     goes (upd_proc r (\<lambda>p. p\<lparr>inbox := Inbox_Stop (inbox p)\<rparr>) s) []"
| "exec_instr (ICancel c) U ch v s = goes (s\<lparr>ctxs := (ctxs s)[c := True]\<rparr>) []"
| "exec_instr (IInvoke r batch) U ch v s =
     goes (s\<lparr>gtaken := gtaken s @ map (Pair r) (take 1 batch)\<rparr>) (Invoke_code r batch)"
| "exec_instr (IHandlePoison r cancel) U ch v s = goes s (handlePoison_code r cancel)"
| "exec_instr (IShutdownChildren r) U ch v s = shutdownChildren ch r s"
| "exec_instr (IGoPoison pids w) U ch v s = shutdownChildren_go pids w s"
| "exec_instr (IPoisonWait pid) U ch v s =
     (let (c, s) = new_ctx pid s in goes s [IPoison pid c, IAwaitCtx c])"
| "exec_instr (IAwaitCtx c) U ch v s = (if ctxs s ! c then goes s [] else None)"
| "exec_instr (IWgDone w) U ch v s = goes (s\<lparr>wgs := (wgs s)[w := wgs s ! w - 1]\<rparr>) []"
| "exec_instr (IWgWait w) U ch v s = (if wgs s ! w = 0 then goes s [] else None)"
| "exec_instr (IEvent f) U ch v s = goes s [IBroadcast (f (clock s))]"
| "exec_instr (IBroadcast m) U ch v s = broadcast ch m s"
| "exec_instr (IBroadcastScan entries live m) U ch v s = broadcast_next entries live m s"
| "exec_instr (IRegister r) U ch v s = goes (registerProcess r s) []"
| "exec_instr (IUnregister pid) U ch v s = goes (unregisterProcess pid s) []"
| "exec_instr (ISendMessage to m sender) U ch v s = goes s (sendMessage to m sender s)"
| "exec_instr (ISendMiss pid m sender) U ch v s = goes s (sendMiss pid m sender s)"
| "exec_instr (IDeliver r e) U ch v s = deliver r e s"
| "exec_instr (ISchedule r) U ch v s = deliver_schedule r s"
| "exec_instr (IPoison pid c) U ch v s = goes s (poison pid c s)"
| "exec_instr (IAddCancel r c) U ch v s = poison_deliver r c s"
| "exec_instr (ISpawn p kind opts) U ch v s = (let (r, s) = Spawn p kind opts s in goes s [ISpawnProc r])"
| "exec_instr (ISpawnChild c p kind opts) U ch v s =
     (let (r, s) = SpawnChild (ppid (procs s ! c)) p kind opts s in goes s [ISpawnProc r, IAddChild c])"
| "exec_instr (ISpawnProc r) U ch v s = spawnProc r s"
| "exec_instr (IAddChild c) U ch v s = goes s (addChildOf c v s)"
| "exec_instr (IAddChildTo q pid) U ch v s = goes (upd_proc q (addChild pid) s) []"
| "exec_instr ISetDeadletter U ch v s = goes (s\<lparr>deadletter := ret_pid v\<rparr>) []"
| "exec_instr ISubscribeDeadletter U ch v s =
     (if es_mu s then None else goes (s\<lparr>events := subscribe (deadletter s) (events s)\<rparr>) [])"
| "exec_instr (IProcessor r pc) U ch v s = processor_turn ch r pc s"
| "exec_instr (IRequest to m) U ch v s = Request to m s"
| "exec_instr (IRequestSend to m i) U ch v s = goes s [ISendMessage to m (ret_pid v), IGoAwait (ret_pid v) i]"
| "exec_instr (IGoAwait pid i) U ch v s = Request_await pid i s"
| "exec_instr (IAwait i ci pid) U ch v s = await ch i ci pid s"
| "exec_instr (ICloseResponse i) U ch v s =
     goes (s\<lparr>responses := (responses s)[i := (responses s ! i)\<lparr>resp_done := True\<rparr>]\<rparr>) []"
| "exec_instr (IAfter pid c) U ch v s = goes s [IPoison pid c]"
| "exec_instr (IRepeat i to m interval) U ch v s = SendRepeat_start i to m interval s"
| "exec_instr (IRepeatLoop i to m) U ch v s = SendRepeat_loop ch i to m s"
| "exec_instr (ISendAfterTimer i to m) U ch v s = SendAfter_timer ch i to m s"
| "exec_instr (ICloseRepeater i) U ch v s =
     goes (s\<lparr>repeaters := (repeaters s)[i := (repeaters s ! i)\<lparr>rep_done := True\<rparr>]\<rparr>) []"
| "exec_instr (IAwaitRepeater i) U ch v s =
     (if rep_done (repeaters s ! i) then returns s RUnit else None)"
| "exec_instr (IReturn x) U ch v s = returns s x"

text \<open>The bodies that \<open>exec_api\<close> and \<open>exec_instr\<close> call; the proofs about an instruction unfold them.\<close>

lemmas eff_defs = goes_def returns_def Send_def SendWithSender_def BroadcastEvent_def Subscribe_def Unsubscribe_def Context_Send_def Context_Forward_def SpawnProc_def Poison_def PoisonAfter_def
  newSendRepeater_def SendRepeat_def SendAfter_def SendRepeater_Stop_def Result_def Start_produce_def invokeMsg_def
  shutdownChildren_def shutdownChildren_go_def registerProcess_def unregisterProcess_def deliver_def
  deliver_schedule_def poison_deliver_def Request_def Request_await_def await_def SendRepeat_start_def
  SendRepeat_loop_def SendAfter_timer_def broadcast_def broadcast_next_def broadcast_visit_def

section \<open>Steps\<close>

definition exec :: "'u user_code \<Rightarrow> nat list \<Rightarrow> nat \<Rightarrow> 'u engine \<Rightarrow> 'u engine option" where
  "exec U ch t s =
     (if t < length (threads s) then
        (case code (threads s ! t) of
           [] \<Rightarrow> None
         | i # rest \<Rightarrow>
             (case exec_instr i U ch (acc (threads s ! t)) s of
                None \<Rightarrow> None
              | Some (s', is, x, gos) \<Rightarrow>
                  Some (s'\<lparr>threads := (threads s)[t := \<lparr>code = is @ rest,
                      acc = (case x of None \<Rightarrow> acc (threads s ! t) | Some y \<Rightarrow> y)\<rparr>]
                    @ map (\<lambda>c. \<lparr>code = c, acc = RUnit\<rparr>) gos\<rparr>)))
      else None)"

text \<open>
  The environment may start a goroutine that runs any program against the engine (the tests,
  the user's \<open>main\<close>), and time passes. The two ID counters are variables of the package, so an
  engine may start with any value in them.
\<close>

inductive eng_step :: "'u user_code \<Rightarrow> 'u engine \<Rightarrow> 'u engine \<Rightarrow> bool" for U where
  run: "exec U ch t s = Some s' \<Longrightarrow> eng_step U s s'"
| go: "eng_step U s (s\<lparr>threads := threads s @ [\<lparr>code = [IProg None p], acc = RUnit\<rparr>]\<rparr>)"
| tick: "0 \<le> d \<Longrightarrow> eng_step U s (s\<lparr>clock := clock s + d\<rparr>)"

definition eng_init :: "'u Producer option \<Rightarrow> 'u \<Rightarrow> uint64 \<Rightarrow> uint64 \<Rightarrow> 'u engine" where
  "eng_init cfg mem n m =
     \<lparr>procs = [], registry = newRegistry, events = newEventStream, es_mu = False, deadletter = None, pidCounter = n,
      childIDCounter = m, ctxs = [], wgs = [], chans = [], responses = [], repeaters = [], customs = 0,
      memory = mem, clock = 0, slog = [], gtarget = [], gwgs = [], gsent = [], gtaken = [], threads = [\<lparr>code = NewEngine_code cfg, acc = RUnit\<rparr>]\<rparr>"

definition eng_reach :: "'u user_code \<Rightarrow> 'u engine \<Rightarrow> bool" where
  "eng_reach U s \<longleftrightarrow> (\<exists>cfg mem n m. (eng_step U)\<^sup>*\<^sup>* (eng_init cfg mem n m) s)"

end
