(* ===== verification/Engine_Inv.thy ===== *)
theory Engine_Inv
  imports Engine
begin

text \<open>
  Invariants of the engine machine. What the goroutines still have to do, without its order, is
  the multiset \<open>pool\<close>. The locale \<open>engine_invariant\<close> is the contract of an invariant: it
  holds when the engine is created, every instruction keeps it, and it does not depend on
  what the environment may do; its lemma \<open>reachable\<close> gives the invariant for every reachable
  state. Each invariant below is an interpretation.
\<close>

lemma nth_list_update_if: "j < length xs \<Longrightarrow> xs[i := x] ! j = (if i = j then x else xs ! j)"
  by (cases "i = j") auto

section \<open>The pool of pending instructions\<close>

definition pool :: "'u engine \<Rightarrow> 'u instr multiset" where
  "pool s = mset (concat (map code (threads s)))"

lemma pool_split:
  assumes "t < length (threads s)"
  shows "pool s = mset (code (threads s ! t)) + mset (concat (map code (take t (threads s) @ drop (Suc t) (threads s))))"
proof -
  have "threads s = take t (threads s) @ threads s ! t # drop (Suc t) (threads s)"
    using assms by (rule id_take_nth_drop)
  then have "pool s = mset (concat (map code (take t (threads s) @ threads s ! t # drop (Suc t) (threads s))))"
    unfolding pool_def by metis
  then show ?thesis by simp
qed

lemma exec_pool:
  assumes "exec U ch t s = Some s'"
  obtains i v s1 js x gos P ts where "pool s = add_mset i P" "exec_instr i U ch v s = Some (s1, js, x, gos)"
    "s' = s1\<lparr>threads := ts\<rparr>" "pool s' = P + mset js + mset (concat gos)"
proof -
  obtain i rest s1 js x gos where t: "t < length (threads s)" and c: "code (threads s ! t) = i # rest"
    and e: "exec_instr i U ch (acc (threads s ! t)) s = Some (s1, js, x, gos)"
    and s': "s' = s1\<lparr>threads := (threads s)[t := \<lparr>code = js @ rest,
                      acc = (case x of None \<Rightarrow> acc (threads s ! t) | Some y \<Rightarrow> y)\<rparr>]
                    @ map (\<lambda>c. \<lparr>code = c, acc = RUnit\<rparr>) gos\<rparr>"
    using assms by (auto simp: exec_def split: if_splits list.splits option.splits prod.splits)
  let ?R = "mset (concat (map code (take t (threads s) @ drop (Suc t) (threads s))))"
  have "pool s' = mset js + mset rest + ?R + mset (concat gos)"
    using t by (simp add: s' pool_def upd_conv_take_nth_drop comp_def)
  moreover have "pool s = add_mset i (mset rest + ?R)"
    using pool_split [OF t] c by simp
  ultimately show ?thesis using that [OF _ e s'] by (simp add: ac_simps)
qed

locale engine_invariant =
  fixes U :: "'u user_code"
    and I :: "'u engine \<Rightarrow> 'u instr multiset \<Rightarrow> bool"
  assumes init: "I (eng_init cfg mem n m) (mset (NewEngine_code cfg))"
    and instr: "I s (add_mset i P) \<Longrightarrow> exec_instr i U ch v s = Some (s', js, x, gos) \<Longrightarrow>
      I s' (P + mset js + mset (concat gos))"
    and go: "I s P \<Longrightarrow> I s (add_mset (IProg None p) P)"
    and tick: "I (s\<lparr>clock := d\<rparr>) P \<longleftrightarrow> I s P"
    and threads_irrelevant: "I (s\<lparr>threads := ts\<rparr>) P \<longleftrightarrow> I s P"
begin

lemma step_preserves:
  assumes "eng_step U s s'" "I s (pool s)"
  shows "I s' (pool s')"
  using assms(1)
proof cases
  case (run ch t)
  obtain i v s1 js x gos P ts where "pool s = add_mset i P" "exec_instr i U ch v s = Some (s1, js, x, gos)"
    "s' = s1\<lparr>threads := ts\<rparr>" "pool s' = P + mset js + mset (concat gos)"
    using run by (rule exec_pool)
  then show ?thesis using instr assms(2) by (auto simp: threads_irrelevant)
next
  case (go p)
  then have "pool s' = add_mset (IProg None p) (pool s)" by (simp add: pool_def)
  then show ?thesis using engine_invariant_axioms assms(2) go
    by (simp add: engine_invariant_def)
next
  case (tick d)
  then have "pool s' = pool s" by (simp add: pool_def)
  then show ?thesis using assms(2) tick(1) engine_invariant_axioms by (simp add: engine_invariant_def)
qed

lemma steps_preserve: "(eng_step U)\<^sup>*\<^sup>* s s' \<Longrightarrow> I s (pool s) \<Longrightarrow> I s' (pool s')"
  by (induction rule: rtranclp_induct) (auto intro: step_preserves)

lemma reachable: "eng_reach U s \<Longrightarrow> I s (pool s)"
proof -
  assume "eng_reach U s"
  then obtain cfg mem n m where "(eng_step U)\<^sup>*\<^sup>* (eng_init cfg mem n m) s" by (auto simp: eng_reach_def)
  moreover have "pool (eng_init cfg mem n m) = mset (NewEngine_code cfg)" by (simp add: pool_def eng_init_def)
  ultimately show ?thesis using steps_preserve init by metis
qed

end

section \<open>References are valid\<close>

primrec instr_refs :: "'u instr \<Rightarrow> nat set" where
  "instr_refs (IProg ro p) = set_option ro"
| "instr_refs (IResume ro k) = set_option ro"
| "instr_refs (IApi a) = {}"
| "instr_refs (IProduce r) = {r}"
| "instr_refs (IInvokeMsg r e) = {r}"
| "instr_refs (ITryRestart r x trace) = {r}"
| "instr_refs (IShutdown r) = {r}"
| "instr_refs (IRemoveFromParent r) = {r}"
| "instr_refs (IRemoveChild q pid) = {q}"
| "instr_refs (IInboxStop r) = {r}"
| "instr_refs (ICancel c) = {}"
| "instr_refs (IInvoke r batch) = {r}"
| "instr_refs (IHandlePoison r cancel) = {r}"
| "instr_refs (IShutdownChildren r) = {r}"
| "instr_refs (IGoPoison pids w) = {}"
| "instr_refs (IPoisonWait pid) = {}"
| "instr_refs (IAwaitCtx c) = {}"
| "instr_refs (IWgDone w) = {}"
| "instr_refs (IWgWait w) = {}"
| "instr_refs (IEvent f) = {}"
| "instr_refs (IBroadcast m) = {}"
| "instr_refs (IBroadcastScan entries live m) = {}"
| "instr_refs (IRegister r) = {r}"
| "instr_refs (IUnregister pid) = {}"
| "instr_refs (ISendMessage to m sender) = {}"
| "instr_refs (ISendMiss pid m sender) = {}"
| "instr_refs (IDeliver r e) = {r}"
| "instr_refs (ISchedule r) = {r}"
| "instr_refs (IPoison pid c) = {}"
| "instr_refs (IAddCancel r c) = {r}"
| "instr_refs (ISpawn p kind opts) = {}"
| "instr_refs (ISpawnChild c p kind opts) = {c}"
| "instr_refs (ISpawnProc r) = {r}"
| "instr_refs (IAddChild c) = {c}"
| "instr_refs (IAddChildTo q pid) = {q}"
| "instr_refs ISetDeadletter = {}"
| "instr_refs ISubscribeDeadletter = {}"
| "instr_refs (IProcessor r pc) = {r}"
| "instr_refs (IRequest to m) = {}"
| "instr_refs (IRequestSend to m i) = {}"
| "instr_refs (IGoAwait pid i) = {}"
| "instr_refs (IAwait i ci pid) = {}"
| "instr_refs (ICloseResponse i) = {}"
| "instr_refs (IAfter pid c) = {}"
| "instr_refs (IRepeat i to m interval) = {}"
| "instr_refs (IRepeatLoop i to m) = {}"
| "instr_refs (ISendAfterTimer i to m) = {}"
| "instr_refs (ICloseRepeater i) = {}"
| "instr_refs (IAwaitRepeater i) = {}"
| "instr_refs (IReturn x) = {}"

text \<open>The registry maps an ID to the process that has it, and only to processes that exist.\<close>

definition registry_ok :: "'u engine \<Rightarrow> bool" where
  "registry_ok s \<longleftrightarrow> reg_wf Processer_PID (registry s) \<and>
     (\<forall>i r pid. reg_getByID (registry s) i = Some (Process r pid) \<longrightarrow>
        r < length (procs s) \<and> ppid (procs s ! r) = pid)"

definition refs_ok :: "'u engine \<Rightarrow> 'u instr multiset \<Rightarrow> bool" where
  "refs_ok s P \<longleftrightarrow> registry_ok s \<and> es_wf (events s) \<and> (\<forall>i \<in># P. instr_refs i \<subseteq> {..<length (procs s)})"

lemma upd_proc_simps [simp]:
  "length (procs (upd_proc r f s)) = length (procs s)"
  "es_mu (upd_proc r f s) = es_mu s" "registry (upd_proc r f s) = registry s" "events (upd_proc r f s) = events s"
  "ctxs (upd_proc r f s) = ctxs s" "deadletter (upd_proc r f s) = deadletter s"
  "gsent (upd_proc r f s) = gsent s" "gtaken (upd_proc r f s) = gtaken s" "wgs (upd_proc r f s) = wgs s"
  "gtarget (upd_proc r f s) = gtarget s" "gwgs (upd_proc r f s) = gwgs s" "repeaters (upd_proc r f s) = repeaters s"
  "q < length (procs s) \<Longrightarrow> procs (upd_proc r f s) ! q = (if q = r then f (procs s ! r) else procs s ! q)"
  by (auto simp: upd_proc_def)

lemma log_line_simps [simp]:
  "es_mu (log_line l s) = es_mu s" "procs (log_line l s) = procs s" "registry (log_line l s) = registry s" "events (log_line l s) = events s"
  "ctxs (log_line l s) = ctxs s" "deadletter (log_line l s) = deadletter s"
  "gsent (log_line l s) = gsent s" "gtaken (log_line l s) = gtaken s" "wgs (log_line l s) = wgs s"
  "gtarget (log_line l s) = gtarget s" "gwgs (log_line l s) = gwgs s" "repeaters (log_line l s) = repeaters s"
  by (auto simp: log_line_def)

lemma registry_ok_upd: "registry_ok s \<Longrightarrow> (\<And>p. ppid (f p) = ppid p) \<Longrightarrow> registry_ok (upd_proc r f s)"
  by (auto simp: registry_ok_def)

lemma tryRestart_keeps: "tryRestart r x trace p = (p', l, js) \<Longrightarrow>
    ppid p' = ppid p \<and> popts p' = popts p \<and> inbox p' = inbox p \<and> cancels p' = cancels p \<and> stopped p' = stopped p"
  by (auto simp: tryRestart_def Let_def split: if_splits)

lemma Shutdown_keeps: "Shutdown r p = (p', js) \<Longrightarrow> ppid p' = ppid p \<and> popts p' = popts p \<and> inbox p' = inbox p"
  by (auto simp: Shutdown_def split: if_splits)

lemma addCancel_keeps: "addCancel c p = (b, p') \<Longrightarrow> ppid p' = ppid p \<and> popts p' = popts p \<and> inbox p' = inbox p \<and> stopped p' = stopped p"
  by (auto simp: addCancel_def split: if_splits)

lemmas code_defs = Start_code_def handlePoison_code_def sendMessage_def sendMiss_def poison_def Context_Respond_def

lemma Invoke_code_refs: "i \<in> set (Invoke_code r batch) \<Longrightarrow> instr_refs i = {r}"
  by (cases "(r, batch)" rule: Invoke_code.cases) (auto split: msg.splits)

lemma exec_api_refs:
  assumes "exec_api a ch s = Some (s', js, x, gos)" "registry_ok s" "es_wf (events s)"
  shows "registry_ok s' \<and> es_wf (events s') \<and> length (procs s') = length (procs s) \<and>
    (\<forall>i \<in> set js \<union> set (concat gos). instr_refs i \<subseteq> {..<length (procs s)})"
  using assms
  by (cases a) (auto simp: eff_defs Let_def new_ctx_def registry_ok_def code_defs reg_wf_add es_wf_ops log_line_def
      dest!: regt.add_only_own split: if_splits option.splits)

lemma Spawn_shape:
  "\<exists>o' n. Spawn p kind opts s = (length (procs s), s\<lparr>pidCounter := n, procs := procs s @ [newProcess o']\<rparr>)"
  by (auto simp: Spawn_def Let_def split: prod.splits)

lemma SpawnChild_shape:
  "\<exists>o' n. SpawnChild pid p kind opts s =
     (length (procs s), s\<lparr>childIDCounter := n, procs := procs s @ [newProcess o']\<rparr>)"
  by (auto simp: SpawnChild_def Let_def split: prod.splits)

lemma exec_instr_refs:
  assumes ok: "refs_ok s (add_mset i P)" and e: "exec_instr i U ch v s = Some (s', js, x, gos)"
  shows "registry_ok s' \<and> es_wf (events s') \<and> length (procs s) \<le> length (procs s') \<and>
    (\<forall>j \<in> set js \<union> set (concat gos). instr_refs j \<subseteq> {..<length (procs s')})"
proof -
  have reg: "registry_ok s" and ev: "es_wf (events s)" and i: "instr_refs i \<subseteq> {..<length (procs s)}"
    using ok by (auto simp: refs_ok_def)
  show ?thesis
  proof (cases i)
    case (IApi a)
    with e exec_api_refs [OF _ reg ev] show ?thesis by auto
  next
    case (IBroadcastScan entries live m)
    with e reg ev show ?thesis
      by (auto simp: eff_defs Let_def registry_ok_def es_wf_del split: list.splits if_splits)
  next
    case (ITryRestart r y trace)
    with e i reg ev show ?thesis
      by (auto simp: eff_defs Let_def registry_ok_def tryRestart_def code_defs split: prod.splits if_splits)
  next
    case (IShutdown r)
    with e i reg ev show ?thesis
      by (auto simp: eff_defs Let_def registry_ok_def Shutdown_def split: prod.splits if_splits)
  next
    case (IProcessor r pc)
    with e i reg ev show ?thesis
      by (auto simp: eff_defs processor_turn_def intro!: registry_ok_upd
          split: outcome.splits prod.splits processor_pc.splits)
  next
    case (IInvoke r batch)
    with e i reg ev Invoke_code_refs [of _ r batch] show ?thesis by (auto simp: eff_defs registry_ok_def)
  next
    case (IRegister r)
    with e i reg ev show ?thesis
      by (auto simp: eff_defs registry_ok_def reg_wf_add dest!: regt.add_only_own)
  next
    case (IUnregister pid)
    with e i reg ev show ?thesis
      by (auto simp: eff_defs registry_ok_def reg_wf_remove dest!: regt.remove_only)
  next
    case (ISendMessage to m sender)
    with e i reg ev show ?thesis
      by (auto simp: eff_defs code_defs resolve_def reg_get_def registry_ok_def
          split: option.splits Processer.splits)
  next
    case (ISpawn p kind opts)
    with e i reg ev Spawn_shape [of p kind opts s] show ?thesis
      by (auto simp: eff_defs registry_ok_def nth_append less_SucI)
  next
    case (ISpawnChild c p kind opts)
    with e i reg ev SpawnChild_shape [of "ppid (procs s ! c)" p kind opts s] show ?thesis
      by (auto simp: eff_defs registry_ok_def nth_append less_SucI)
  next
    case (IPoison pid c)
    with e i reg ev show ?thesis
      by (auto simp: eff_defs code_defs resolve_def reg_get_def registry_ok_def
          split: option.splits Processer.splits)
  next
    case (IRemoveFromParent r)
    with e i reg ev show ?thesis
      by (auto simp: eff_defs removeFromParent_def resolve_def reg_get_def registry_ok_def
          split: option.splits Processer.splits)
  next
    case (IAddChild c)
    with e i reg ev show ?thesis
      by (auto simp: eff_defs addChildOf_def resolve_def reg_get_def registry_ok_def
          split: option.splits Processer.splits)
  qed (use e i reg ev in \<open>auto simp: eff_defs Let_def new_ctx_def code_defs registry_ok_def
      spawnProc_def removeFromParent_def addChildOf_def addChild_def removeChild_def withEnvelope_def es_wf_ops
      addCancel_def nth_append
      split: if_splits option.splits prod.splits prog.splits list.splits Processer.splits ret.splits outcome.splits\<close>)
qed

lemma refs_ok_init: "refs_ok (eng_init cfg mem n m) (mset (NewEngine_code cfg))"
  by (simp add: refs_ok_def registry_ok_def eng_init_def NewEngine_code_def reg_wf_new es_wf_ops regt.get_empty)

interpretation refs: engine_invariant U refs_ok for U
proof unfold_locales
  fix s :: "'a engine" and i P ch v s' js x gos
  assume "refs_ok s (add_mset i P)" "exec_instr i U ch v s = Some (s', js, x, gos)"
  from exec_instr_refs [OF this] this(1) show "refs_ok s' (P + mset js + mset (concat gos))"
    by (fastforce simp: refs_ok_def)
qed (simp_all add: refs_ok_init, simp_all add: refs_ok_def registry_ok_def)

section \<open>Poison waiters\<close>

text \<open>
  An instruction settles the context \<open>c\<close> when it will cancel it, or hand it to a process.
  \<open>waiter_ok\<close> says where the cancel function of a context is: it has been called, a live process
  holds it, or a goroutine is about to settle it. A stopped process holds none.
\<close>

fun settles :: "nat \<Rightarrow> 'u instr \<Rightarrow> bool" where
  "settles c (ICancel c') = (c' = c)"
| "settles c (IPoison pid c') = (c' = c)"
| "settles c (IAddCancel r c') = (c' = c)"
| "settles c (IAfter pid c') = (c' = c)"
| "settles c _ = False"

definition held :: "'u engine \<Rightarrow> nat \<Rightarrow> bool" where
  "held s c \<longleftrightarrow> (\<exists>r < length (procs s). \<not> stopped (procs s ! r) \<and> c \<in> set (cancels (procs s ! r)))"

definition waiters_ok :: "'u engine \<Rightarrow> 'u instr multiset \<Rightarrow> bool" where
  "waiters_ok s P \<longleftrightarrow> refs_ok s P \<and>
     (\<forall>r < length (procs s). stopped (procs s ! r) \<longrightarrow> cancels (procs s ! r) = []) \<and>
     (\<forall>c < length (ctxs s). ctxs s ! c \<or> held s c \<or> (\<exists>i \<in># P. settles c i))"

text \<open>Instructions that leave the waiters of the processes alone.\<close>

definition same_waiters :: "'u engine \<Rightarrow> 'u engine \<Rightarrow> bool" where
  "same_waiters s s' \<longleftrightarrow> length (procs s) \<le> length (procs s') \<and>
     (\<forall>r < length (procs s'). if r < length (procs s)
        then stopped (procs s' ! r) = stopped (procs s ! r) \<and> cancels (procs s' ! r) = cancels (procs s ! r)
        else \<not> stopped (procs s' ! r) \<and> cancels (procs s' ! r) = [])"

definition hands_on :: "'u engine \<Rightarrow> 'u instr \<Rightarrow> 'u engine \<Rightarrow> 'u instr set \<Rightarrow> bool" where
  "hands_on s i s' J \<longleftrightarrow> length (ctxs s) \<le> length (ctxs s') \<and>
     (\<forall>c < length (ctxs s). ctxs s ! c \<longrightarrow> ctxs s' ! c) \<and>
     (\<forall>c < length (ctxs s'). length (ctxs s) \<le> c \<or> settles c i \<longrightarrow> ctxs s' ! c \<or> (\<exists>j \<in> J. settles c j))"

lemma newProcess_simps [simp]:
  "\<not> stopped (newProcess o')" "cancels (newProcess o') = []" "gpanics (newProcess o') = 0"
  "grestarted (newProcess o') = 0" "restarts (newProcess o') = 0" "gtorn (newProcess o') = 0"
  "popts (newProcess o') = o'" "gdelivered (newProcess o') = []"
  "inbox (newProcess o') = \<lparr>rb = [], proc = None, throughput = defaultThroughput, procStatus = StateIdle\<rparr>"
  by (auto simp: newProcess_def NewInbox_def list_new_def)

lemma exec_api_waiters:
  assumes "exec_api a ch s = Some (s', js, x, gos)"
  shows "procs s' = procs s \<and> hands_on s (IApi a) s' (set js \<union> set (concat gos))"
  using assms
  by (cases a) (auto simp: eff_defs Let_def new_ctx_def hands_on_def nth_append split: if_splits option.splits)

lemma exec_instr_same_waiters:
  assumes ok: "refs_ok s (add_mset i P)" and e: "exec_instr i U ch v s = Some (s', js, x, gos)"
    and "\<forall>r. i \<noteq> IShutdown r" "\<forall>r c. i \<noteq> IAddCancel r c"
  shows "same_waiters s s'"
proof -
  have i: "instr_refs i \<subseteq> {..<length (procs s)}" using ok by (auto simp: refs_ok_def)
  show ?thesis
  proof (cases i)
    case (IApi a)
    with e exec_api_waiters [of a ch s s' js x gos] show ?thesis by (simp add: same_waiters_def)
  next
    case (ITryRestart r y trace)
    with e i show ?thesis
      by (auto simp: eff_defs Let_def same_waiters_def dest!: tryRestart_keeps split: prod.splits if_splits)
  next
    case (IBroadcastScan entries live m)
    with e show ?thesis by (auto simp: eff_defs Let_def same_waiters_def split: list.splits if_splits)
  next
    case (ISpawn p kind opts)
    with e Spawn_shape [of p kind opts s] show ?thesis
      by (auto simp: eff_defs same_waiters_def nth_append)
  next
    case (ISpawnChild c p kind opts)
    with e SpawnChild_shape [of "ppid (procs s ! c)" p kind opts s] show ?thesis
      by (auto simp: eff_defs same_waiters_def nth_append)
  qed (use e i assms(3,4) in \<open>auto simp: eff_defs Let_def new_ctx_def same_waiters_def
      spawnProc_def removeFromParent_def addChildOf_def addChild_def removeChild_def withEnvelope_def
      processor_turn_def
      split: if_splits option.splits prod.splits prog.splits list.splits Processer.splits ret.splits outcome.splits\<close>)
qed

lemma exec_instr_hands_on:
  assumes e: "exec_instr i U ch v s = Some (s', js, x, gos)" and "\<forall>r c. i \<noteq> IAddCancel r c"
  shows "hands_on s i s' (set js \<union> set (concat gos))"
proof (cases i)
  case (IApi a)
  with e exec_api_waiters [of a ch s s' js x gos] show ?thesis by simp
next
  case (ISpawn p kind opts)
  with e Spawn_shape [of p kind opts s] show ?thesis by (auto simp: eff_defs hands_on_def)
next
  case (ISpawnChild c p kind opts)
  with e SpawnChild_shape [of "ppid (procs s ! c)" p kind opts s] show ?thesis
    by (auto simp: eff_defs hands_on_def)
qed (use e assms(2) in \<open>auto simp: eff_defs Let_def new_ctx_def hands_on_def nth_append code_defs
      spawnProc_def removeFromParent_def addChildOf_def processor_turn_def nth_list_update_if
      split: if_splits option.splits prod.splits prog.splits list.splits Processer.splits ret.splits outcome.splits\<close>)

lemma waiters_frame:
  assumes "waiters_ok s (add_mset i P)" "same_waiters s s'" "hands_on s i s' J" "set_mset Q = J"
    "refs_ok s' (P + Q)"
  shows "waiters_ok s' (P + Q)"
proof -
  have "held s' c" if "held s c" for c
    using that assms(2) by (auto simp: held_def same_waiters_def) (metis order_less_le_trans)
  moreover have "ctxs s' ! c \<or> held s c \<or> (\<exists>j \<in># P + Q. settles c j)" if "c < length (ctxs s')" for c
  proof (cases "length (ctxs s) \<le> c \<or> settles c i")
    case True
    then show ?thesis using assms(3,4) that by (auto simp: hands_on_def)
  next
    case False
    then have "c < length (ctxs s)" by simp
    with False show ?thesis using assms(1,3) unfolding waiters_ok_def hands_on_def by auto
  qed
  moreover have "stopped (procs s' ! r) \<longrightarrow> cancels (procs s' ! r) = []" if "r < length (procs s')" for r
    using assms(1,2) that by (cases "r < length (procs s)") (auto simp: waiters_ok_def same_waiters_def)
  ultimately show ?thesis using assms(5) by (auto simp: waiters_ok_def)
qed

lemma waiters_Shutdown:
  assumes inv: "waiters_ok s (add_mset (IShutdown r) P)" and sd: "Shutdown r (procs s ! r) = (p, js)"
    and refs: "refs_ok (upd_proc r (\<lambda>_. p) s) (P + mset js)"
  shows "waiters_ok (upd_proc r (\<lambda>_. p) s) (P + mset js)"
proof -
  have r: "r < length (procs s)" using inv by (simp add: waiters_ok_def refs_ok_def)
  have "held (upd_proc r (\<lambda>_. p) s) c \<or> (\<exists>j \<in># P + mset js. settles c j)" if h: "held s c" for c
  proof -
    obtain q where q: "q < length (procs s)" "\<not> stopped (procs s ! q)" "c \<in> set (cancels (procs s ! q))"
      using h by (auto simp: held_def)
    show ?thesis
    proof (cases "q = r")
      case True
      then have "ICancel c \<in> set js" using q sd by (auto simp: Shutdown_def)
      then show ?thesis by force
    next
      case False
      then show ?thesis using q by (auto simp: held_def)
    qed
  qed
  moreover have "stopped p" "cancels p = []"
    using sd inv r by (auto simp: Shutdown_def waiters_ok_def split: if_splits)
  ultimately show ?thesis using inv refs by (fastforce simp: waiters_ok_def)
qed

lemma waiters_addCancel:
  assumes inv: "waiters_ok s (add_mset (IAddCancel r c) P)" and ac: "addCancel c (procs s ! r) = (added, p)"
    and js: "js = (if added then [IDeliver r (env_of (poisonPill (Some c) True))] else [ICancel c])"
    and refs: "refs_ok (upd_proc r (\<lambda>_. p) s) (P + mset js)"
  shows "waiters_ok (upd_proc r (\<lambda>_. p) s) (P + mset js)"
proof -
  have r: "r < length (procs s)" using inv by (simp add: waiters_ok_def refs_ok_def)
  have "held (upd_proc r (\<lambda>_. p) s) d" if "held s d" for d
    using that ac r by (auto simp: held_def addCancel_def split: if_splits)
  moreover have "held (upd_proc r (\<lambda>_. p) s) c \<or> (\<exists>j \<in># P + mset js. settles c j)"
    using ac js r by (auto simp: held_def addCancel_def split: if_splits)
  moreover have "stopped p \<longrightarrow> cancels p = []"
    using ac inv r by (auto simp: waiters_ok_def addCancel_def split: if_splits)
  ultimately show ?thesis using inv refs by (fastforce simp: waiters_ok_def)
qed

interpretation waiters: engine_invariant U waiters_ok for U
proof unfold_locales
  fix s :: "'a engine" and i P ch v s' js x gos
  assume inv: "waiters_ok s (add_mset i P)" and e: "exec_instr i U ch v s = Some (s', js, x, gos)"
  have refs: "refs_ok s' (P + mset js + mset (concat gos))"
    using refs.instr [OF _ e] inv by (simp add: waiters_ok_def)
  consider r where "i = IShutdown r" | r c where "i = IAddCancel r c"
    | "\<forall>r. i \<noteq> IShutdown r" "\<forall>r c. i \<noteq> IAddCancel r c" by blast
  then show "waiters_ok s' (P + mset js + mset (concat gos))"
  proof cases
    case 1
    then show ?thesis using e inv refs
      by (auto simp: eff_defs intro!: waiters_Shutdown split: prod.splits)
  next
    case 2
    obtain added p where ac: "addCancel c (procs s ! r) = (added, p)" by fastforce
    with 2 e have "s' = upd_proc r (\<lambda>_. p) s" "gos = []"
      "js = (if added then [IDeliver r (env_of (poisonPill (Some c) True))] else [ICancel c])"
      by (auto simp: eff_defs)
    then show ?thesis using waiters_addCancel [OF inv [unfolded 2] ac] refs by simp
  next
    case 3
    have "refs_ok s (add_mset i P)" using inv by (simp add: waiters_ok_def)
    note frame = waiters_frame [OF inv exec_instr_same_waiters [OF this e 3] exec_instr_hands_on [OF e 3(2)],
        of "mset js + mset (concat gos)"]
    show ?thesis using frame refs by (simp add: add.assoc)
  qed
qed (use refs.init refs.go in \<open>auto simp: waiters_ok_def refs.tick refs.threads_irrelevant eng_init_def held_def\<close>)

end
