(* ===== verification/Engine_Mail.thy ===== *)
theory Engine_Mail
  imports Engine_Inv
begin

text \<open>
  The mailboxes inside the engine: at most one processor per process, no lost wake-up and no lost
  poison pill, as an invariant of the engine machine.
\<close>

section \<open>Mailboxes and processors\<close>

text \<open>
  The inbox invariant at the level of the engine, for the process at reference \<open>r\<close>: \<open>own\<close> counts
  its processor goroutines in \<open>run\<close>, \<open>wake\<close> says that a goroutine is about to look at the
  mailbox, and \<open>carries\<close> that a pill for the waiter \<open>c\<close> is on its way to being handled.
\<close>

fun owner_instr :: "nat \<Rightarrow> 'u instr \<Rightarrow> bool" where
  "owner_instr r (IProcessor q pc) = (q = r \<and> owner pc)"
| "owner_instr r _ = False"

fun wake_instr :: "nat \<Rightarrow> 'u instr \<Rightarrow> bool" where
  "wake_instr r (IProcessor q pc) = (q = r \<and> rechecking pc)"
| "wake_instr r (ISchedule q) = (q = r)"
| "wake_instr r _ = False"

definition pill_for :: "nat \<Rightarrow> 'u Envelope \<Rightarrow> bool" where
  "pill_for c e \<longleftrightarrow> (\<exists>g. Msg e = poisonPill (Some c) g)"

fun carries :: "nat \<Rightarrow> nat \<Rightarrow> 'u instr \<Rightarrow> bool" where
  "carries r c (IDeliver q e) = (q = r \<and> pill_for c e)"
| "carries r c (IInvoke q batch) = (q = r \<and> (\<exists>e \<in> set batch. pill_for c e))"
| "carries r c (IHandlePoison q cancel) = (q = r)"
| "carries r c (IShutdown q) = (q = r)"
| "carries r c _ = False"

definition own :: "'u instr multiset \<Rightarrow> nat \<Rightarrow> nat" where
  "own P r = size (filter_mset (owner_instr r) P)"

definition sched_ok :: "nat \<Rightarrow> 'u Envelope list Inbox \<Rightarrow> 'u instr multiset \<Rightarrow> bool" where
  "sched_ok r ib P \<longleftrightarrow>
     throughput ib = defaultThroughput \<and> own P r \<le> 1 \<and>
     (procStatus ib = StateIdle \<longrightarrow> own P r = 0) \<and>
     (procStatus ib = StateRunning \<longrightarrow> own P r = 1) \<and>
     (procStatus ib = StateIdle \<longrightarrow> rb ib \<noteq> [] \<longrightarrow> (\<exists>i \<in># P. wake_instr r i))"

definition pill_coming :: "nat \<Rightarrow> 'u Envelope list \<Rightarrow> 'u instr multiset \<Rightarrow> nat \<Rightarrow> bool" where
  "pill_coming r q P c \<longleftrightarrow> (\<exists>e \<in> set q. pill_for c e) \<or> (\<exists>i \<in># P. carries r c i)"

definition mail_ok1 :: "nat \<Rightarrow> 'u process \<Rightarrow> 'u instr multiset \<Rightarrow> bool" where
  "mail_ok1 r p P \<longleftrightarrow>
     sched_ok r (inbox p) P \<and>
     (procStatus (inbox p) = StateStopped \<or> IInboxStop r \<in># P \<longrightarrow> stopped p) \<and>
     (\<not> stopped p \<longrightarrow> (\<forall>c \<in> set (cancels p). pill_coming r (rb (inbox p)) P c))"

definition mail_ok :: "'u engine \<Rightarrow> 'u instr multiset \<Rightarrow> bool" where
  "mail_ok s P \<longleftrightarrow> refs_ok s P \<and> (\<forall>r < length (procs s). mail_ok1 r (procs s ! r) P)"

lemma own_simps [simp]:
  "own {#} r = 0" "own (P + Q) r = own P r + own Q r"
  "own (add_mset i P) r = (if owner_instr r i then 1 else 0) + own P r"
  by (auto simp: own_def)

text \<open>Instructions that matter to the mailbox of \<open>r\<close>, and those that may be added freely.\<close>

fun touches_mail :: "nat \<Rightarrow> 'u instr \<Rightarrow> bool" where
  "touches_mail r (IProcessor q pc) = (q = r)"
| "touches_mail r (ISchedule q) = (q = r)"
| "touches_mail r (IInboxStop q) = (q = r)"
| "touches_mail r (IDeliver q e) = (q = r)"
| "touches_mail r (IInvoke q batch) = (q = r)"
| "touches_mail r (IHandlePoison q cancel) = (q = r)"
| "touches_mail r (IShutdown q) = (q = r)"
| "touches_mail r _ = False"

fun free_instr :: "nat \<Rightarrow> 'u instr \<Rightarrow> bool" where
  "free_instr r (IProcessor q pc) = (q \<noteq> r)"
| "free_instr r (IInboxStop q) = (q \<noteq> r)"
| "free_instr r _ = True"

definition same_mail :: "'u process \<Rightarrow> 'u process \<Rightarrow> bool" where
  "same_mail p p' \<longleftrightarrow> rb (inbox p') = rb (inbox p) \<and> throughput (inbox p') = throughput (inbox p) \<and>
     procStatus (inbox p') = procStatus (inbox p) \<and> stopped p' = stopped p \<and> cancels p' = cancels p"

lemma touches_mail_facts:
  "\<not> touches_mail r i \<Longrightarrow> \<not> owner_instr r i \<and> \<not> wake_instr r i \<and> \<not> carries r c i \<and> i \<noteq> IInboxStop r"
  by (cases i) auto

lemma free_instr_facts: "free_instr r i \<Longrightarrow> \<not> owner_instr r i \<and> i \<noteq> IInboxStop r"
  by (cases i) auto

lemma own_free: "\<forall>i \<in># Q. free_instr r i \<Longrightarrow> own Q r = 0"
  by (induction Q) (auto dest: free_instr_facts)

lemma pill_coming_step:
  assumes "pill_coming r q (add_mset i P) c" "set q \<subseteq> set q' \<union> E" "P \<subseteq># P'"
    and "carries r c i \<Longrightarrow> \<exists>j \<in># P'. carries r c j"
    and "\<And>e. e \<in> E \<Longrightarrow> pill_for c e \<Longrightarrow> \<exists>j \<in># P'. carries r c j"
  shows "pill_coming r q' P' c"
  using assms unfolding pill_coming_def by (metis UnE add_mset_remove_trivial insert_iff mset_subset_eqD set_mset_add_mset_insert subsetD)

lemma mail_ok1_step:
  assumes inv: "mail_ok1 r p (add_mset i P)" and sched: "sched_ok r ib P'"
    and stop: "procStatus ib = StateStopped \<or> IInboxStop r \<in># P' \<Longrightarrow> stopped p'"
    and ib: "inbox p' = ib" and live: "\<not> stopped p' \<Longrightarrow> \<not> stopped p \<and> cancels p' = cancels p"
    and q: "set (rb (inbox p)) \<subseteq> set (rb ib) \<union> E" and P: "P \<subseteq># P'"
    and "\<And>c. carries r c i \<Longrightarrow> \<not> stopped p' \<Longrightarrow> \<exists>j \<in># P'. carries r c j"
    and "\<And>c e. e \<in> E \<Longrightarrow> pill_for c e \<Longrightarrow> \<exists>j \<in># P'. carries r c j"
  shows "mail_ok1 r p' P'"
  using assms pill_coming_step [of r "rb (inbox p)" i P _ "rb ib" E P']
  by (auto simp: mail_ok1_def)

lemma mail_ok1_frame:
  assumes inv: "mail_ok1 r p (add_mset i P)" and i: "\<not> touches_mail r i" and same: "same_mail p p'"
    and Q: "\<forall>j \<in># Q. free_instr r j"
  shows "mail_ok1 r p' (P + Q)"
proof -
  note facts = touches_mail_facts [OF i]
  have "IInboxStop r \<notin># Q" using Q free_instr_facts by blast
  moreover have "sched_ok r (inbox p') (P + Q)"
    using inv same own_free [OF Q] facts by (auto simp: mail_ok1_def sched_ok_def same_mail_def)
  ultimately show ?thesis
    using inv same facts by (intro mail_ok1_step [OF inv, of "inbox p'" "P + Q" p' "{}"])
      (auto simp: mail_ok1_def same_mail_def)
qed

lemma same_mail_refl [simp]: "same_mail p p"
  by (simp add: same_mail_def)

lemma same_mail_simps [simp]:
  "same_mail p (withEnvelope e p)" "same_mail p (addChild pid p)" "same_mail p (removeChild pid p)"
  "same_mail p (p\<lparr>receiver := x, chain := y\<rparr>)" "same_mail p (p\<lparr>inbox := Inbox_Start r (inbox p)\<rparr>)"
  by (simp_all add: same_mail_def withEnvelope_def addChild_def removeChild_def Inbox_Start_def)

lemma exec_api_free: "exec_api a ch s = Some (s', js, x, gos) \<Longrightarrow> \<forall>j \<in> set js \<union> set (concat gos). free_instr q j"
  by (cases a) (auto simp: eff_defs Let_def new_ctx_def code_defs split: if_splits option.splits)

lemma code_free [simp]:
  "\<forall>j \<in> set (Start_code r pid). free_instr q j" "\<forall>j \<in> set (handlePoison_code r cancel). free_instr q j"
  "\<forall>j \<in> set (Invoke_code r batch). free_instr q j"
  by (auto simp: Start_code_def handlePoison_code_def split: option.splits)
    (cases "(r, batch)" rule: Invoke_code.cases; auto split: msg.splits)

lemma exec_instr_mail:
  assumes e: "exec_instr i U ch v s = Some (s', js, x, gos)" and q: "q < length (procs s)"
    and untouched: "\<not> touches_mail q i" "\<forall>c. i \<noteq> IAddCancel q c"
  shows "same_mail (procs s ! q) (procs s' ! q) \<and> (\<forall>j \<in> set js \<union> set (concat gos). free_instr q j)"
proof (cases i)
  case (IApi a)
  with e exec_api_waiters [of a ch s s' js x gos] exec_api_free [of a ch s s' js x gos] show ?thesis by simp
next
  case (ITryRestart r y trace)
  with e q show ?thesis
    by (auto simp: eff_defs tryRestart_def Let_def same_mail_def Start_code_def split: prod.splits if_splits)
next
  case (IBroadcastScan entries live m)
  with e show ?thesis by (auto simp: eff_defs Let_def split: list.splits if_splits)
next
  case (ISpawn p kind opts)
  with e q Spawn_shape [of p kind opts s] show ?thesis by (auto simp: eff_defs nth_append)
next
  case (ISpawnChild c p kind opts)
  with e q SpawnChild_shape [of "ppid (procs s ! c)" p kind opts s] show ?thesis
    by (auto simp: eff_defs nth_append)
next
  case (IShutdown r)
  with e q untouched show ?thesis by (auto simp: eff_defs Shutdown_def split: prod.splits if_splits)
next
  case (ISpawnProc r)
  with e q show ?thesis
    by (auto simp: eff_defs spawnProc_def Start_code_def split: option.splits)
qed (use e q untouched in \<open>auto simp: eff_defs Let_def new_ctx_def code_free [THEN bspec]
      removeFromParent_def addChildOf_def processor_turn_def sendMessage_def sendMiss_def poison_def
      split: if_splits option.splits prod.splits prog.splits list.splits Processer.splits ret.splits
        outcome.splits processor_pc.splits\<close>)

text \<open>The instructions that act on the mailbox of their own process.\<close>

lemma mail_Schedule:
  assumes inv: "mail_ok1 r p (add_mset (ISchedule r) P)" and "schedule (inbox p) = (started, ib)"
  shows "mail_ok1 r (p\<lparr>inbox := ib\<rparr>) (P + (if started then {#IProcessor r RunTop#} else {#}))"
  by (rule mail_ok1_step [OF inv, of ib _ _ "{}"])
    (use assms in \<open>cases "procStatus (inbox p)"; auto simp: mail_ok1_def sched_ok_def schedule_def\<close>)+

lemma mail_Deliver:
  assumes inv: "mail_ok1 r p (add_mset (IDeliver r e) P)"
  shows "mail_ok1 r (p\<lparr>inbox := (inbox p)\<lparr>rb := rb (inbox p) @ [e]\<rparr>\<rparr>) (add_mset (ISchedule r) P)"
  using inv by (auto simp: mail_ok1_def sched_ok_def pill_coming_def)

lemma mail_InboxStop:
  assumes inv: "mail_ok1 r p (add_mset (IInboxStop r) P)"
  shows "mail_ok1 r (p\<lparr>inbox := Inbox_Stop (inbox p)\<rparr>) P"
  using inv by (auto simp: mail_ok1_def sched_ok_def Inbox_Stop_def)

lemma mail_Invoke:
  assumes inv: "mail_ok1 r p (add_mset (IInvoke r batch) P)"
  shows "mail_ok1 r p (P + mset (Invoke_code r batch))"
proof -
  let ?Q = "mset (Invoke_code r batch)"
  have free: "\<forall>j \<in># ?Q. free_instr r j" by simp
  have "carries r c (IInvoke r batch) \<Longrightarrow> \<exists>j \<in># ?Q. carries r c j" for c
    by (cases "(r, batch)" rule: Invoke_code.cases) (auto simp: pill_for_def split: msg.splits)
  moreover have "IInboxStop r \<notin># ?Q" using free free_instr_facts by blast
  moreover have "sched_ok r (inbox p) (P + ?Q)"
    using inv own_free [OF free] by (auto simp: mail_ok1_def sched_ok_def)
  ultimately show ?thesis
    using inv by (intro mail_ok1_step [OF inv, of "inbox p" _ _ "{}"]) (auto simp: mail_ok1_def)
qed

lemma mail_HandlePoison:
  assumes inv: "mail_ok1 r p (add_mset (IHandlePoison r cancel) P)"
  shows "mail_ok1 r p (P + mset (handlePoison_code r cancel))"
proof -
  have "sched_ok r (inbox p) (P + mset (handlePoison_code r cancel))"
    using inv by (auto simp: mail_ok1_def sched_ok_def handlePoison_code_def split: option.splits)
  then show ?thesis
    using inv by (intro mail_ok1_step [OF inv, of "inbox p" _ _ "{}"])
      (auto simp: mail_ok1_def handlePoison_code_def split: option.splits)
qed

lemma mail_Shutdown:
  assumes inv: "mail_ok1 r p (add_mset (IShutdown r) P)" and sd: "Shutdown r p = (p', js)"
  shows "mail_ok1 r p' (P + mset js)"
proof -
  have own: "own (mset (map ICancel cs)) r = 0" for cs by (rule own_free) auto
  have "stopped p'" "inbox p' = inbox p" using sd by (auto simp: Shutdown_def split: if_splits)
  moreover have "sched_ok r (inbox p) (P + mset js)"
    using inv sd own [of "cancels p"] by (auto simp: mail_ok1_def sched_ok_def Shutdown_def split: if_splits)
  ultimately show ?thesis by (simp add: mail_ok1_def)
qed

lemma mail_AddCancel:
  assumes inv: "mail_ok1 r p (add_mset (IAddCancel r c) P)" and ac: "addCancel c p = (added, p')"
  shows "mail_ok1 r p' (add_mset (if added then IDeliver r (env_of (poisonPill (Some c) True)) else ICancel c) P)"
proof (cases "stopped p")
  case True
  then show ?thesis using assms by (auto simp: mail_ok1_def sched_ok_def addCancel_def)
next
  case False
  let ?i = "IDeliver r (env_of (poisonPill (Some c) True))"
  have "carries r c ?i" by (auto simp: pill_for_def env_of_def)
  then have "pill_coming r (rb (inbox p)) (add_mset ?i P) c" by (auto simp: pill_coming_def)
  moreover have "pill_coming r (rb (inbox p)) (add_mset ?i P) d" if "d \<in> set (cancels p)" for d
    using inv that False by (auto simp: mail_ok1_def pill_coming_def)
  ultimately show ?thesis using assms False by (auto simp: mail_ok1_def sched_ok_def addCancel_def)
qed

definition turn_code :: "nat \<Rightarrow> 'u Envelope processor_pc \<Rightarrow> 'u instr list" where
  "turn_code r pc' = (case pc' of
      Exited \<Rightarrow> [] | RunInvoke batch \<Rightarrow> [IInvoke r batch, IProcessor r pc'] | _ \<Rightarrow> [IProcessor r pc'])"

lemma sched_Processor:
  assumes inv: "sched_ok r ib (add_mset (IProcessor r pc) P)"
    and nxt: "process_next list_popn (seen_len exact) ib pc = Return (ib', pc')"
  shows "sched_ok r ib' (P + mset (turn_code r pc'))"
  using assms
  by (cases pc; cases "procStatus ib")
    (auto simp: sched_ok_def turn_code_def list_popn_def dest: seen_len_zero split: if_splits)

lemma process_next_list:
  assumes "process_next list_popn (seen_len exact) ib pc = Return (ib', pc')" "0 < sint (throughput ib)"
  shows "(procStatus ib' = StateStopped \<longleftrightarrow> procStatus ib = StateStopped) \<and>
    (rb ib' = rb ib \<and> (\<forall>b. pc' \<noteq> RunInvoke b) \<or> (\<exists>b. pc' = RunInvoke b \<and> rb ib = b @ rb ib'))"
  using assms by (cases pc) (auto simp: list_popn_def cas_status_def split: if_splits)

lemma mail_Processor:
  assumes inv: "mail_ok1 r p (add_mset (IProcessor r pc) P)"
    and nxt: "process_next list_popn (seen_len exact) (inbox p) pc = Return (ib, pc')"
  shows "mail_ok1 r (p\<lparr>inbox := ib\<rparr>) (P + mset (turn_code r pc'))"
proof -
  let ?E = "case pc' of RunInvoke b \<Rightarrow> set b | _ \<Rightarrow> {}"
  have "throughput (inbox p) = defaultThroughput" using inv by (simp add: mail_ok1_def sched_ok_def)
  then have list: "(procStatus ib = StateStopped \<longleftrightarrow> procStatus (inbox p) = StateStopped) \<and>
    (rb ib = rb (inbox p) \<and> (\<forall>b. pc' \<noteq> RunInvoke b) \<or> (\<exists>b. pc' = RunInvoke b \<and> rb (inbox p) = b @ rb ib))"
    using process_next_list [OF nxt] by simp
  have turn: "IInboxStop r \<notin> set (turn_code r pc')" by (auto simp: turn_code_def split: processor_pc.splits)
  show ?thesis
  proof (rule mail_ok1_step [OF inv, of ib _ _ ?E])
    show "sched_ok r ib (P + mset (turn_code r pc'))"
      using inv nxt by (auto simp: mail_ok1_def intro: sched_Processor)
    show "\<exists>j \<in># P + mset (turn_code r pc'). carries r c j" if "e \<in> ?E" "pill_for c e" for c e
      using that by (auto simp: turn_code_def split: processor_pc.splits)
  qed (use inv list turn in \<open>auto simp: mail_ok1_def\<close>)
qed

lemma free_unreferenced: "q \<notin> instr_refs i \<Longrightarrow> free_instr q i"
  by (cases i) auto

lemma mail_new_process:
  assumes "\<forall>i \<in># P. free_instr q i"
  shows "mail_ok1 q (newProcess o') P"
proof -
  have "IInboxStop q \<notin># P" using assms free_instr_facts by blast
  then show ?thesis using own_free [OF assms] by (simp add: mail_ok1_def sched_ok_def)
qed

lemma exec_instr_procs:
  assumes e: "exec_instr i U ch v s = Some (s', js, x, gos)"
  shows "length (procs s') = length (procs s) \<or>
    (\<exists>o'. length (procs s') = Suc (length (procs s)) \<and> procs s' ! length (procs s) = newProcess o' \<and>
       (\<forall>q. \<forall>j \<in> set js \<union> set (concat gos). free_instr q j))"
proof (cases i)
  case (IApi a)
  with e exec_api_waiters [of a ch s s' js x gos] show ?thesis by simp
next
  case (ISpawn p kind opts)
  with e Spawn_shape [of p kind opts s] show ?thesis by (auto simp: eff_defs) blast
next
  case (ISpawnChild c p kind opts)
  with e SpawnChild_shape [of "ppid (procs s ! c)" p kind opts s] show ?thesis by (auto simp: eff_defs) blast
qed (use e in \<open>auto simp: eff_defs Let_def new_ctx_def spawnProc_def
      removeFromParent_def addChildOf_def processor_turn_def
      split: if_splits option.splits prod.splits prog.splits list.splits Processer.splits ret.splits
        outcome.splits processor_pc.splits\<close>)

lemma mail_touched:
  assumes e: "exec_instr i U ch v s = Some (s', js, x, gos)" and r: "r < length (procs s)"
    and inv: "mail_ok1 r (procs s ! r) (add_mset i P)" and "touches_mail r i \<or> (\<exists>c. i = IAddCancel r c)"
  shows "mail_ok1 r (procs s' ! r) (P + mset js + mset (concat gos))"
  using assms(4)
proof
  assume "\<exists>c. i = IAddCancel r c"
  then obtain c where i: "i = IAddCancel r c" ..
  obtain added p where ac: "addCancel c (procs s ! r) = (added, p)" by fastforce
  show ?thesis using e r i ac mail_AddCancel [OF inv [unfolded i] ac] by (auto simp: eff_defs)
next
  assume "touches_mail r i"
  then show ?thesis
  proof (cases i)
    case (IProcessor q pc)
    then show ?thesis using \<open>touches_mail r i\<close> e r inv
      by (auto simp: eff_defs processor_turn_def turn_code_def [symmetric] intro!: mail_Processor
          split: outcome.splits prod.splits)
  next
    case (ISchedule q)
    obtain started ib where sch: "schedule (inbox (procs s ! r)) = (started, ib)" by fastforce
    then show ?thesis using \<open>touches_mail r i\<close> e r inv ISchedule mail_Schedule [of r "procs s ! r" P started ib]
      by (auto simp: eff_defs)
  next
    case (IShutdown q)
    then show ?thesis using \<open>touches_mail r i\<close> e r inv
      by (auto simp: eff_defs intro!: mail_Shutdown split: prod.splits)
  qed (use e r inv in \<open>auto simp: eff_defs Inbox_push_def list_push_def
      intro: mail_Deliver mail_InboxStop mail_Invoke mail_HandlePoison\<close>)
qed

interpretation mail: engine_invariant U mail_ok for U
proof unfold_locales
  fix s :: "'a engine" and i P ch v s' js x gos
  assume inv: "mail_ok s (add_mset i P)" and e: "exec_instr i U ch v s = Some (s', js, x, gos)"
  let ?P = "P + mset js + mset (concat gos)"
  have refs0: "refs_ok s (add_mset i P)" using inv by (simp add: mail_ok_def)
  then have refs: "refs_ok s' ?P" using refs.instr [OF _ e] by blast
  have old: "mail_ok1 r (procs s' ! r) ?P" if r: "r < length (procs s)" for r
  proof (cases "touches_mail r i \<or> (\<exists>c. i = IAddCancel r c)")
    case True
    then show ?thesis using mail_touched [OF e r] inv r by (simp add: mail_ok_def)
  next
    case False
    then show ?thesis
      using exec_instr_mail [OF e r] inv r mail_ok1_frame [of r "procs s ! r" i P "procs s' ! r" "mset js + mset (concat gos)"]
      by (simp add: mail_ok_def add.assoc)
  qed
  have new: "mail_ok1 r (procs s' ! r) ?P" if "length (procs s) \<le> r" "r < length (procs s')" for r
  proof -
    have "length (procs s') \<noteq> length (procs s)" using that by simp
    then obtain o' where len: "length (procs s') = Suc (length (procs s))"
      and "procs s' ! length (procs s) = newProcess o'" "\<forall>j \<in> set js \<union> set (concat gos). free_instr r j"
      using exec_instr_procs [OF e] by blast
    moreover have "r = length (procs s)" using that(1,2) len by simp
    moreover have "\<forall>j \<in># P. free_instr r j"
      using refs0 \<open>length (procs s) \<le> r\<close> by (fastforce simp: refs_ok_def intro: free_unreferenced)
    ultimately show ?thesis by (auto intro!: mail_new_process)
  qed
  show "mail_ok s' ?P" using refs old new unfolding mail_ok_def by (meson not_less)
next
  fix s :: "'a engine" and P p
  assume inv: "mail_ok s P"
  have "mail_ok1 r q (add_mset (IProg None p) P)" if "mail_ok1 r q P" for r q
    using that mail_ok1_frame [of r q ISetDeadletter P q "{#IProg None p#}"]
    by (simp add: mail_ok1_def sched_ok_def pill_coming_def)
  then show "mail_ok s (add_mset (IProg None p) P)"
    using inv refs.go by (auto simp: mail_ok_def)
qed (use refs.init in \<open>auto simp: mail_ok_def refs.tick refs.threads_irrelevant eng_init_def\<close>)

end
