(* ===== verification/Engine_Life.thy ===== *)
theory Engine_Life
  imports Engine_Inv
begin

text \<open>
  The lifecycle of a process inside the engine: how often it is restarted and shut down, as an
  invariant of the machine, and in which order its first messages are delivered, as an
  invariant of the goroutines' stacks (the locale \<open>engine_code_invariant\<close>).
\<close>

section \<open>Restarts and shutdown\<close>

text \<open>
  \<open>gpanics\<close>, \<open>grestarted\<close> and \<open>gtorn\<close> count the panics recovered, the restarts begun and the
  shutdowns claimed. The 32-bit counter \<open>restarts\<close> is the number of panics as long as that
  is below \<open>2^31\<close>.
\<close>

definition restart_bound :: "'u process \<Rightarrow> nat" where
  "restart_bound p = nat (sint (MaxRestarts (popts p)))"

definition life_ok1 :: "'u process \<Rightarrow> bool" where
  "life_ok1 p \<longleftrightarrow> gtorn p = (if stopped p then 1 else 0) \<and>
     (MaxRestarts (popts p) = 0 \<longrightarrow> grestarted p = 0) \<and>
     (MaxRestarts (popts p) \<noteq> 0 \<longrightarrow> restarts p = of_nat (gpanics p) \<and>
       (gpanics p < 2 ^ 31 \<longrightarrow> grestarted p = min (gpanics p) (restart_bound p)))"

definition life_ok :: "'u engine \<Rightarrow> 'u instr multiset \<Rightarrow> bool" where
  "life_ok s P \<longleftrightarrow> refs_ok s P \<and> (\<forall>r < length (procs s). life_ok1 (procs s ! r))"

lemma sint_of_nat_int32: "n < 2 ^ 31 \<Longrightarrow> sint (of_nat n :: int32) = int n"
proof -
  assume "n < 2 ^ 31"
  then have "int n < 2 ^ 31" by (metis of_nat_less_iff of_nat_numeral of_nat_power)
  moreover have "uint (of_nat n :: int32) = int n"
    using \<open>n < 2 ^ 31\<close> by (simp add: unsigned_of_nat take_bit_nat_eq_self)
  ultimately show ?thesis by (simp add: sint_uint signed_take_bit_int_eq_self)
qed

lemma tryRestart_life:
  assumes "life_ok1 p" "tryRestart r x trace p = (p', l, js)"
  shows "life_ok1 p'"
proof (cases "MaxRestarts (popts p) = 0")
  case True
  then show ?thesis using assms by (auto simp: tryRestart_def life_ok1_def)
next
  case False
  have n: "sint (of_nat (Suc (gpanics p)) :: int32) = int (Suc (gpanics p))" if "Suc (gpanics p) < 2 ^ 31"
    using sint_of_nat_int32 [OF that] .
  show ?thesis
  proof (cases "Suc (gpanics p) < 2 ^ 31")
    case True
    with False assms n show ?thesis
      by (auto simp: tryRestart_def life_ok1_def restart_bound_def Let_def add.commute split: if_splits)
  next
    case le: False
    with False assms show ?thesis
      by (auto simp: tryRestart_def life_ok1_def Let_def split: if_splits)
  qed
qed

lemma Shutdown_life: "life_ok1 p \<Longrightarrow> Shutdown r p = (p', js) \<Longrightarrow> life_ok1 p'"
  by (auto simp: life_ok1_def Shutdown_def restart_bound_def split: if_splits)

text \<open>All other instructions leave the fields of the lifecycle alone.\<close>

definition same_life :: "'u process \<Rightarrow> 'u process \<Rightarrow> bool" where
  "same_life p p' \<longleftrightarrow> gtorn p' = gtorn p \<and> stopped p' = stopped p \<and> popts p' = popts p \<and>
     grestarted p' = grestarted p \<and> gpanics p' = gpanics p \<and> restarts p' = restarts p"

lemma same_life_ok: "life_ok1 p \<Longrightarrow> same_life p p' \<Longrightarrow> life_ok1 p'"
  by (simp add: life_ok1_def same_life_def restart_bound_def)

lemma life_new: "life_ok1 (newProcess o')"
  by (simp add: life_ok1_def)

lemma exec_instr_life:
  assumes ok: "life_ok s (add_mset i P)" and e: "exec_instr i U ch v s = Some (s', js, x, gos)"
    and q: "q < length (procs s')"
  shows "life_ok1 (procs s' ! q)"
proof -
  have old: "life_ok1 (procs s ! r)" if "r < length (procs s)" for r using ok that by (simp add: life_ok_def)
  show ?thesis
  proof (cases i)
    case (IApi a)
    with e q old exec_api_waiters [of a ch s s' js x gos] show ?thesis by simp
  next
    case (ITryRestart r y trace)
    with e q old show ?thesis
      by (auto simp: eff_defs intro: tryRestart_life [OF old] split: prod.splits)
  next
    case (IShutdown r)
    with e q old show ?thesis by (auto simp: eff_defs intro: Shutdown_life [OF old] split: prod.splits)
  next
    case (IBroadcastScan entries live m)
    with e q old show ?thesis by (auto simp: eff_defs Let_def split: list.splits if_splits)
  next
    case (ISpawn p kind opts)
    with e q old Spawn_shape [of p kind opts s] show ?thesis
      by (auto simp: eff_defs nth_append less_Suc_eq life_new)
  next
    case (ISpawnChild c p kind opts)
    with e q old SpawnChild_shape [of "ppid (procs s ! c)" p kind opts s] show ?thesis
      by (auto simp: eff_defs nth_append less_Suc_eq life_new)
  qed (use e q old in \<open>auto simp: eff_defs Let_def new_ctx_def same_life_def
      spawnProc_def removeFromParent_def addChildOf_def addChild_def removeChild_def withEnvelope_def addCancel_def
      processor_turn_def intro!: same_life_ok [OF old]
      split: if_splits option.splits prod.splits prog.splits list.splits Processer.splits ret.splits outcome.splits\<close>)
qed

interpretation life: engine_invariant U life_ok for U
proof unfold_locales
  fix s :: "'a engine" and i P ch v s' js x gos
  assume inv: "life_ok s (add_mset i P)" and e: "exec_instr i U ch v s = Some (s', js, x, gos)"
  then have "refs_ok s' (P + mset js + mset (concat gos))" using refs.instr [OF _ e] by (simp add: life_ok_def)
  then show "life_ok s' (P + mset js + mset (concat gos))"
    using exec_instr_life [OF inv e] by (simp add: life_ok_def)
qed (use refs.init refs.go in \<open>auto simp: life_ok_def refs.tick refs.threads_irrelevant eng_init_def\<close>)

section \<open>Order within a goroutine\<close>

text \<open>
  An invariant of the goroutines: \<open>K\<close> is about the state, \<open>J\<close> about one stack and its register. The
  goroutine that runs keeps both, starts only goroutines that satisfy \<open>J\<close>, and does not disturb
  the others. Where the register does not matter, the simpler contract \<open>engine_code_invariant\<close> gives
  the general one.
\<close>

locale engine_goroutine_invariant =
  fixes U :: "'u user_code"
    and K :: "'u engine \<Rightarrow> bool"
    and J :: "'u engine \<Rightarrow> 'u instr list \<Rightarrow> 'u ret \<Rightarrow> bool"
  assumes init: "K (eng_init cfg mem n m) \<and> J (eng_init cfg mem n m) (NewEngine_code cfg) RUnit"
    and instr: "K s \<Longrightarrow> J s (i # rest) v \<Longrightarrow> exec_instr i U ch v s = Some (s', js, x, gos) \<Longrightarrow>
      K s' \<and> J s' (js @ rest) (case x of None \<Rightarrow> v | Some y \<Rightarrow> y) \<and> (\<forall>g \<in> set gos. J s' g RUnit)"
    and other: "K s \<Longrightarrow> J s (i # rest) v \<Longrightarrow> exec_instr i U ch v s = Some (s', js, x, gos) \<Longrightarrow>
      J s c y \<Longrightarrow> J s' c y"
    and go: "J s [IProg None p] RUnit"
    and tick: "K (s\<lparr>clock := d\<rparr>) \<longleftrightarrow> K s" "J (s\<lparr>clock := d\<rparr>) c y \<longleftrightarrow> J s c y"
    and threads_irrelevant: "K (s\<lparr>threads := ts\<rparr>) \<longleftrightarrow> K s" "J (s\<lparr>threads := ts\<rparr>) c y \<longleftrightarrow> J s c y"
begin

definition all_ok :: "'u engine \<Rightarrow> bool" where
  "all_ok s \<longleftrightarrow> K s \<and> (\<forall>g \<in> set (threads s). J s (code g) (acc g))"

lemma run_preserves:
  assumes "exec U ch t s = Some s'" "all_ok s"
  shows "all_ok s'"
proof -
  obtain i rest s1 js x gos where t: "t < length (threads s)" and c: "code (threads s ! t) = i # rest"
    and e: "exec_instr i U ch (acc (threads s ! t)) s = Some (s1, js, x, gos)"
    and s': "s' = s1\<lparr>threads := (threads s)[t := \<lparr>code = js @ rest,
                      acc = (case x of None \<Rightarrow> acc (threads s ! t) | Some y \<Rightarrow> y)\<rparr>]
                    @ map (\<lambda>c. \<lparr>code = c, acc = RUnit\<rparr>) gos\<rparr>"
    using assms(1) by (auto simp: exec_def split: if_splits list.splits option.splits prod.splits)
  have K: "K s" and J: "J s (i # rest) (acc (threads s ! t))" using assms(2) t c nth_mem by (force simp: all_ok_def)+
  have others: "J s1 (code g) (acc g)" if "g \<in> set (threads s)" for g
    using other [OF K J e] assms(2) that by (simp add: all_ok_def)
  have "J s1 (code g) (acc g)" if "g \<in> set (threads s')" for g
    using that instr [OF K J e] others s' by (auto dest!: subsetD [OF set_update_subset_insert])
  then show ?thesis using instr [OF K J e] by (auto simp: all_ok_def s' threads_irrelevant)
qed

lemma step_preserves: "eng_step U s s' \<Longrightarrow> all_ok s \<Longrightarrow> all_ok s'"
proof (induction rule: eng_step.induct)
  case (run ch t s s')
  then show ?case by (rule run_preserves)
next
  case (go s p)
  then show ?case using engine_goroutine_invariant_axioms
    by (auto simp: all_ok_def threads_irrelevant engine_goroutine_invariant_def)
qed (auto simp: all_ok_def tick)

lemma reachable: "eng_reach U s \<Longrightarrow> all_ok s"
proof -
  assume "eng_reach U s"
  then obtain cfg mem n m where steps: "(eng_step U)\<^sup>*\<^sup>* (eng_init cfg mem n m) s" by (auto simp: eng_reach_def)
  have "threads (eng_init cfg mem n m) = [\<lparr>code = NewEngine_code cfg, acc = RUnit\<rparr>]" by (simp add: eng_init_def)
  then have "all_ok (eng_init cfg mem n m)" using init by (simp add: all_ok_def)
  with steps show ?thesis by (induction rule: rtranclp_induct) (auto intro: step_preserves)
qed

end

locale engine_code_invariant =
  fixes U :: "'u user_code"
    and K :: "'u engine \<Rightarrow> bool"
    and J :: "'u engine \<Rightarrow> 'u instr list \<Rightarrow> bool"
  assumes code_init: "K (eng_init cfg mem n m) \<and> J (eng_init cfg mem n m) (NewEngine_code cfg)"
    and code_instr: "K s \<Longrightarrow> J s (i # rest) \<Longrightarrow> exec_instr i U ch v s = Some (s', js, x, gos) \<Longrightarrow>
      K s' \<and> J s' (js @ rest) \<and> (\<forall>g \<in> set gos. J s' g)"
    and code_other: "K s \<Longrightarrow> J s (i # rest) \<Longrightarrow> exec_instr i U ch v s = Some (s', js, x, gos) \<Longrightarrow>
      J s c \<Longrightarrow> J s' c"
    and code_go: "J s [IProg None p]"
    and code_tick: "K (s\<lparr>clock := d\<rparr>) \<longleftrightarrow> K s" "J (s\<lparr>clock := d\<rparr>) c \<longleftrightarrow> J s c"
    and code_threads: "K (s\<lparr>threads := ts\<rparr>) \<longleftrightarrow> K s" "J (s\<lparr>threads := ts\<rparr>) c \<longleftrightarrow> J s c"

sublocale engine_code_invariant \<subseteq> engine_goroutine_invariant U K "\<lambda>s c v. J s c"
proof unfold_locales
  show "K (eng_init cfg mem n m) \<and> J (eng_init cfg mem n m) (NewEngine_code cfg)" for cfg mem n m
    by (rule code_init)
  show "K s' \<and> J s' (js @ rest) \<and> (\<forall>g \<in> set gos. J s' g)"
    if "K s" "J s (i # rest)" "exec_instr i U ch v s = Some (s', js, x, gos)" for s i rest ch v s' js x gos
    using that by (rule code_instr)
  show "J s' c" if "K s" "J s (i # rest)" "exec_instr i U ch v s = Some (s', js, x, gos)" "J s c"
    for s i rest ch v s' js x gos c using that by (rule code_other)
qed (simp_all add: code_go code_tick code_threads)

section \<open>Initialized comes first\<close>

text \<open>
  \<open>begun\<close> are the processes to which a message has been delivered. An instruction \<open>needs\<close> the
  processes it acts for to have begun; in the stack of a goroutine everything that needs a
  process comes after the delivery of \<open>Initialized\<close> to it.
\<close>

definition begun :: "'u engine \<Rightarrow> nat set" where
  "begun s = {r. r < length (procs s) \<and> gdelivered (procs s ! r) \<noteq> []}"

fun inits :: "'u instr \<Rightarrow> nat set" where
  "inits (IInvokeMsg r e) = (if e = env_of Initialized then {r} else {})"
| "inits _ = {}"

fun needs :: "'u instr \<Rightarrow> nat set" where
  "needs (IInvokeMsg r e) = (if e = env_of Initialized then {} else {r})"
| "needs (IProduce r) = {}"
| "needs (ISpawnProc r) = {}"
| "needs (ISpawnChild c p kind opts) = {}"
| "needs (IAddChild c) = {}"
| "needs i = instr_refs i"

fun ordered :: "nat set \<Rightarrow> 'u instr list \<Rightarrow> bool" where
  "ordered D [] = True"
| "ordered D (i # js) = (needs i \<subseteq> D \<and> ordered (D \<union> inits i) js)"

definition life_first :: "'u engine \<Rightarrow> bool" where
  "life_first s \<longleftrightarrow> registry_ok s \<and> es_wf (events s) \<and>
     (\<forall>i r pid. reg_getByID (registry s) i = Some (Process r pid) \<longrightarrow> r \<in> begun s) \<and>
     (\<forall>r < length (procs s). gdelivered (procs s ! r) \<noteq> [] \<longrightarrow> hd (gdelivered (procs s ! r)) = env_of Initialized)"

definition stack_ok :: "'u engine \<Rightarrow> 'u instr list \<Rightarrow> bool" where
  "stack_ok s c \<longleftrightarrow> ordered (begun s) c \<and> (\<forall>i \<in> set c. instr_refs i \<subseteq> {..<length (procs s)})"

lemma ordered_mono: "ordered D c \<Longrightarrow> D \<subseteq> D' \<Longrightarrow> ordered D' c"
  by (induction c arbitrary: D D') (auto, blast)

lemma ordered_append: "ordered D (c @ c') \<longleftrightarrow> ordered D c \<and> ordered (D \<union> (\<Union>i \<in> set c. inits i)) c'"
  by (induction c arbitrary: D) (auto simp: Un_assoc)

lemma ordered_simple: "\<forall>i \<in> set c. needs i \<subseteq> D \<Longrightarrow> ordered D c"
  by (induction c) (auto intro: ordered_mono)

lemma ordered_Start: "ordered D (Start_code r pid)"
  by (simp add: Start_code_def env_of_def)

lemma needs_refs: "needs i \<subseteq> instr_refs i"
  by (cases i) auto

text \<open>Only \<open>IInvokeMsg\<close> delivers.\<close>

definition same_history :: "'u engine \<Rightarrow> 'u engine \<Rightarrow> bool" where
  "same_history s s' \<longleftrightarrow> length (procs s) \<le> length (procs s') \<and>
     (\<forall>r < length (procs s'). gdelivered (procs s' ! r) =
        (if r < length (procs s) then gdelivered (procs s ! r) else []))"

lemma exec_instr_history:
  assumes refs: "instr_refs i \<subseteq> {..<length (procs s)}" and e: "exec_instr i U ch v s = Some (s', js, x, gos)"
    and "\<forall>r ev. i \<noteq> IInvokeMsg r ev"
  shows "same_history s s'"
proof (cases i)
  case (IApi a)
  with e exec_api_waiters [of a ch s s' js x gos] show ?thesis by (simp add: same_history_def)
next
  case (ITryRestart r y trace)
  with e refs show ?thesis
    by (auto simp: eff_defs same_history_def tryRestart_def Let_def split: if_splits prod.splits)
next
  case (IShutdown r)
  with e refs show ?thesis by (auto simp: eff_defs same_history_def Shutdown_def split: if_splits prod.splits)
next
  case (IBroadcastScan entries live m)
  with e show ?thesis by (auto simp: eff_defs Let_def same_history_def split: list.splits if_splits)
next
  case (ISpawn p kind opts)
  with e Spawn_shape [of p kind opts s] show ?thesis by (auto simp: eff_defs same_history_def nth_append)
next
  case (ISpawnChild c p kind opts)
  with e SpawnChild_shape [of "ppid (procs s ! c)" p kind opts s] show ?thesis
    by (auto simp: eff_defs same_history_def nth_append)
qed (use e refs assms(3) in \<open>auto simp: eff_defs Let_def new_ctx_def same_history_def
      spawnProc_def removeFromParent_def addChildOf_def addChild_def removeChild_def addCancel_def
      processor_turn_def
      split: if_splits option.splits prod.splits prog.splits list.splits Processer.splits ret.splits outcome.splits\<close>)

lemma same_history_begun: "same_history s s' \<Longrightarrow> begun s' = begun s"
  by (auto simp: same_history_def begun_def split: if_splits)

text \<open>What an instruction leaves to do needs only what it needed itself, or what is registered.\<close>

lemma exec_api_needs: "exec_api a ch s = Some (s', js, x, gos) \<Longrightarrow> \<forall>j \<in> set js \<union> set (concat gos). needs j = {}"
  by (cases a) (auto simp: eff_defs Let_def new_ctx_def code_defs split: if_splits option.splits)

lemma exec_instr_needs:
  assumes e: "exec_instr i U ch v s = Some (s', js, x, gos)" and i: "needs i \<subseteq> begun s"
    and reg: "\<forall>k r pid. reg_getByID (registry s) k = Some (Process r pid) \<longrightarrow> r \<in> begun s"
    and "\<forall>r ev. i \<noteq> IInvokeMsg r ev"
  shows "ordered (begun s) js \<and> (\<forall>g \<in> set gos. ordered (begun s) g)"
proof (cases i)
  case (IApi a)
  with e exec_api_needs [of a ch s s' js x gos] show ?thesis by (auto intro!: ordered_simple)
next
  case (ITryRestart r y trace)
  with e i show ?thesis
    by (auto simp: eff_defs tryRestart_def Let_def ordered_Start split: if_splits prod.splits)
next
  case (IShutdown r)
  with e i show ?thesis
    by (auto simp: eff_defs Shutdown_def env_of_def intro!: ordered_simple split: if_splits prod.splits)
next
  case (IBroadcastScan entries live m)
  with e show ?thesis by (auto simp: eff_defs Let_def intro!: ordered_simple split: list.splits if_splits)
next
  case (ISendMessage to m sender)
  with e reg show ?thesis
    by (auto simp: eff_defs sendMessage_def resolve_def reg_get_def split: option.splits Processer.splits) blast
next
  case (IPoison pid c)
  with e reg show ?thesis
    by (auto simp: eff_defs poison_def resolve_def reg_get_def split: option.splits Processer.splits) blast
next
  case (IRemoveFromParent r)
  with e reg show ?thesis
    by (auto simp: eff_defs removeFromParent_def resolve_def reg_get_def split: option.splits Processer.splits) blast
next
  case (IAddChild c)
  with e reg show ?thesis
    by (auto simp: eff_defs addChildOf_def resolve_def reg_get_def split: option.splits Processer.splits) blast
next
  case (IInvoke r batch)
  with e i show ?thesis
    by (cases "(r, batch)" rule: Invoke_code.cases) (auto simp: eff_defs split: msg.splits if_splits)
next
  case (ISpawnProc r)
  with e show ?thesis
    by (auto simp: eff_defs spawnProc_def ordered_append ordered_Start split: option.splits)
qed (use e i assms(4) in \<open>auto simp: eff_defs Let_def new_ctx_def handlePoison_code_def sendMiss_def processor_turn_def
      split: if_splits option.splits prod.splits prog.splits list.splits Processer.splits ret.splits outcome.splits
        processor_pc.splits\<close>)

lemma exec_instr_registry_begun:
  assumes e: "exec_instr i U ch v s = Some (s', js, x, gos)" and i: "needs i \<subseteq> begun s"
    and reg: "\<forall>k r pid. reg_getByID (registry s) k = Some (Process r pid) \<longrightarrow> r \<in> begun s"
    and got: "reg_getByID (registry s') k = Some (Process r pid)"
  shows "r \<in> begun s"
proof -
  have "reg_getByID (registry s) k = Some (Process r pid) \<or> (\<exists>q. i = IRegister q \<and> r = q)"
  proof (cases i)
    case (IApi a)
    with e got show ?thesis
      by (cases a) (auto simp: eff_defs Let_def new_ctx_def log_line_def dest!: regt.add_only_own
          split: if_splits option.splits)
  next
    case (IBroadcastScan entries live m)
    with e got show ?thesis by (auto simp: eff_defs Let_def split: list.splits if_splits)
  next
    case (IRegister q)
    with e got show ?thesis by (auto simp: eff_defs dest!: regt.add_only_own)
  next
    case (IUnregister p)
    with e got show ?thesis by (auto simp: eff_defs dest!: regt.remove_only)
  next
    case (ISpawn p kind opts)
    with e got Spawn_shape [of p kind opts s] show ?thesis by (auto simp: eff_defs)
  next
    case (ISpawnChild c p kind opts)
    with e got SpawnChild_shape [of "ppid (procs s ! c)" p kind opts s] show ?thesis by (auto simp: eff_defs)
  qed (use e got in \<open>auto simp: eff_defs Let_def new_ctx_def spawnProc_def removeFromParent_def addChildOf_def
      processor_turn_def
      split: if_splits option.splits prod.splits prog.splits list.splits Processer.splits ret.splits outcome.splits\<close>)
  then show ?thesis using reg i by auto
qed

lemma deliver_begun:
  assumes "r < length (procs s)"
  shows "begun (upd_proc r (withEnvelope e) s) = insert r (begun s)"
  using assms by (auto simp: begun_def withEnvelope_def split: if_splits)

lemma begun_step:
  assumes K: "life_first s" and J: "stack_ok s (i # rest)" and e: "exec_instr i U ch v s = Some (s', js, x, gos)"
  shows "begun s \<union> inits i \<subseteq> begun s' \<and> ordered (begun s') js \<and> (\<forall>g \<in> set gos. ordered (begun s') g) \<and>
    (\<forall>r < length (procs s'). gdelivered (procs s' ! r) \<noteq> [] \<longrightarrow> hd (gdelivered (procs s' ! r)) = env_of Initialized)"
proof (cases "\<exists>r ev. i = IInvokeMsg r ev")
  case True
  then obtain r ev where i: "i = IInvokeMsg r ev" by blast
  then have r: "r < length (procs s)" and "ev = env_of Initialized \<or> r \<in> begun s"
    using J by (auto simp: stack_ok_def split: if_splits)
  moreover obtain p where "s' = upd_proc r (withEnvelope ev) s" "js = [IProg (Some r) p]" "gos = []"
    using e i by (auto simp: eff_defs split: option.splits)
  ultimately show ?thesis using i K deliver_begun [OF r, of ev]
    by (auto simp: life_first_def begun_def withEnvelope_def hd_append split: if_splits)
next
  case False
  then have no: "\<forall>r ev. i \<noteq> IInvokeMsg r ev" by blast
  have refs: "instr_refs i \<subseteq> {..<length (procs s)}" and n: "needs i \<subseteq> begun s" using J by (auto simp: stack_ok_def)
  note hist = exec_instr_history [OF refs e no]
  have "inits i = {}" using no by (cases i) auto
  moreover have "ordered (begun s) js \<and> (\<forall>g \<in> set gos. ordered (begun s) g)"
    using exec_instr_needs [OF e n _ no] K by (simp add: life_first_def)
  moreover have "\<forall>r < length (procs s'). gdelivered (procs s' ! r) \<noteq> [] \<longrightarrow> hd (gdelivered (procs s' ! r)) = env_of Initialized"
    using hist K by (auto simp: same_history_def life_first_def)
  ultimately show ?thesis using same_history_begun [OF hist] by simp
qed

lemma life_first_step:
  assumes K: "life_first s" and J: "stack_ok s (i # rest)" and e: "exec_instr i U ch v s = Some (s', js, x, gos)"
  shows "life_first s' \<and> stack_ok s' (js @ rest) \<and> (\<forall>g \<in> set gos. stack_ok s' g) \<and>
    begun s \<subseteq> begun s' \<and> length (procs s) \<le> length (procs s')"
proof -
  note b = begun_step [OF K J e]
  have n: "needs i \<subseteq> begun s" and refs: "refs_ok s {#i#}" and rest: "ordered (begun s \<union> inits i) rest"
    "\<forall>j \<in> set rest. instr_refs j \<subseteq> {..<length (procs s)}"
    using J K by (auto simp: stack_ok_def life_first_def refs_ok_def)
  note r = exec_instr_refs [OF refs e]
  have "ordered (begun s') rest" using rest(1) b by (blast intro: ordered_mono)
  then have "ordered (begun s') (js @ rest)" using b by (auto simp: ordered_append intro: ordered_mono)
  moreover have "\<forall>k q pid. reg_getByID (registry s') k = Some (Process q pid) \<longrightarrow> q \<in> begun s'"
    using exec_instr_registry_begun [OF e n] K b by (auto simp: life_first_def)
  ultimately show ?thesis using b r rest(2) by (fastforce simp: life_first_def stack_ok_def)
qed

interpretation first: engine_code_invariant U life_first stack_ok for U
proof unfold_locales
  fix cfg :: "'a Producer option" and mem n m
  show "life_first (eng_init cfg mem n m) \<and> stack_ok (eng_init cfg mem n m) (NewEngine_code cfg)"
    using refs_ok_init [of cfg mem n m]
    by (simp add: life_first_def stack_ok_def refs_ok_def NewEngine_code_def eng_init_def regt.get_empty)
next
  fix s :: "'a engine" and i rest ch v s' js x gos c
  assume a: "life_first s" "stack_ok s (i # rest)" "exec_instr i U ch v s = Some (s', js, x, gos)"
  note step = life_first_step [OF a]
  show "life_first s' \<and> stack_ok s' (js @ rest) \<and> (\<forall>g \<in> set gos. stack_ok s' g)" using step by blast
  show "stack_ok s c \<Longrightarrow> stack_ok s' c" using step by (fastforce simp: stack_ok_def intro: ordered_mono)
qed (simp_all add: life_first_def stack_ok_def begun_def registry_ok_def)

end
