(* ===== verification/Engine_Route.thy ===== *)
theory Engine_Route
  imports Engine_Inv
begin

text \<open>
  Routing: \<open>sendMessage\<close>, \<open>sendMiss\<close>, \<open>BroadcastEvent\<close>, the push into an inbox and \<open>schedule\<close>. Such an
  instruction can always run, except that \<open>broadcast\<close> waits for the stream's lock, and each one
  leaves only routing instructions of lower rank, because a \<open>DeadLetterEvent\<close> is never turned
  into another one and a scan gets shorter. So a call of \<open>Send\<close> or \<open>BroadcastEvent\<close> ends after finitely
  many steps of its own goroutine, whatever the other goroutines do in between. The lock is
  held exactly while one goroutine scans, and that goroutine never waits.
\<close>

section \<open>Termination\<close>

fun rank :: "'u instr \<Rightarrow> nat \<times> nat" where
  "rank (ISchedule r) = (1, 0)"
| "rank (IDeliver r e) = (2, 0)"
| "rank (ISendMiss pid m sender) = (if is_deadletter m then 2 else 6, 0)"
| "rank (ISendMessage to m sender) = (if is_deadletter m then 3 else 7, 0)"
| "rank (IBroadcastScan entries live m) = (if is_deadletter m then 4 else 8, length entries)"
| "rank (IBroadcast m) = (if is_deadletter m then 5 else 9, 0)"
| "rank (IEvent f) = (10, 0)"
| "rank _ = (0, 0)"

definition routing :: "'u instr \<Rightarrow> bool" where
  "routing i \<longleftrightarrow> 0 < fst (rank i)"

definition lower_rank :: "((nat \<times> nat) \<times> (nat \<times> nat)) set" where
  "lower_rank = less_than <*lex*> less_than"

definition ranks :: "'u instr list \<Rightarrow> (nat \<times> nat) multiset" where
  "ranks c = mset (map rank c)"

fun is_broadcast :: "'u instr \<Rightarrow> bool" where
  "is_broadcast (IBroadcast m) = True"
| "is_broadcast _ = False"

text \<open>A step of one goroutine whose next instruction is a routing one, in any state.\<close>

inductive route_step :: "'u user_code \<Rightarrow> 'u instr list \<Rightarrow> 'u instr list \<Rightarrow> bool" for U where
  "routing i \<Longrightarrow> exec_instr i U ch v s = Some (s', js, x, gos) \<Longrightarrow> route_step U (i # rest) (js @ rest)"

lemma route_enabled:
  assumes "routing i" "es_mu s \<longrightarrow> \<not> is_broadcast i"
  shows "exec_instr i U ch v s \<noteq> None"
  using assms
  by (cases i) (auto simp: routing_def eff_defs Let_def Inbox_push_def list_push_def split: prod.splits if_splits list.splits)

lemma route_lower:
  assumes "routing i" "exec_instr i U ch v s = Some (s', js, x, gos)"
  shows "\<forall>j \<in> set js. routing j \<and> (rank j, rank i) \<in> lower_rank"
  using assms
  by (cases i) (auto simp: routing_def lower_rank_def eff_defs Let_def sendMessage_def sendMiss_def Inbox_push_def
      list_push_def split: if_splits prod.splits option.splits Processer.splits list.splits)

lemma route_step_decreases:
  assumes "route_step U c c'"
  shows "(ranks c', ranks c) \<in> mult lower_rank"
  using assms
proof cases
  case (1 i ch v s s' js x gos rest)
  have "\<forall>k \<in># ranks js. (k, rank i) \<in> lower_rank" using route_lower [OF 1(3,4)] by (auto simp: ranks_def)
  then have "(ranks rest + ranks js, ranks rest + {#rank i#}) \<in> mult lower_rank"
    by (intro one_step_implies_mult) auto
  then show ?thesis using 1 by (simp add: ranks_def add.commute)
qed

lemma route_wf: "wfP (\<lambda>c' c. route_step U c c')"
proof -
  have "wf lower_rank" by (auto simp: lower_rank_def)
  then have "wf (inv_image (mult lower_rank) ranks)" by (intro wf_inv_image wf_mult)
  then have "wf {(c', c). route_step U c c'}"
    by (rule wf_subset) (auto dest: route_step_decreases)
  then show ?thesis by (simp add: wfp_def)
qed

text \<open>Where the routing of a call ends: exactly the rest of the goroutine's stack.\<close>

lemma route_all:
  assumes "(route_step U)\<^sup>*\<^sup>* (c @ rest) d" "\<forall>i \<in> set c. routing i"
    and "\<not> (rest \<noteq> [] \<and> routing (hd rest))"
  shows "\<exists>c'. d = c' @ rest \<and> (\<forall>i \<in> set c'. routing i)"
  using assms(1)
proof (induction rule: rtranclp_induct)
  case (step d e)
  then obtain c' where c': "d = c' @ rest" "\<forall>i \<in> set c'. routing i" by blast
  from step(2) show ?case
  proof cases
    case (1 i ch v s s' js x gos rest')
    then obtain c'' where "c' = i # c''" "rest' = c'' @ rest"
      using c' assms(3) by (cases c') auto
    then show ?thesis using 1 c' route_lower [OF 1(3,4)] by (intro exI [of _ "js @ c''"]) auto
  qed
qed (use assms(2) in blast)

end
