(* ===== verification/Engine_Run.thy ===== *)
theory Engine_Run
  imports Engine
begin

text \<open>
  Schedules of the engine machine and a small user program, to run the engine on concrete inputs.
  \<open>Run t n ch\<close> lets goroutine \<open>t\<close> take up to \<open>n\<close> steps (it stops where it blocks or ends); \<open>Go p\<close> starts
  a goroutine of the user's.
\<close>

datatype 'u sched = Run nat nat "nat list" | Go "'u prog"

fun burst :: "'u user_code \<Rightarrow> nat list \<Rightarrow> nat \<Rightarrow> nat \<Rightarrow> 'u engine \<Rightarrow> 'u engine" where
  "burst U ch t 0 s = s"
| "burst U ch t (Suc n) s = (case exec U ch t s of None \<Rightarrow> s | Some s' \<Rightarrow> burst U ch t n s')"

fun eng_run :: "'u user_code \<Rightarrow> 'u sched list \<Rightarrow> 'u engine \<Rightarrow> 'u engine" where
  "eng_run U [] s = s"
| "eng_run U (Run t n ch # es) s = eng_run U es (burst U ch t n s)"
| "eng_run U (Go p # es) s =
     eng_run U es (s\<lparr>threads := threads s @ [\<lparr>code = [IProg None p], acc = RUnit\<rparr>]\<rparr>)"

lemma burst_steps: "(eng_step U)\<^sup>*\<^sup>* s (burst U ch t n s)"
proof (induction n arbitrary: s)
  case (Suc n)
  then show ?case
    by (auto split: option.splits intro: converse_rtranclp_into_rtranclp eng_step.run)
qed simp

lemma eng_run_steps: "(eng_step U)\<^sup>*\<^sup>* s (eng_run U es s)"
proof (induction U es s rule: eng_run.induct)
  case (2 U t n ch es s)
  then show ?case using burst_steps [of U s ch t n] by (simp add: rtranclp_trans)
next
  case (3 U p es s)
  then show ?case using converse_rtranclp_into_rtranclp [of "eng_step U", OF eng_step.go] by simp
qed simp

text \<open>
  The user program: receivers are numbers. All but 0 react to one message. 1 panics on
  \<open>Initialized\<close>, 2 on the user message 13, 3 on \<open>Initialized\<close> once (its memory says whether it
  already did), 4 spawns a child while handling \<open>Initialized\<close>, 5 panics on \<open>Started\<close>, 6 answers
  the user message 5 with 7, and 7 spawns a child on that message.
\<close>

definition on :: "nat msg \<Rightarrow> nat prog \<Rightarrow> nat ReceiveFunc" where
  "on m p c = Do (C_Message c) (\<lambda>r. case r of RMsg m' \<Rightarrow> if m' = m then p else Done | _ \<Rightarrow> Done)"

definition demo_receive :: "nat \<Rightarrow> nat ReceiveFunc" where
  "demo_receive x c =
     (if x = 1 then on Initialized (PanicWith 9 ''goroutine 1'') c
      else if x = 2 then on (User 13) (PanicWith 9 ''goroutine 1'') c
      else if x = 3 then on Initialized (Do Load (\<lambda>r. if r = RVal 0
        then Do (Store 1) (\<lambda>_. PanicWith 9 ''goroutine 1'') else Done)) c
      else if x = 4 then on Initialized (call (C_SpawnChild c (UserProducer 0) ''kid'' [WithID ''k''])) c
      else if x = 6 then on (User 5) (call (C_Respond c (User 7))) c
      else if x = 7 then on (User 5) (call (C_SpawnChild c (UserProducer 0) ''kid'' [WithID ''k''])) c
      else if x = 5 then on Started (PanicWith 9 ''goroutine 1'') c
      else Done)"

definition demo :: "nat user_code" where
  "demo = \<lparr>uc_produce = (\<lambda>p m. (p, m)), uc_receive = demo_receive, uc_func = (\<lambda>f c. Done),
     uc_middleware = (\<lambda>w nxt. nxt)\<rparr>"

definition boot :: "nat sched list \<Rightarrow> nat engine" where
  "boot es = eng_run demo (Run 0 60 [] # es) (eng_init None 0 0 0)"

lemma boot_reach: "eng_reach demo (boot es)"
  unfolding eng_reach_def boot_def using eng_run_steps by blast

definition pid_x :: PID where "pid_x = NewPID ''local'' ''a/x''"

definition spawn_x :: "nat \<Rightarrow> int64 \<Rightarrow> nat prog" where
  "spawn_x x n = call (E_Spawn (UserProducer x) ''a'' [WithID ''x'', WithMaxRestarts n])"

definition send_x :: "nat msg \<Rightarrow> nat prog" where
  "send_x m = call (E_Send (Some pid_x) m)"

end
