(* ===== verification/Engine_Props.thy ===== *)
theory Engine_Props
  imports Engine_Mail Engine_Life Engine_Route Engine_Run
begin

text \<open>
  What the engine promises, for every user program and every interleaving: the properties proved
  from the invariants of \<open>Engine_Inv\<close>, \<open>Engine_Mail\<close>, \<open>Engine_Life\<close> and \<open>Engine_Route\<close>, and the runs in
  which the engine does something its documentation rules out.
\<close>

section \<open>Runs used as witnesses\<close>

definition poison_x :: "nat prog" where
  "poison_x = Do (E_Poison (Some pid_x)) (\<lambda>r. case r of RRef c \<Rightarrow> call (Ctx_Done c) | _ \<Rightarrow> Done)"

definition poison_run :: "nat sched list" where
  "poison_run = [Go (spawn_x 0 3), Run 1 100 [], Run 2 100 [], Go (send_x (User 5)), Run 3 100 [], Go poison_x, Run 5 100 []]"

definition poison_end :: "nat sched list" where
  "poison_end = poison_run @ [Run 4 100 [], Run 5 100 [], Run 6 100 []]"

lemma poison_run_result:
  "ctxs (boot poison_run) = [False] \<and> map cancels (procs (boot poison_run)) = [[], [0]] \<and>
   map stopped (procs (boot poison_run)) = [False, False] \<and> map (procStatus \<circ> inbox) (procs (boot poison_run)) = [StateIdle, StateRunning]"
  by code_simp

lemma poison_end_result:
  "ctxs (boot poison_end) = [True] \<and> map (length \<circ> code) (threads (boot poison_end)) = replicate 7 0 \<and>
   map (map Msg \<circ> gdelivered) (drop 1 (procs (boot poison_end))) = [[Initialized, Started, User 5, Stopped]] \<and>
   resolve (boot poison_end) (Some pid_x) = None"
  by code_simp

definition crash_run :: "nat sched list" where
  "crash_run = [Go (spawn_x 1 2), Run 1 300 []]"

lemma crash_run_result:
  "map (\<lambda>p. (gpanics p, grestarted p, gtorn p, sint (MaxRestarts (popts p)))) (procs (boot crash_run)) =
     [(0, 0, 0, 3), (3, 2, 1, 2)]"
  by code_simp

lemma quiescent_pool: "\<forall>g \<in> set (threads s). code g = [] \<Longrightarrow> pool s = {#}"
  by (auto simp: pool_def)

section \<open>Properties\<close>

text \<open>
  C3. No poison waiter is forgotten. In every reachable state every context handed out by
  \<open>Poison\<close>, \<open>Stop\<close>, \<open>PoisonAfter\<close>, \<open>shutdownChildren\<close> or \<open>Response.await\<close> is cancelled, or its cancel
  function is held by a process that has not stopped, or a goroutine is about to call
  it or to hand it over; and a stopped process holds none.
\<close>
theorem poison_waiters_accounted:
  assumes "eng_reach U s"
  shows "(\<forall>c < length (ctxs s). ctxs s ! c \<or> held s c \<or>
       (\<exists>g \<in> set (threads s). \<exists>i \<in> set (code g). settles c i)) \<and>
    (\<forall>r < length (procs s). stopped (procs s ! r) \<longrightarrow> cancels (procs s ! r) = [])"
  using waiters.reachable [OF assms] by (auto simp: waiters_ok_def pool_def)

theorem poison_waiters_accounted_witness:
  "ctxs (boot poison_run) = [False] \<and> (held (boot poison_run) 0 \<or>
     (\<exists>g \<in> set (threads (boot poison_run)). \<exists>i \<in> set (code g). settles 0 i))"
  using poison_waiters_accounted [OF boot_reach, of poison_run] poison_run_result by auto

text \<open>
  C2. Poison never hangs. When every goroutine of the engine has finished, every context ever
  returned by a poison is cancelled, and every mailbox of a process that has not
  stopped is empty: no waiter and no message is left behind.
\<close>
theorem quiescent_everything_done:
  assumes "eng_reach U s" and "\<forall>g \<in> set (threads s). code g = []"
  shows "(\<forall>c < length (ctxs s). ctxs s ! c) \<and>
    (\<forall>r < length (procs s). stopped (procs s ! r) \<or> rb (inbox (procs s ! r)) = [])"
proof -
  have mail: "stopped (procs s ! r) \<or> rb (inbox (procs s ! r)) = [] \<and> cancels (procs s ! r) = []"
    if "r < length (procs s)" for r
  proof -
    have "mail_ok1 r (procs s ! r) {#}"
      using mail.reachable [OF assms(1)] quiescent_pool [OF assms(2)] that by (simp add: mail_ok_def)
    then show ?thesis
      by (cases "procStatus (inbox (procs s ! r))") (auto simp: mail_ok1_def sched_ok_def pill_coming_def)
  qed
  moreover have "ctxs s ! c \<or> held s c" if "c < length (ctxs s)" for c
    using waiters.reachable [OF assms(1)] quiescent_pool [OF assms(2)] that by (simp add: waiters_ok_def)
  ultimately show ?thesis by (fastforce simp: held_def)
qed

theorem quiescent_everything_done_witness:
  "length (ctxs (boot poison_end)) = 1 \<and> ctxs (boot poison_end) ! 0"
proof -
  have "\<forall>g \<in> set (threads (boot poison_end)). code g = []"
    using poison_end_result by (metis comp_apply image_eqI in_set_replicate length_0_conv list.set_map)
  from quiescent_everything_done [OF boot_reach this] show ?thesis using poison_end_result by simp
qed

text \<open>
  C10. One processor per actor. In every reachable state of the engine at most one goroutine is
  in the processing loop of a process; exactly one when its inbox is running, none
  when it is idle; and an idle inbox with messages has a goroutine about to look at it.
\<close>
theorem engine_one_processor:
  assumes "eng_reach U s" and "r < length (procs s)"
  shows "own (pool s) r \<le> 1 \<and>
    (procStatus (inbox (procs s ! r)) = StateRunning \<longrightarrow> own (pool s) r = 1) \<and>
    (procStatus (inbox (procs s ! r)) = StateIdle \<longrightarrow> own (pool s) r = 0 \<and>
      (rb (inbox (procs s ! r)) \<noteq> [] \<longrightarrow> (\<exists>i \<in># pool s. wake_instr r i)))"
proof -
  have "mail_ok1 r (procs s ! r) (pool s)" using mail.reachable [OF assms(1)] assms(2) by (simp add: mail_ok_def)
  then show ?thesis by (auto simp: mail_ok1_def sched_ok_def)
qed

theorem engine_one_processor_witness:
  "own (pool (boot poison_run)) 1 = 1 \<and> own (pool (boot poison_run)) 0 = 0"
proof -
  have len: "length (procs (boot poison_run)) = 2" and st: "procStatus (inbox (procs (boot poison_run) ! 0)) = StateIdle"
    "procStatus (inbox (procs (boot poison_run) ! 1)) = StateRunning"
    using poison_run_result by (auto simp: map_eq_Cons_conv)
  show ?thesis
    using engine_one_processor [OF boot_reach, of 0 poison_run] engine_one_processor [OF boot_reach, of 1 poison_run] len st
    by simp
qed



text \<open>
  C11. Restarts are bounded and shutdown happens once. In every reachable state a process whose
  restarts are disabled has never been restarted, and one with a positive bound that has
  recovered \<open>n < 2^31\<close> panics has been restarted exactly \<open>min n MaxRestarts\<close> times; and its
  teardown has been claimed at most once, exactly when it is stopped.
\<close>
theorem restarts_bounded:
  assumes "eng_reach U s" and "r < length (procs s)" and "p = procs s ! r"
  shows "(MaxRestarts (popts p) = 0 \<longrightarrow> grestarted p = 0) \<and>
    (MaxRestarts (popts p) \<noteq> 0 \<and> gpanics p < 2 ^ 31 \<longrightarrow>
       grestarted p = min (gpanics p) (nat (sint (MaxRestarts (popts p))))) \<and>
    gtorn p = (if stopped p then 1 else 0)"
proof -
  have "life_ok1 p" using life.reachable [OF assms(1)] assms(2,3) by (simp add: life_ok_def)
  then show ?thesis by (auto simp: life_ok1_def restart_bound_def)
qed

theorem restarts_bounded_witness:
  "grestarted (procs (boot crash_run) ! 1) = 2 \<and> gpanics (procs (boot crash_run) ! 1) = 3 \<and>
   gtorn (procs (boot crash_run) ! 1) = 1 \<and> stopped (procs (boot crash_run) ! 1)"
proof -
  define p where "p = procs (boot crash_run) ! 1"
  have p: "gpanics p = 3" "gtorn p = 1" "sint (MaxRestarts (popts p)) = 2" and len: "1 < length (procs (boot crash_run))"
    using crash_run_result by (auto simp: p_def map_eq_Cons_conv)
  then have max: "MaxRestarts (popts p) \<noteq> 0" by auto
  note * = restarts_bounded [OF boot_reach len p_def]
  have "gpanics p < 2 ^ 31" unfolding p(1) by simp
  then have "grestarted p = min (gpanics p) (nat (sint (MaxRestarts (popts p))))" using * max by blast
  then have "grestarted p = 2" unfolding p by simp
  moreover have "stopped p" using * p(2) by (cases "stopped p") auto
  ultimately show ?thesis using p(1,2) unfolding p_def by blast
qed

text \<open>
  C12. \<open>Initialized\<close> comes first, and before the actor is reachable. In every reachable state the
  first message ever delivered to a process is \<open>Initialized\<close>, and a process that the registry
  knows has had it delivered.
\<close>
theorem initialized_first:
  assumes "eng_reach U s"
  shows "(\<forall>r < length (procs s). gdelivered (procs s ! r) = [] \<or> hd (gdelivered (procs s ! r)) = env_of Initialized) \<and>
    (\<forall>pid r p. resolve s pid = Some (Process r p) \<longrightarrow> gdelivered (procs s ! r) \<noteq> [])"
proof -
  have "life_first s" using first.reachable [OF assms] first.all_ok_def by blast
  then show ?thesis
    by (auto simp: life_first_def begun_def resolve_def reg_get_def split: option.splits)
qed

theorem initialized_first_witness:
  "hd (gdelivered (procs (boot crash_run) ! 1)) = env_of Initialized \<and> gpanics (procs (boot crash_run) ! 1) = 3"
proof -
  have "length (procs (boot crash_run)) = 2" "gpanics (procs (boot crash_run) ! 1) = 3"
    using crash_run_result by (auto simp: map_eq_Cons_conv)
  moreover have "gdelivered (procs (boot crash_run) ! 1) \<noteq> []" by code_simp
  ultimately show ?thesis using initialized_first [OF boot_reach, of crash_run] by (metis one_less_numeral_iff semiring_norm(76))
qed

text \<open>
  C13. \<open>Send\<close> and \<open>BroadcastEvent\<close> always come back. Whatever the other goroutines do between its steps,
  the goroutine's own steps cannot go on forever; where they end the whole call is done and
  only what came after it is left; and on the way the next step can always run, except that
  a broadcast waits while another goroutine scans the subscribers.
\<close>
theorem send_always_returns:
  assumes "c \<in> {[ISendMessage to m sender], [IBroadcast m]}"
  shows "(\<nexists>f. f 0 = c @ IReturn RUnit # rest \<and> (\<forall>n. route_step U (f n) (f (Suc n)))) \<and>
    (\<forall>d. (route_step U)\<^sup>*\<^sup>* (c @ IReturn RUnit # rest) d \<longrightarrow> d = IReturn RUnit # rest \<or>
      (\<exists>i d'. d = i # d' \<and> (\<forall>ch v s. exec_instr i U ch v s = None \<longrightarrow> is_broadcast i \<and> es_mu s) \<and>
         (\<exists>e. route_step U d e)))"
proof (intro conjI allI impI)
  have c: "\<forall>i \<in> set c. routing i" using assms by (auto simp: routing_def)
  show "\<nexists>f. f 0 = c @ IReturn RUnit # rest \<and> (\<forall>n. route_step U (f n) (f (Suc n)))"
    using route_wf [of U] unfolding wfp_def wf_iff_no_infinite_down_chain by auto
  fix d assume "(route_step U)\<^sup>*\<^sup>* (c @ IReturn RUnit # rest) d"
  then obtain c' where c': "d = c' @ IReturn RUnit # rest" "\<forall>i \<in> set c'. routing i"
    using route_all [OF _ c, of U "IReturn RUnit # rest" d] by (auto simp: routing_def)
  show "d = IReturn RUnit # rest \<or>
      (\<exists>i d'. d = i # d' \<and> (\<forall>ch v s. exec_instr i U ch v s = None \<longrightarrow> is_broadcast i \<and> es_mu s) \<and>
         (\<exists>e. route_step U d e))"
  proof (cases c')
    case (Cons i c'')
    let ?s = "eng_init None undefined 0 0"
    have i: "routing i" using c' Cons by simp
    obtain r where "exec_instr i U [] RUnit ?s = Some r"
      using route_enabled [OF i, of ?s U "[]" RUnit] by (auto simp: eng_init_def)
    then have "\<exists>e. route_step U d e"
      using c' Cons route_step.intros [OF i, of U "[]" RUnit ?s] by (cases r) (metis append_Cons)
    moreover have "is_broadcast i \<and> es_mu s" if "exec_instr i U ch v s = None" for ch v s
      using route_enabled [OF i, of s U ch v] that by blast
    ultimately show ?thesis using Cons c'(1) by (intro disjI2 exI [of _ i] exI [of _ "c'' @ IReturn RUnit # rest"]) simp
  qed (use c' in simp)
qed

theorem send_always_returns_witness:
  "\<nexists>f. f 0 = [ISendMessage (Some pid_x) (User 5) None] @ [IReturn RUnit] \<and> (\<forall>n. route_step demo (f n) (f (Suc n)))"
  using send_always_returns [of "[ISendMessage (Some pid_x) (User 5) None]" "Some pid_x" "User 5" None "[]" demo] by blast

section \<open>Where the code departs from its documentation\<close>

text \<open>
  Every state \<open>boot es\<close> is reachable (\<open>boot_reach\<close>). \<open>delivered_x\<close> lists the messages delivered to the
  actor under test, oldest first.
\<close>

definition delivered_x :: "nat engine \<Rightarrow> nat msg list" where
  "delivered_x s = map Msg (gdelivered (procs s ! 1))"

fun receiving :: "nat \<Rightarrow> 'u instr \<Rightarrow> bool" where
  "receiving r (IProg ro p) = (ro = Some r)"
| "receiving r (IResume ro k) = (ro = Some r)"
| "receiving r _ = False"

definition stillborn_run :: "nat sched list" where
  "stillborn_run = [Go (spawn_x 1 0), Run 1 200 []]"






end
