(* ===== verification/Engine_Fifo.thy ===== *)
theory Engine_Fifo
  imports Engine_Mail Engine_Life Engine_Run "HOL-Library.Sublist"
begin

text \<open>
  The order of messages inside the engine. \<open>sent r\<close> are the envelopes pushed into the inbox of process
  \<open>r\<close>, \<open>taken r\<close> those its \<open>Invoke\<close> has got to. Nothing is taken twice or out of order, nothing is lost
  until a poison pill is taken, and when a pill is taken everything sent before it has been.

  The proof needs the order within a stack: an \<open>IInvoke\<close> lies directly on the processor that started
  it (\<open>shaped\<close>), so with one processor per process there is one batch per process.
\<close>

definition of_proc :: "nat \<Rightarrow> (nat \<times> 'a) list \<Rightarrow> 'a list" where
  "of_proc r xs = map snd (filter (\<lambda>x. fst x = r) xs)"

definition sent :: "'u engine \<Rightarrow> nat \<Rightarrow> 'u Envelope list" where
  "sent s r = of_proc r (gsent s)"

definition taken :: "'u engine \<Rightarrow> nat \<Rightarrow> 'u Envelope list" where
  "taken s r = of_proc r (gtaken s)"

fun is_pill :: "'u msg \<Rightarrow> bool" where
  "is_pill (poisonPill c graceful) = True"
| "is_pill _ = False"

text \<open>A list up to and including its first pill.\<close>

fun upto_pill :: "'u Envelope list \<Rightarrow> 'u Envelope list" where
  "upto_pill [] = []"
| "upto_pill (e # es) = (if is_pill (Msg e) then [e] else e # upto_pill es)"

lemma of_proc_simps [simp]:
  "of_proc r [] = []" "of_proc r (xs @ ys) = of_proc r xs @ of_proc r ys"
  "of_proc r ((q, x) # xs) = (if q = r then x # of_proc r xs else of_proc r xs)"
  "of_proc r (map (Pair q) zs) = (if q = r then zs else [])"
  by (auto simp: of_proc_def filter_map comp_def)

lemma upto_pill_append:
  "upto_pill (xs @ ys) = (if \<exists>e \<in> set xs. is_pill (Msg e) then upto_pill xs else xs @ upto_pill ys)"
  by (induction xs) auto

lemma upto_pill_none: "\<not> (\<exists>e \<in> set xs. is_pill (Msg e)) \<Longrightarrow> upto_pill xs = xs"
  by (induction xs) auto

section \<open>The shape of a stack\<close>

fun shaped :: "'u instr list \<Rightarrow> bool" where
  "shaped [] = True"
| "shaped (i # js) = ((case i of
     IInvoke r es \<Rightarrow> (case js of IProcessor q (RunInvoke b) # _ \<Rightarrow> q = r | _ \<Rightarrow> False)
   | _ \<Rightarrow> True) \<and> shaped js)"

fun invokes :: "nat \<Rightarrow> 'u instr \<Rightarrow> bool" where
  "invokes r (IInvoke q es) = (q = r)"
| "invokes r _ = False"

lemma shaped_plain: "\<forall>i \<in> set c. \<forall>r. \<not> invokes r i \<Longrightarrow> shaped (c @ d) = shaped d"
  by (induction c) (auto split: instr.splits)

definition tally :: "('u instr \<Rightarrow> bool) \<Rightarrow> 'u instr list \<Rightarrow> nat" where
  "tally p c = length (filter p c)"

lemma shaped_count: "shaped c \<Longrightarrow> tally (invokes r) c \<le> tally (owner_instr r) c"
proof (induction c rule: measure_induct_rule [of length])
  case (less c)
  show ?case
  proof (cases c)
    case (Cons i js)
    show ?thesis
    proof (cases "invokes r i")
      case True
      then obtain es where i: "i = IInvoke r es" by (cases i) auto
      with less.prems Cons obtain b ks where js: "js = IProcessor r (RunInvoke b) # ks" and "shaped ks"
        by (auto split: list.splits instr.splits processor_pc.splits)
      with less.IH [of ks] Cons have "tally (invokes r) ks \<le> tally (owner_instr r) ks" by simp
      then show ?thesis using Cons i js by (simp add: tally_def)
    next
      case False
      then show ?thesis using less.IH [of js] less.prems Cons by (simp add: tally_def)
    qed
  qed (simp add: tally_def)
qed

lemma shaped_count_owner:
  assumes "shaped (i # rest)" "owner_instr r i"
  shows "tally (invokes r) (i # rest) \<le> tally (owner_instr r) rest"
proof -
  have "\<not> invokes r i" using assms(2) by (cases i) auto
  then show ?thesis using shaped_count [of rest] assms(1) by (simp add: tally_def)
qed

lemma exec_api_mail_log:
  "exec_api a ch s = Some (s', js, x, gos) \<Longrightarrow>
   gsent s' = gsent s \<and> gtaken s' = gtaken s \<and> (\<forall>j \<in> set js \<union> set (concat gos). \<not> invokes q j)"
  by (cases a) (auto simp: eff_defs Let_def new_ctx_def code_defs log_line_def split: if_splits option.splits)

lemma exec_instr_mail_log:
  assumes e: "exec_instr i U ch v s = Some (s', js, x, gos)" and "\<forall>r pc. i \<noteq> IProcessor r pc" "\<forall>r ev. i \<noteq> IDeliver r ev"
    and "\<forall>r es. i \<noteq> IInvoke r es"
  shows "gsent s' = gsent s \<and> gtaken s' = gtaken s \<and>
    (q < length (procs s) \<longrightarrow> rb (inbox (procs s' ! q)) = rb (inbox (procs s ! q))) \<and>
    (\<forall>j \<in> set js \<union> set (concat gos). \<not> invokes r j)"
proof (cases i)
  case (IApi a)
  with e exec_api_mail_log [of a ch s s' js x gos] exec_api_waiters [of a ch s s' js x gos] show ?thesis by simp
next
  case (ITryRestart r y trace)
  with e show ?thesis
    by (auto simp: eff_defs tryRestart_def Let_def Start_code_def split: prod.splits if_splits)
next
  case (IBroadcastScan entries live m)
  with e show ?thesis by (auto simp: eff_defs Let_def split: list.splits if_splits)
next
  case (ISpawn p kind opts)
  with e Spawn_shape [of p kind opts s] show ?thesis by (auto simp: eff_defs nth_append)
next
  case (ISpawnChild c p kind opts)
  with e SpawnChild_shape [of "ppid (procs s ! c)" p kind opts s] show ?thesis
    by (auto simp: eff_defs nth_append)
next
  case (IShutdown r)
  with e show ?thesis by (auto simp: eff_defs Shutdown_def split: prod.splits if_splits)
next
  case (ISpawnProc r)
  with e show ?thesis
    by (auto simp: eff_defs spawnProc_def Start_code_def Inbox_Start_def split: option.splits)
qed (use e assms(2-4) in \<open>auto simp: eff_defs Let_def new_ctx_def code_defs Inbox_Stop_def schedule_def cas_status_def
      removeFromParent_def addChildOf_def addCancel_def addChild_def removeChild_def withEnvelope_def
      split: if_splits option.splits prod.splits prog.splits list.splits Processer.splits ret.splits
        outcome.splits\<close>)

lemma exec_instr_Processor:
  assumes "exec_instr (IProcessor r pc) U ch v s = Some (s', js, x, gos)"
  obtains ib pc' where "process_next list_popn (seen_len (first_branch ch)) (inbox (procs s ! r)) pc = Return (ib, pc')"
    "s' = upd_proc r (\<lambda>p. p\<lparr>inbox := ib\<rparr>) s" "js = turn_code r pc'" "gos = []"
  using assms
  by (auto simp: eff_defs processor_turn_def turn_code_def split: outcome.splits prod.splits)

lemma shaped_turn: "shaped (turn_code r pc @ rest) \<longleftrightarrow> shaped rest"
  by (auto simp: turn_code_def split: processor_pc.splits)

lemma shaped_Invoke:
  assumes "shaped (IInvoke r es # rest)"
  shows "shaped (Invoke_code r es @ rest)"
  using assms
  by (cases "(r, es)" rule: Invoke_code.cases)
    (auto split: list.splits instr.splits processor_pc.splits msg.splits)

lemma exec_instr_shaped:
  assumes "shaped (i # rest)" and e: "exec_instr i U ch v s = Some (s', js, x, gos)"
  shows "shaped (js @ rest) \<and> (\<forall>g \<in> set gos. shaped g)"
proof -
  consider r pc where "i = IProcessor r pc" | r es where "i = IInvoke r es" | r ev where "i = IDeliver r ev"
    | "\<forall>r pc. i \<noteq> IProcessor r pc" "\<forall>r ev. i \<noteq> IDeliver r ev" "\<forall>r es. i \<noteq> IInvoke r es" by blast
  then show ?thesis
  proof cases
    case 1
    from e [unfolded 1] show ?thesis
      by (rule exec_instr_Processor) (use assms(1) 1 in \<open>auto simp: shaped_turn\<close>)
  next
    case 2
    have "shaped (Invoke_code r es @ rest)" using assms(1) by (intro shaped_Invoke) (simp add: 2)
    then show ?thesis using e by (simp add: 2 goes_def)
  next
    case 3
    then show ?thesis using e assms(1) by (auto simp: eff_defs split: outcome.splits)
  next
    case 4
    note log = exec_instr_mail_log [OF e 4]
    have "shaped (js @ rest)" using log shaped_plain [of js rest] assms(1) by simp
    moreover have "shaped g" if "g \<in> set gos" for g
    proof -
      have "\<forall>j \<in> set g. \<forall>r. \<not> invokes r j" using log that by auto
      then show ?thesis using shaped_plain [of g "[]"] by simp
    qed
    ultimately show ?thesis by blast
  qed
qed

interpretation shape: engine_code_invariant U "\<lambda>_. True" "\<lambda>_. shaped" for U
  by unfold_locales (use exec_instr_shaped in \<open>blast | simp add: NewEngine_code_def\<close>)+

section \<open>One batch per process\<close>

lemma size_tally: "size (filter_mset p (mset c)) = tally p c"
  by (simp add: tally_def flip: size_mset mset_filter)

lemma tally_simps [simp]:
  "tally p [] = 0" "tally p (i # c) = (if p i then 1 else 0) + tally p c" "tally p (c @ d) = tally p c + tally p d"
  by (simp_all add: tally_def)

lemma pool_counts:
  "\<forall>g \<in> set ts. shaped (code g) \<Longrightarrow>
   tally (invokes r) (concat (map code ts)) \<le> tally (owner_instr r) (concat (map code ts))"
  by (induction ts) (auto intro: add_mono shaped_count)

text \<open>When a processor or a batch of \<open>r\<close> runs, no other batch of \<open>r\<close> is pending.\<close>

lemma exec_alone:
  assumes e: "exec U ch t s = Some s'" and sh: "\<forall>g \<in> set (threads s). shaped (code g)" and own: "\<forall>r. own (pool s) r \<le> 1"
  obtains i v s1 js x gos P ts where "pool s = add_mset i P" "exec_instr i U ch v s = Some (s1, js, x, gos)"
    "s' = s1\<lparr>threads := ts\<rparr>" "pool s' = P + mset js + mset (concat gos)"
    "\<forall>r. owner_instr r i \<or> invokes r i \<longrightarrow> (\<forall>j \<in># P. \<not> invokes r j)"
proof -
  obtain i rest s1 js x gos where t: "t < length (threads s)" and c: "code (threads s ! t) = i # rest"
    and ei: "exec_instr i U ch (acc (threads s ! t)) s = Some (s1, js, x, gos)"
    and s': "s' = s1\<lparr>threads := (threads s)[t := \<lparr>code = js @ rest,
                      acc = (case x of None \<Rightarrow> acc (threads s ! t) | Some y \<Rightarrow> y)\<rparr>]
                    @ map (\<lambda>c. \<lparr>code = c, acc = RUnit\<rparr>) gos\<rparr>"
    using e by (auto simp: exec_def split: if_splits list.splits option.splits prod.splits)
  let ?O = "take t (threads s) @ drop (Suc t) (threads s)" let ?R = "concat (map code ?O)"
  let ?P = "mset rest + mset ?R"
  have P: "pool s = add_mset i ?P" using pool_split [OF t] c by simp
  have P': "pool s' = ?P + mset js + mset (concat gos)"
    using t by (simp add: s' pool_def upd_conv_take_nth_drop comp_def ac_simps)
  have alone: "\<forall>j \<in># ?P. \<not> invokes r j" if r: "owner_instr r i \<or> invokes r i" for r
  proof -
    have shc: "shaped (i # rest)" using sh t c by (metis nth_mem)
    have "\<forall>g \<in> set ?O. shaped (code g)" using sh by (auto dest: in_set_takeD in_set_dropD)
    then have others: "tally (invokes r) ?R \<le> tally (owner_instr r) ?R" by (rule pool_counts)
    have "own (pool s) r = (if owner_instr r i then 1 else 0) + tally (owner_instr r) rest + tally (owner_instr r) ?R"
      by (simp add: P own_def size_tally)
    then have "tally (invokes r) rest + tally (invokes r) ?R = 0"
      using others r own [rule_format, of r] shaped_count [OF shc, of r] shaped_count_owner [OF shc, of r]
      by (cases "owner_instr r i") (auto split: if_splits)
    then show ?thesis by (auto simp: tally_def filter_empty_conv)
  qed
  show thesis by (rule that [OF P ei s' P']) (use alone in blast)
qed

section \<open>The invariant\<close>

definition pending_ok :: "nat \<Rightarrow> 'u instr multiset \<Rightarrow> 'u Envelope list \<Rightarrow> bool" where
  "pending_ok r P rest \<longleftrightarrow> (\<forall>es. IInvoke r es \<in># P \<longrightarrow> es = rest) \<and> (rest = [] \<or> IInvoke r rest \<in># P)"

definition fifo_ok1 :: "'u Envelope list \<Rightarrow> 'u Envelope list \<Rightarrow> 'u Envelope list \<Rightarrow> 'u Envelope list \<Rightarrow> bool" where
  "fifo_ok1 got all q rest \<longleftrightarrow> subseq (got @ rest @ q) all \<and> prefix (upto_pill got) all \<and>
     ((\<forall>e \<in> set got. \<not> is_pill (Msg e)) \<longrightarrow> all = got @ rest @ q)"

definition fifo_ok :: "'u engine \<Rightarrow> 'u instr multiset \<Rightarrow> bool" where
  "fifo_ok s P \<longleftrightarrow>
     (\<forall>r < length (procs s). \<exists>rest. pending_ok r P rest \<and>
        fifo_ok1 (taken s r) (sent s r) (rb (inbox (procs s ! r))) rest) \<and>
     (\<forall>r \<ge> length (procs s). sent s r = [] \<and> taken s r = [])"

lemma fifo_push: "fifo_ok1 got all q rest \<Longrightarrow> fifo_ok1 got (all @ [e]) (q @ [e]) rest"
  by (auto simp: fifo_ok1_def subseq_append' simp flip: append_assoc)

lemma fifo_pop: "fifo_ok1 got all (b @ q) [] \<Longrightarrow> fifo_ok1 got all q b"
  by (simp add: fifo_ok1_def)

lemma fifo_take:
  assumes "fifo_ok1 got all q (e # es)"
  shows "fifo_ok1 (got @ [e]) all q (if is_pill (Msg e) then [] else es)"
proof -
  have "subseq ((got @ [e]) @ q) (got @ (e # es) @ q)"
    using list_emb_append_mono [of "(=)" "got @ [e]" "got @ [e]" q "es @ q"] by (simp add: list_emb_append2)
  then have "subseq ((got @ [e]) @ q) all" using assms by (meson fifo_ok1_def subseq_order.order_trans)
  moreover have "prefix (upto_pill (got @ [e])) all"
    using assms by (auto simp: fifo_ok1_def upto_pill_append)
  ultimately show ?thesis using assms by (auto simp: fifo_ok1_def)
qed

lemma pending_frame:
  assumes "pending_ok r (add_mset i P) rest" "\<not> invokes r i" "\<forall>j \<in># Q. \<not> invokes r j"
  shows "pending_ok r (P + Q) rest"
proof -
  have "IInvoke r es \<in># P + Q \<longleftrightarrow> IInvoke r es \<in># add_mset i P" for es
    using assms(2,3) by (metis insert_noteq_member invokes.simps(1) union_iff add_mset_remove_trivial in_diffD insert_iff set_mset_add_mset_insert)
  then show ?thesis using assms(1) unfolding pending_ok_def by presburger
qed

lemma pending_none: "\<forall>j \<in># P. \<not> invokes r j \<Longrightarrow> pending_ok r P []"
  unfolding pending_ok_def by (metis invokes.simps(1))

lemma pending_empty: "pending_ok r P rest \<Longrightarrow> \<forall>j \<in># P. \<not> invokes r j \<Longrightarrow> rest = []"
  unfolding pending_ok_def by (metis invokes.simps(1))

lemma pending_unique: "pending_ok r P rest \<Longrightarrow> IInvoke r es \<in># P \<Longrightarrow> rest = es"
  unfolding pending_ok_def by blast

lemma pending_one: "\<forall>j \<in># P. \<not> invokes r j \<Longrightarrow> pending_ok r (add_mset (IInvoke r es) P) es"
  unfolding pending_ok_def by (auto dest: bspec [where x = "IInvoke r _"])

lemma turn_invokes: "j \<in> set (turn_code r pc) \<Longrightarrow> invokes q j \<longleftrightarrow> q = r \<and> (\<exists>b. pc = RunInvoke b \<and> j = IInvoke r b)"
  by (auto simp: turn_code_def split: processor_pc.splits)

lemma Invoke_code_invokes:
  "j \<in> set (Invoke_code r es) \<Longrightarrow> invokes q j \<longleftrightarrow> q = r \<and> es \<noteq> [] \<and> \<not> is_pill (Msg (List.hd es)) \<and> j = IInvoke r (List.tl es)"
  by (cases "(r, es)" rule: Invoke_code.cases) (auto split: msg.splits)

text \<open>Each instruction that concerns the messages, for its own process.\<close>

lemma fifo_Processor:
  assumes f: "fifo_ok1 got all (rb ib) rest" and p: "pending_ok r (add_mset (IProcessor r pc) P) rest"
    and nxt: "process_next list_popn (seen_len exact) ib pc = Return (ib', pc')" "0 < sint (throughput ib)"
    and alone: "owner pc \<Longrightarrow> \<forall>j \<in># P. \<not> invokes r j"
  shows "\<exists>rest. pending_ok r (P + mset (turn_code r pc')) rest \<and> fifo_ok1 got all (rb ib') rest"
proof (cases "\<exists>b. pc' = RunInvoke b")
  case True
  then obtain b where b: "pc' = RunInvoke b" "rb ib = b @ rb ib'" using process_next_list [OF nxt] by auto
  have "owner pc" using nxt(1) b by (cases pc) (auto simp: cas_status_def split: if_splits)
  then have P: "\<forall>j \<in># P. \<not> invokes r j" using alone by blast
  then have "rest = []" using p by (intro pending_empty [of r "add_mset (IProcessor r pc) P"]) auto
  then have "fifo_ok1 got all (rb ib') b" using f b by (simp add: fifo_pop)
  moreover have "pending_ok r (P + mset (turn_code r pc')) b"
    using pending_one [of "add_mset (IProcessor r pc') P" r b] P b
    by (simp add: turn_code_def)
  ultimately show ?thesis by blast
next
  case False
  then have "rb ib' = rb ib" using process_next_list [OF nxt] by auto
  moreover have "pending_ok r (P + mset (turn_code r pc')) rest"
    using p False by (intro pending_frame [of r "IProcessor r pc"]) (auto dest: turn_invokes)
  ultimately show ?thesis using f by auto
qed

lemma fifo_Invoke:
  assumes f: "fifo_ok1 got all q rest" and p: "pending_ok r (add_mset (IInvoke r es) P) rest"
    and alone: "\<forall>j \<in># P. \<not> invokes r j"
  shows "\<exists>rest. pending_ok r (P + mset (Invoke_code r es)) rest \<and> fifo_ok1 (got @ take 1 es) all q rest"
proof -
  have rest: "rest = es" using p pending_unique [of r "add_mset (IInvoke r es) P" rest es] by simp
  show ?thesis
  proof (cases es)
    case Nil
    then show ?thesis using f rest pending_none [OF alone] by auto
  next
    case (Cons e es')
    let ?rest = "if is_pill (Msg e) then [] else es'"
    have "pending_ok r (P + mset (Invoke_code r es)) ?rest"
      using alone Cons pending_none [of "add_mset (IHandlePoison r c) P" r for c]
        pending_one [of "add_mset (IInvokeMsg r e) P" r es']
      by (cases "Msg e") (auto simp: add_mset_commute)
    then show ?thesis using fifo_take [of got all q e es'] f rest Cons by auto
  qed
qed

definition fifo_at :: "'u engine \<Rightarrow> 'u instr multiset \<Rightarrow> nat \<Rightarrow> bool" where
  "fifo_at s P r \<longleftrightarrow> (\<exists>rest. pending_ok r P rest \<and>
     fifo_ok1 (taken s r) (sent s r) (rb (inbox (procs s ! r))) rest)"

lemma fifo_ok_alt:
  "fifo_ok s P \<longleftrightarrow> (\<forall>r < length (procs s). fifo_at s P r) \<and> (\<forall>r \<ge> length (procs s). sent s r = [] \<and> taken s r = [])"
  by (simp add: fifo_ok_def fifo_at_def)

lemma fifo_at_frame:
  assumes "fifo_at s (add_mset i P) r" "\<not> invokes r i" "\<forall>j \<in># Q. \<not> invokes r j"
    and "taken s' r = taken s r" "sent s' r = sent s r" "rb (inbox (procs s' ! r)) = rb (inbox (procs s ! r))"
  shows "fifo_at s' (P + Q) r"
  using assms pending_frame unfolding fifo_at_def by metis

lemma fifo_instr_Processor:
  assumes inv: "fifo_ok s (add_mset (IProcessor r pc) P)" and mail: "mail_ok s (add_mset (IProcessor r pc) P)"
    and e: "exec_instr (IProcessor r pc) U ch v s = Some (s', js, x, gos)"
    and alone: "owner pc \<Longrightarrow> \<forall>j \<in># P. \<not> invokes r j"
  shows "fifo_ok s' (P + mset js + mset (concat gos))"
proof -
  obtain ib pc' where nxt: "process_next list_popn (seen_len (first_branch ch)) (inbox (procs s ! r)) pc = Return (ib, pc')"
    and s': "s' = upd_proc r (\<lambda>p. p\<lparr>inbox := ib\<rparr>) s" and js: "js = turn_code r pc'" "gos = []"
    using e by (rule exec_instr_Processor)
  have r: "r < length (procs s)" using mail by (simp add: mail_ok_def refs_ok_def)
  then have "throughput (inbox (procs s ! r)) = defaultThroughput"
    using mail by (simp add: mail_ok_def mail_ok1_def sched_ok_def)
  then have thr: "0 < sint (throughput (inbox (procs s ! r)))" by (simp add: defaultThroughput_def)
  have same: "sent s' = sent s" "taken s' = taken s" "length (procs s') = length (procs s)"
    by (simp_all add: s' sent_def taken_def fun_eq_iff)
  have "fifo_at s' (P + mset js) q" if q: "q < length (procs s)" for q
  proof (cases "q = r")
    case True
    obtain rest where "pending_ok r (add_mset (IProcessor r pc) P) rest"
      "fifo_ok1 (taken s r) (sent s r) (rb (inbox (procs s ! r))) rest"
      using inv r by (auto simp: fifo_ok_def)
    from fifo_Processor [OF this(2,1) nxt thr alone] show ?thesis
      using True r same js by (auto simp: fifo_at_def s')
  next
    case False
    then show ?thesis
      using inv q same js by (intro fifo_at_frame [of s "IProcessor r pc" P q]) (auto simp: fifo_ok_alt s' dest: turn_invokes)
  qed
  then show ?thesis using inv same js by (simp add: fifo_ok_alt)
qed

lemma fifo_instr_Invoke:
  assumes inv: "fifo_ok s (add_mset (IInvoke r es) P)" and r: "r < length (procs s)"
    and e: "exec_instr (IInvoke r es) U ch v s = Some (s', js, x, gos)"
    and alone: "\<forall>j \<in># P. \<not> invokes r j"
  shows "fifo_ok s' (P + mset js + mset (concat gos))"
proof -
  have s': "s' = s\<lparr>gtaken := gtaken s @ map (Pair r) (take 1 es)\<rparr>" and js: "js = Invoke_code r es" "gos = []"
    using e by (auto simp: eff_defs)
  have same: "sent s' = sent s" "procs s' = procs s"
    "taken s' q = (if q = r then taken s r @ take 1 es else taken s q)" for q
    by (simp_all add: s' sent_def taken_def fun_eq_iff)
  have "fifo_at s' (P + mset js) q" if q: "q < length (procs s)" for q
  proof (cases "q = r")
    case True
    obtain rest where "pending_ok r (add_mset (IInvoke r es) P) rest"
      "fifo_ok1 (taken s r) (sent s r) (rb (inbox (procs s ! r))) rest"
      using inv r by (auto simp: fifo_ok_def)
    from fifo_Invoke [OF this(2,1) alone] show ?thesis using True same js by (auto simp: fifo_at_def)
  next
    case False
    then show ?thesis
      using inv q same js by (intro fifo_at_frame [of s "IInvoke r es" P q]) (auto simp: fifo_ok_alt dest: Invoke_code_invokes)
  qed
  then show ?thesis using inv same js r by (simp add: fifo_ok_alt)
qed

lemma fifo_instr_Deliver:
  assumes inv: "fifo_ok s (add_mset (IDeliver r ev) P)" and r: "r < length (procs s)"
    and e: "exec_instr (IDeliver r ev) U ch v s = Some (s', js, x, gos)"
  shows "fifo_ok s' (P + mset js + mset (concat gos))"
proof -
  have s': "s' = upd_proc r (\<lambda>p. p\<lparr>inbox := (inbox p)\<lparr>rb := rb (inbox p) @ [ev]\<rparr>\<rparr>) (s\<lparr>gsent := gsent s @ [(r, ev)]\<rparr>)"
    and js: "js = [ISchedule r]" "gos = []"
    using e r by (auto simp: eff_defs Inbox_push_def list_push_def upd_proc_def)
  have same: "taken s' = taken s" "length (procs s') = length (procs s)"
    "sent s' q = (if q = r then sent s r @ [ev] else sent s q)" for q
    by (simp_all add: s' sent_def taken_def fun_eq_iff)
  have "fifo_at s' (P + mset js) q" if q: "q < length (procs s)" for q
  proof (cases "q = r")
    case True
    obtain rest where "pending_ok r (add_mset (IDeliver r ev) P) rest"
      "fifo_ok1 (taken s r) (sent s r) (rb (inbox (procs s ! r))) rest"
      using inv r by (auto simp: fifo_ok_def)
    then have "pending_ok r (P + mset js) rest" "fifo_ok1 (taken s r) (sent s r @ [ev]) (rb (inbox (procs s ! r)) @ [ev]) rest"
      using js pending_frame [of r "IDeliver r ev" P rest "mset js"] fifo_push by auto
    then show ?thesis using True r same by (auto simp: fifo_at_def s')
  next
    case False
    then show ?thesis
      using inv q same js by (intro fifo_at_frame [of s "IDeliver r ev" P q]) (auto simp: fifo_ok_alt s')
  qed
  then show ?thesis using inv same js r by (simp add: fifo_ok_alt)
qed

lemma invokes_refs: "invokes r i \<Longrightarrow> r \<in> instr_refs i"
  by (cases i) auto

lemma owner_refs: "owner_instr r i \<Longrightarrow> r \<in> instr_refs i"
  by (cases i) auto

lemma fifo_instr_other:
  assumes inv: "fifo_ok s (add_mset i P)" and refs: "refs_ok s (add_mset i P)"
    and e: "exec_instr i U ch v s = Some (s', js, x, gos)"
    and i: "\<forall>r pc. i \<noteq> IProcessor r pc" "\<forall>r ev. i \<noteq> IDeliver r ev" "\<forall>r es. i \<noteq> IInvoke r es"
  shows "fifo_ok s' (P + mset js + mset (concat gos))"
proof -
  let ?Q = "mset js + mset (concat gos)"
  note log = exec_instr_mail_log [OF e i]
  have same: "sent s' = sent s" "taken s' = taken s" using log by (simp_all add: sent_def taken_def fun_eq_iff)
  have Q: "\<forall>j \<in># ?Q. \<not> invokes r j" for r using log by auto
  have len: "length (procs s) \<le> length (procs s')" using exec_instr_refs [OF refs e] by simp
  have "fifo_at s' (P + ?Q) r" if "r < length (procs s)" for r
    using inv that same log Q i by (intro fifo_at_frame [of s i P r]) (auto simp: fifo_ok_alt, cases i, auto)
  moreover have "fifo_at s' (P + ?Q) r" if r: "length (procs s) \<le> r" "r < length (procs s')" for r
  proof -
    have "\<forall>j \<in># P. \<not> invokes r j" using refs r(1) invokes_refs by (fastforce simp: refs_ok_def)
    then have "pending_ok r (P + ?Q) []" using Q by (intro pending_none) auto
    moreover have "rb (inbox (procs s' ! r)) = []"
      using exec_instr_procs [OF e] r by (auto simp: less_Suc_eq)
    ultimately show ?thesis using inv same r by (auto simp: fifo_at_def fifo_ok_alt fifo_ok1_def)
  qed
  ultimately show ?thesis using inv same len by (simp add: fifo_ok_alt add.assoc) (meson le_trans not_le)
qed

lemma reach_one_owner: "eng_reach U s \<Longrightarrow> own (pool s) r \<le> 1"
proof (cases "r < length (procs s)")
  case True
  assume "eng_reach U s"
  then show ?thesis using mail.reachable True by (fastforce simp: mail_ok_def mail_ok1_def sched_ok_def)
next
  case False
  assume "eng_reach U s"
  then have "\<forall>i \<in># pool s. \<not> owner_instr r i"
    using refs.reachable [of U s] False owner_refs by (fastforce simp: refs_ok_def)
  then have "filter_mset (owner_instr r) (pool s) = {#}" by simp
  then show ?thesis unfolding own_def by (simp only: size_empty)
qed

lemma fifo_run:
  assumes reach: "eng_reach U s" and inv: "fifo_ok s (pool s)" and step: "exec U ch t s = Some s'"
  shows "fifo_ok s' (pool s')"
proof -
  have sh: "\<forall>g \<in> set (threads s). shaped (code g)" using shape.reachable [OF reach] by (simp add: shape.all_ok_def)
  obtain i v s1 js x gos P ts where P: "pool s = add_mset i P" and e: "exec_instr i U ch v s = Some (s1, js, x, gos)"
    and s': "s' = s1\<lparr>threads := ts\<rparr>" "pool s' = P + mset js + mset (concat gos)"
    and alone: "\<forall>r. owner_instr r i \<or> invokes r i \<longrightarrow> (\<forall>j \<in># P. \<not> invokes r j)"
    by (rule exec_alone [OF step sh allI [OF reach_one_owner [OF reach]]])
  have mail: "mail_ok s (add_mset i P)" and refs: "refs_ok s (add_mset i P)"
    using mail.reachable [OF reach] P by (simp_all add: mail_ok_def)
  consider r pc where "i = IProcessor r pc" | r es where "i = IInvoke r es" | r ev where "i = IDeliver r ev"
    | "\<forall>r pc. i \<noteq> IProcessor r pc" "\<forall>r ev. i \<noteq> IDeliver r ev" "\<forall>r es. i \<noteq> IInvoke r es" by blast
  then have "fifo_ok s1 (P + mset js + mset (concat gos))"
  proof cases
    case 1
    then show ?thesis using inv P mail e alone by (auto intro!: fifo_instr_Processor)
  next
    case 2
    then show ?thesis using inv P refs e alone by (auto simp: refs_ok_def intro!: fifo_instr_Invoke)
  next
    case 3
    then show ?thesis using inv P refs e by (auto simp: refs_ok_def intro!: fifo_instr_Deliver)
  next
    case 4
    then show ?thesis using inv P refs e by (auto intro!: fifo_instr_other)
  qed
  then show ?thesis using s' by (simp add: fifo_ok_def sent_def taken_def)
qed

lemma fifo_reach:
  assumes "eng_reach U s"
  shows "fifo_ok s (pool s)"
proof -
  obtain cfg mem n m where "(eng_step U)\<^sup>*\<^sup>* (eng_init cfg mem n m) s" using assms by (auto simp: eng_reach_def)
  then show ?thesis
  proof (induction rule: rtranclp_induct)
    case base
    then show ?case by (simp add: fifo_ok_def eng_init_def sent_def taken_def)
  next
    case (step t u)
    then have "eng_reach U t" by (auto simp: eng_reach_def)
    from step(2) show ?case
    proof cases
      case (run ch k)
      then show ?thesis using fifo_run \<open>eng_reach U t\<close> step(3) by blast
    next
      case (go p)
      have "fifo_ok t (add_mset (IProg None p) (pool t))"
        using step(3) by (auto simp: fifo_ok_def pending_ok_def)
      then show ?thesis using go by (simp add: fifo_ok_def sent_def taken_def pool_def)
    next
      case (tick d)
      then show ?thesis using step(3) by (simp add: fifo_ok_def sent_def taken_def pool_def)
    qed
  qed
qed

section \<open>Properties\<close>

definition fifo_run_x :: "nat sched list" where
  "fifo_run_x = [Go (spawn_x 0 3), Run 1 200 [], Go (pseq (send_x (User 1)) (send_x (User 2))), Run 3 100 [],
     Go (call (E_Poison (Some pid_x))), Run 5 100 [], Go (send_x (User 3)), Run 6 100 [], Run 4 100 []]"

lemma fifo_run_result:
  "map Msg (sent (boot fifo_run_x) 1) = [User 1, User 2, poisonPill (Some 0) True, User 3] \<and>
   map Msg (taken (boot fifo_run_x) 1) = [User 1, User 2, poisonPill (Some 0) True] \<and>
   length (procs (boot fifo_run_x)) = 2"
  by code_simp



end
