(* ===== verification/Engine_Tree.thy ===== *)
theory Engine_Tree
  imports Engine_Life Engine_Run
begin

text \<open>
  The children of an actor (\<open>Context.SpawnChild\<close>, \<open>process.addChild\<close>, \<open>process.removeChild\<close>). The ID of a
  recorded child is longer than its parent's, whatever IDs the callers choose and also where
  \<open>spawnProc\<close> returned an incumbent, so the relation that a cascading shutdown walks has no cycle
  and no actor waits for itself.

  The PID that is recorded is the result of \<open>spawnProc\<close>, in the register of the goroutine, so this is an
  invariant of stacks with their register: an \<open>IAddChild\<close> is on top, or lies directly under
  the instruction that returns that PID.
\<close>

definition longer :: "'u engine \<Rightarrow> nat \<Rightarrow> PID \<Rightarrow> bool" where
  "longer s q pid \<longleftrightarrow> q < length (procs s) \<and> length (ID (ppid (procs s ! q))) < length (ID pid)"

definition longer_ret :: "'u engine \<Rightarrow> nat \<Rightarrow> 'u ret \<Rightarrow> bool" where
  "longer_ret s q v \<longleftrightarrow> (\<forall>pid. ret_pid v = Some pid \<longrightarrow> longer s q pid)"

text \<open>What may lie directly above an instruction, and what an instruction records.\<close>

fun spawns_under :: "'u engine \<Rightarrow> nat \<Rightarrow> 'u instr \<Rightarrow> bool" where
  "spawns_under s q (ISpawnProc r) = (r < length (procs s) \<and> longer s q (ppid (procs s ! r)))"
| "spawns_under s q (IReturn v) = longer_ret s q v"
| "spawns_under s q _ = False"

fun follows :: "'u engine \<Rightarrow> 'u instr \<Rightarrow> 'u instr \<Rightarrow> bool" where
  "follows s i (IAddChild q) = spawns_under s q i"
| "follows s i _ = True"

fun records :: "'u engine \<Rightarrow> 'u instr \<Rightarrow> bool" where
  "records s (IAddChildTo q pid) = longer s q pid"
| "records s _ = True"

fun kin :: "'u engine \<Rightarrow> 'u instr list \<Rightarrow> bool" where
  "kin s [] = True"
| "kin s [i] = records s i"
| "kin s (i # j # c) = (records s i \<and> follows s i j \<and> kin s (j # c))"

fun kin_top :: "'u engine \<Rightarrow> 'u instr list \<Rightarrow> 'u ret \<Rightarrow> bool" where
  "kin_top s (IAddChild q # c) v = longer_ret s q v"
| "kin_top s _ v = True"

definition kin_stack :: "'u engine \<Rightarrow> 'u instr list \<Rightarrow> 'u ret \<Rightarrow> bool" where
  "kin_stack s c v \<longleftrightarrow> kin s c \<and> kin_top s c v \<and> (\<forall>i \<in> set c. instr_refs i \<subseteq> {..<length (procs s)})"

definition tree_ok :: "'u engine \<Rightarrow> bool" where
  "tree_ok s \<longleftrightarrow> registry_ok s \<and> es_wf (events s) \<and>
     (\<forall>r < length (procs s). \<forall>c \<in> set (children (procs s ! r)). longer s r (snd c))"

text \<open>Identities do not change, and only \<open>IAddChildTo\<close> adds a child.\<close>

definition same_ids :: "'u engine \<Rightarrow> 'u engine \<Rightarrow> bool" where
  "same_ids s s' \<longleftrightarrow> length (procs s) \<le> length (procs s') \<and>
     (\<forall>r < length (procs s). ppid (procs s' ! r) = ppid (procs s ! r))"

definition no_new_child :: "'u engine \<Rightarrow> 'u engine \<Rightarrow> bool" where
  "no_new_child s s' \<longleftrightarrow> (\<forall>r < length (procs s'). set (children (procs s' ! r)) \<subseteq>
     (if r < length (procs s) then set (children (procs s ! r)) else {}))"

lemma newProcess_children [simp]: "children (newProcess o') = []"
  by (simp add: newProcess_def)

lemma exec_instr_children:
  assumes refs: "instr_refs i \<subseteq> {..<length (procs s)}" and e: "exec_instr i U ch v s = Some (s', js, x, gos)"
    and "\<forall>q pid. i \<noteq> IAddChildTo q pid"
  shows "same_ids s s' \<and> no_new_child s s'"
proof (cases i)
  case (IApi a)
  with e exec_api_waiters [of a ch s s' js x gos] show ?thesis by (simp add: same_ids_def no_new_child_def)
next
  case (ITryRestart r y trace)
  with e refs show ?thesis
    by (auto simp: eff_defs same_ids_def no_new_child_def tryRestart_def Let_def split: if_splits prod.splits)
next
  case (IShutdown r)
  with e refs show ?thesis
    by (auto simp: eff_defs same_ids_def no_new_child_def Shutdown_def split: if_splits prod.splits)
next
  case (IBroadcastScan entries live m)
  with e show ?thesis by (auto simp: eff_defs Let_def same_ids_def no_new_child_def split: list.splits if_splits)
next
  case (ISpawn p kind opts)
  with e Spawn_shape [of p kind opts s] show ?thesis
    by (auto simp: eff_defs same_ids_def no_new_child_def nth_append split: if_splits)
next
  case (ISpawnChild c p kind opts)
  with e SpawnChild_shape [of "ppid (procs s ! c)" p kind opts s] show ?thesis
    by (auto simp: eff_defs same_ids_def no_new_child_def nth_append split: if_splits)
next
  case (IRemoveChild q pid)
  with e refs show ?thesis
    by (auto simp: eff_defs same_ids_def no_new_child_def removeChild_def set_gm_del split: if_splits)
qed (use e refs assms(3) in \<open>auto simp: eff_defs Let_def new_ctx_def same_ids_def no_new_child_def
      spawnProc_def withEnvelope_def addCancel_def processor_turn_def
      split: if_splits option.splits prod.splits prog.splits list.splits Processer.splits ret.splits outcome.splits\<close>)

text \<open>Only \<open>ISpawnChild\<close> and \<open>IAddChild\<close> lead to the recording of a child.\<close>

fun plain :: "'u instr \<Rightarrow> bool" where
  "plain (IAddChild c) = False"
| "plain (IAddChildTo q pid) = False"
| "plain _ = True"

lemma exec_api_plain_kin:
  "exec_api a ch s = Some (s', js, x, gos) \<Longrightarrow> \<forall>j \<in> set js \<union> set (concat gos). plain j"
  by (cases a) (auto simp: eff_defs Let_def new_ctx_def code_defs split: if_splits option.splits)

lemma exec_instr_plain_kin:
  assumes e: "exec_instr i U ch v s = Some (s', js, x, gos)" and "\<forall>c p k o'. i \<noteq> ISpawnChild c p k o'" "\<forall>c. i \<noteq> IAddChild c"
  shows "\<forall>j \<in> set js \<union> set (concat gos). plain j"
proof (cases i)
  case (IApi a)
  with e exec_api_plain_kin [of a ch s s' js x gos] show ?thesis by simp
next
  case (IInvoke r batch)
  with e show ?thesis
    by (cases "(r, batch)" rule: Invoke_code.cases) (auto simp: eff_defs split: msg.splits)
qed (use assms in \<open>auto simp: eff_defs Let_def new_ctx_def log_line_def code_defs Shutdown_def
      tryRestart_def spawnProc_def removeFromParent_def processor_turn_def
      split: if_splits option.splits prod.splits prog.splits list.splits Processer.splits ret.splits outcome.splits
        processor_pc.splits\<close>)

lemma longer_mono: "same_ids s s' \<Longrightarrow> longer s q pid \<Longrightarrow> longer s' q pid"
  by (auto simp: same_ids_def longer_def)

lemma longer_ret_mono: "same_ids s s' \<Longrightarrow> longer_ret s q v \<Longrightarrow> longer_ret s' q v"
  by (auto simp: longer_ret_def intro: longer_mono)

lemma follows_mono: "same_ids s s' \<Longrightarrow> follows s i j \<Longrightarrow> follows s' i j"
proof -
  assume ids: "same_ids s s'" and f: "follows s i j"
  have "spawns_under s' q i" if "spawns_under s q i" for q
    using that ids longer_ret_mono [OF ids] longer_mono [OF ids, of q]
    by (cases i) (auto simp: same_ids_def)
  then show ?thesis using f by (cases j) auto
qed

lemma records_mono: "same_ids s s' \<Longrightarrow> records s i \<Longrightarrow> records s' i"
  by (cases i) (auto intro: longer_mono)

lemma kin_mono: "same_ids s s' \<Longrightarrow> kin s c \<Longrightarrow> kin s' c"
  by (induction s c rule: kin.induct) (auto intro: records_mono follows_mono)

lemma kin_top_mono: "same_ids s s' \<Longrightarrow> kin_top s c v \<Longrightarrow> kin_top s' c v"
  by (induction s c v rule: kin_top.induct) (auto intro: longer_ret_mono)

lemma kin_cong:
  assumes "procs s' = procs s"
  shows "kin s' c = kin s c" "kin_top s' c v = kin_top s c v" "longer s' q pid = longer s q pid"
proof -
  have ids: "same_ids s s'" "same_ids s' s" using assms by (simp_all add: same_ids_def)
  show "kin s' c = kin s c" using kin_mono ids by blast
  show "kin_top s' c v = kin_top s c v" using kin_top_mono ids by blast
  show "longer s' q pid = longer s q pid" using longer_mono ids by blast
qed

lemma kin_tail: "kin s (i # c) \<Longrightarrow> kin s c"
  by (cases c) auto

fun no_add :: "'u instr list \<Rightarrow> bool" where
  "no_add (IAddChild q # c) = False"
| "no_add _ = True"

lemma kin_top_return: "kin s (IReturn y # c) \<Longrightarrow> kin_top s c y"
  by (cases "(s, c, y)" rule: kin_top.cases) simp_all

lemma spawns_underE:
  assumes "spawns_under s q i"
  obtains r where "i = ISpawnProc r" | v where "i = IReturn v"
  using assms by (cases i) auto

lemma kin_no_add: "kin s (i # c) \<Longrightarrow> (\<And>q. \<not> spawns_under s q i) \<Longrightarrow> no_add c"
  by (cases c rule: no_add.cases) auto

lemma kin_plain_Cons: "plain i \<Longrightarrow> kin s c \<Longrightarrow> no_add c \<Longrightarrow> kin s (i # c)"
proof (cases c)
  case (Cons j d)
  assume "plain i" "kin s c" "no_add c"
  then show ?thesis using Cons by (cases i; cases j) auto
qed (cases i; simp)

lemma plain_no_add: "plain i \<Longrightarrow> no_add (i # c)"
  by (cases i) auto

lemma kin_plain_append: "\<forall>j \<in> set js. plain j \<Longrightarrow> kin s c \<Longrightarrow> no_add c \<Longrightarrow> kin s (js @ c) \<and> no_add (js @ c)"
  by (induction js) (auto intro: kin_plain_Cons plain_no_add)

lemma no_add_top: "no_add c \<Longrightarrow> kin_top s c v"
  by (cases c rule: no_add.cases) auto

lemma plain_stack: "\<forall>j \<in> set c. plain j \<Longrightarrow> kin s c \<and> kin_top s c v"
  using kin_plain_append [of c s "[]"] no_add_top [of c] by simp

text \<open>Each instruction that is not plain sailing, with the stack under it.\<close>

lemma SpawnChild_longer:
  assumes "c < length (procs s)" "SpawnChild (ppid (procs s ! c)) p kind opts s = (r, s')"
  shows "r < length (procs s') \<and> longer s' c (ppid (procs s' ! r))"
  using assms
  by (auto simp: SpawnChild_def Let_def longer_def nth_append newProcess_def NewPID_def childID_def PID_Child_def
      split: prod.splits if_splits)

lemma resolve_same_ID:
  assumes "registry_ok s" "resolve s (Some pid) = Some pr"
  shows "ID (Processer_PID pr) = ID pid \<and> (\<forall>q p. pr = Process q p \<longrightarrow> q < length (procs s) \<and> ppid (procs s ! q) = p)"
  using assms by (force simp: registry_ok_def reg_wf_def resolve_def reg_get_def)

lemma addChildOf_longer:
  assumes "registry_ok s" "longer_ret s c v" "j \<in> set (addChildOf c v s)"
  shows "records s j"
proof -
  obtain pid q p where v: "ret_pid v = Some pid" "resolve s (Some (ppid (procs s ! c))) = Some (Process q p)" "j = IAddChildTo q pid"
    using assms(3)
    by (cases "ret_pid v"; cases "resolve s (Some (ppid (procs s ! c)))") (auto simp: addChildOf_def split: Processer.splits)
  then show ?thesis
    using resolve_same_ID [OF assms(1) v(2)] assms(2) by (auto simp: longer_ret_def longer_def)
qed

lemma addChildOf_shape: "addChildOf c v s = [] \<or> (\<exists>q pid. addChildOf c v s = [IAddChildTo q pid])"
  by (auto simp: addChildOf_def split: option.splits Processer.splits)

lemma spawnProc_kin:
  assumes reg: "registry_ok s" and k: "kin s (ISpawnProc r # rest)"
    and e: "spawnProc r s = Some (s', js, x, gos)" and ids: "same_ids s s'"
  shows "kin s' (js @ rest) \<and> kin_top s' (js @ rest) (case x of None \<Rightarrow> v | Some y \<Rightarrow> y) \<and> gos = []"
proof (cases "reg_getByID (registry s) (ID (ppid (procs s ! r)))")
  case (Some pr)
  then have res: "js = []" "x = Some (RPid (Some (Processer_PID pr)))" "s' = s" "gos = []"
    using e by (auto simp: spawnProc_def eff_defs)
  have "ID (Processer_PID pr) = ID (ppid (procs s ! r))"
    using resolve_same_ID [OF reg, of "ppid (procs s ! r)" pr] Some by (simp add: resolve_def reg_get_def)
  then have "kin_top s rest (RPid (Some (Processer_PID pr)))"
    using k by (cases rest rule: no_add.cases) (auto simp: longer_ret_def longer_def)
  then show ?thesis using kin_tail [OF k] res by simp
next
  case None
  let ?pid = "ppid (procs s ! r)"
  have res: "js = Start_code r ?pid @ [IReturn (RPid (Some ?pid))]" "x = None" "gos = []"
    using e None by (auto simp: spawnProc_def eff_defs)
  have "kin s (IReturn (RPid (Some ?pid)) # rest)"
    using k by (cases rest rule: no_add.cases) (auto simp: longer_ret_def)
  then have "kin s' (IReturn (RPid (Some ?pid)) # rest)" by (rule kin_mono [OF ids])
  then have "kin s' (Start_code r ?pid @ IReturn (RPid (Some ?pid)) # rest) \<and>
      no_add (Start_code r ?pid @ IReturn (RPid (Some ?pid)) # rest)"
    by (intro kin_plain_append) (auto simp: Start_code_def)
  then show ?thesis using res by (simp add: no_add_top)
qed

lemma tree_state:
  assumes K: "tree_ok s" and refs: "refs_ok s {#i#}" and e: "exec_instr i U ch v s = Some (s', js, x, gos)"
    and rec: "records s i"
  shows "tree_ok s' \<and> same_ids s s'"
proof -
  have r: "registry_ok s' \<and> es_wf (events s')" and i: "instr_refs i \<subseteq> {..<length (procs s)}"
    using exec_instr_refs [OF refs e] refs by (auto simp: refs_ok_def)
  show ?thesis
  proof (cases "\<exists>q pid. i = IAddChildTo q pid")
    case True
    then obtain q pid where q: "i = IAddChildTo q pid" by blast
    then have s': "s' = upd_proc q (addChild pid) s" using e by (simp add: eff_defs)
    then have ids: "same_ids s s'" by (auto simp: same_ids_def addChild_def)
    have "longer s n (snd c)" if "n < length (procs s)" "c \<in> set (children (procs s' ! n))" for n c
      using that K rec q set_gm_put [of "ID pid" pid "children (procs s ! q)"]
      by (auto simp: tree_ok_def s' addChild_def split: if_splits)
    then show ?thesis using ids r longer_mono [OF ids] by (auto simp: tree_ok_def s')
  next
    case False
    then have "same_ids s s'" "no_new_child s s'" using exec_instr_children [OF i e] by auto
    then show ?thesis using r K longer_mono [OF \<open>same_ids s s'\<close>]
      by (fastforce simp: tree_ok_def no_new_child_def split: if_splits)
  qed
qed

lemma kin_step:
  assumes K: "tree_ok s" and J: "kin_stack s (i # rest) v" and e: "exec_instr i U ch v s = Some (s', js, x, gos)"
    and ids: "same_ids s s'"
  shows "kin s' (js @ rest) \<and> kin_top s' (js @ rest) (case x of None \<Rightarrow> v | Some y \<Rightarrow> y) \<and>
    (\<forall>g \<in> set gos. kin s' g \<and> kin_top s' g RUnit)"
proof -
  have k: "kin s (i # rest)" and i: "instr_refs i \<subseteq> {..<length (procs s)}" and reg: "registry_ok s"
    using J K by (auto simp: kin_stack_def tree_ok_def)
  have rest: "kin s' rest" using kin_tail [OF k] by (rule kin_mono [OF ids])
  consider c p kind opts where "i = ISpawnChild c p kind opts" | c where "i = IAddChild c" | r where "i = ISpawnProc r"
    | y where "i = IReturn y"
    | "\<forall>c p k o'. i \<noteq> ISpawnChild c p k o'" "\<forall>c. i \<noteq> IAddChild c" "\<forall>r. i \<noteq> ISpawnProc r" "\<forall>y. i \<noteq> IReturn y" by blast
  then show ?thesis
  proof cases
    case 1
    have na: "no_add rest" using k 1 by (auto intro: kin_no_add)
    obtain r s1 where sc: "SpawnChild (ppid (procs s ! c)) p kind opts s = (r, s1)" by fastforce
    then have res: "s' = s1" "js = [ISpawnProc r, IAddChild c]" "gos = []" using e 1 by (auto simp: eff_defs)
    then show ?thesis
      using SpawnChild_longer [OF _ sc] i 1 rest na by (cases rest rule: no_add.cases) auto
  next
    case 2
    have na: "no_add rest" using k 2 by (auto intro: kin_no_add)
    have res: "s' = s" "js = addChildOf c v s" "gos = []" using e 2 by (auto simp: eff_defs)
    have "longer_ret s c v" using J 2 by (simp add: kin_stack_def)
    then have "\<forall>j \<in> set js. records s j" using addChildOf_longer [OF reg] res by blast
    then show ?thesis using addChildOf_shape [of c v s] res rest na no_add_top [OF na]
      by (cases rest rule: no_add.cases) auto
  next
    case 3
    then show ?thesis using spawnProc_kin [OF reg, of r rest s' js x gos v] k e ids by simp
  next
    case 4
    have res: "s' = s" "js = []" "x = Some y" "gos = []" using e 4 by (auto simp: eff_defs)
    have "kin_top s rest y" using k unfolding 4 by (rule kin_top_return)
    then show ?thesis using rest res by simp
  next
    case 5
    have "\<not> spawns_under s q i" for q using 5(3,4) by (auto elim!: spawns_underE)
    then have "no_add rest" using k by (rule kin_no_add [rotated])
    moreover note pl = exec_instr_plain_kin [OF e 5(1,2)]
    ultimately have "kin s' (js @ rest) \<and> no_add (js @ rest)" using rest by (intro kin_plain_append) auto
    moreover have "kin s' g \<and> kin_top s' g RUnit" if "g \<in> set gos" for g using pl that by (intro plain_stack) auto
    ultimately show ?thesis by (auto intro: no_add_top)
  qed
qed

lemma tree_step:
  assumes K: "tree_ok s" and J: "kin_stack s (i # rest) v" and e: "exec_instr i U ch v s = Some (s', js, x, gos)"
  shows "tree_ok s' \<and> same_ids s s' \<and> kin_stack s' (js @ rest) (case x of None \<Rightarrow> v | Some y \<Rightarrow> y) \<and>
    (\<forall>g \<in> set gos. kin_stack s' g RUnit)"
proof -
  have refs: "refs_ok s {#i#}" using K J by (auto simp: tree_ok_def kin_stack_def refs_ok_def)
  have "records s i" using J by (cases rest) (auto simp: kin_stack_def)
  then have st: "tree_ok s' \<and> same_ids s s'" by (rule tree_state [OF K refs e])
  then show ?thesis
    using kin_step [OF K J e] exec_instr_refs [OF refs e] J by (fastforce simp: kin_stack_def)
qed

interpretation tree: engine_goroutine_invariant U tree_ok kin_stack for U
proof unfold_locales
  fix cfg :: "'a Producer option" and mem n m
  show "tree_ok (eng_init cfg mem n m) \<and> kin_stack (eng_init cfg mem n m) (NewEngine_code cfg) RUnit"
    using refs_ok_init [of cfg mem n m]
    by (simp add: tree_ok_def kin_stack_def refs_ok_def NewEngine_code_def eng_init_def)
next
  fix s :: "'a engine" and i rest v ch s' js x gos c y
  assume a: "tree_ok s" "kin_stack s (i # rest) v" "exec_instr i U ch v s = Some (s', js, x, gos)"
  note step = tree_step [OF a]
  show "tree_ok s' \<and> kin_stack s' (js @ rest) (case x of None \<Rightarrow> v | Some y \<Rightarrow> y) \<and>
    (\<forall>g \<in> set gos. kin_stack s' g RUnit)" using step by blast
  have ids: "same_ids s s'" using step by blast
  then have "length (procs s) \<le> length (procs s')" by (simp add: same_ids_def)
  then show "kin_stack s c y \<Longrightarrow> kin_stack s' c y"
    using kin_mono [OF ids, of c] kin_top_mono [OF ids, of c y] unfolding kin_stack_def by fastforce
next
  fix s :: "'a engine" and d ts c y
  have "procs (s\<lparr>clock := d\<rparr>) = procs s" "procs (s\<lparr>threads := ts\<rparr>) = procs s" by simp_all
  note [simp] = this [THEN kin_cong(1)] this [THEN kin_cong(2)] this [THEN kin_cong(3)]
  show "tree_ok (s\<lparr>clock := d\<rparr>) \<longleftrightarrow> tree_ok s" "tree_ok (s\<lparr>threads := ts\<rparr>) \<longleftrightarrow> tree_ok s"
    "kin_stack (s\<lparr>clock := d\<rparr>) c y \<longleftrightarrow> kin_stack s c y" "kin_stack (s\<lparr>threads := ts\<rparr>) c y \<longleftrightarrow> kin_stack s c y"
    by (simp_all add: tree_ok_def kin_stack_def registry_ok_def)
qed (simp add: kin_stack_def)

section \<open>Properties\<close>

text \<open>\<open>child_of s q r\<close>: process \<open>q\<close> is registered under the ID of a child recorded by process \<open>r\<close>.\<close>

definition child_of :: "'u engine \<Rightarrow> nat \<Rightarrow> nat \<Rightarrow> bool" where
  "child_of s q r \<longleftrightarrow> r < length (procs s) \<and>
     (\<exists>c \<in> set (children (procs s ! r)). \<exists>p. resolve s (Some (snd c)) = Some (Process q p))"

lemma reach_tree_ok: "eng_reach U s \<Longrightarrow> tree_ok s"
  using tree.reachable [of U s] tree.all_ok_def by blast

lemma child_longer:
  assumes "tree_ok s" "child_of s q r"
  shows "length (ID (ppid (procs s ! r))) < length (ID (ppid (procs s ! q)))"
proof -
  obtain c p where c: "r < length (procs s)" "c \<in> set (children (procs s ! r))" "resolve s (Some (snd c)) = Some (Process q p)"
    using assms(2) by (auto simp: child_of_def)
  have "registry_ok s" "longer s r (snd c)" using assms(1) c by (auto simp: tree_ok_def)
  then show ?thesis using resolve_same_ID [OF _ c(3)] by (auto simp: longer_def)
qed

lemma childPIDs_children: "set (childPIDs ord p) = snd ` set (children p)"
  using range_order_perm [of ord "children p"] by (simp add: childPIDs_def flip: set_mset_mset)

lemma family_result:
  "map (map fst \<circ> children) (procs (boot [Go (spawn_x 7 3), Run 1 200 [], Go (send_x (User 5)), Run 3 100 [], Run 4 200 []])) =
     [[], [''a/x/kid/k''], []]"
  by code_simp

text \<open>
  C20. The children form a forest. In every reachable state the ID of every recorded child is longer
  than the ID of the actor that recorded it, so no actor is its own descendant: the cascade
  of \<open>shutdownChildren\<close>, in which each actor waits for its children, never comes back to an actor
  that is already waiting.
\<close>
theorem children_form_forest:
  assumes "eng_reach U s" and "r < length (procs s)"
  shows "(\<forall>pid \<in> set (childPIDs ord (procs s ! r)). length (ID (ppid (procs s ! r))) < length (ID pid)) \<and>
    \<not> (child_of s)\<^sup>+\<^sup>+ r r"
proof
  have K: "tree_ok s" using assms(1) by (rule reach_tree_ok)
  show "\<forall>pid \<in> set (childPIDs ord (procs s ! r)). length (ID (ppid (procs s ! r))) < length (ID pid)"
    using K assms(2) by (auto simp: childPIDs_children tree_ok_def longer_def)
  have "length (ID (ppid (procs s ! n))) < length (ID (ppid (procs s ! q)))" if "(child_of s)\<^sup>+\<^sup>+ q n" for q n
    using that by (induction rule: tranclp_induct) (auto dest: child_longer [OF K])
  then show "\<not> (child_of s)\<^sup>+\<^sup>+ r r" by blast
qed

theorem children_form_forest_witness:
  "length (ID pid_x) < length ''a/x/kid/k'' \<and>
   \<not> (child_of (boot [Go (spawn_x 7 3), Run 1 200 [], Go (send_x (User 5)), Run 3 100 [], Run 4 200 []]))\<^sup>+\<^sup>+ 1 1"
proof -
  let ?s = "boot [Go (spawn_x 7 3), Run 1 200 [], Go (send_x (User 5)), Run 3 100 [], Run 4 200 []]"
  have "length (map (map fst \<circ> children) (procs ?s)) = 3" unfolding family_result by simp
  then have "1 < length (procs ?s)" by simp
  from children_form_forest [OF boot_reach this] show ?thesis by (simp add: pid_x_def NewPID_def)
qed

end
