(* ===== verification/Engine_Shape.thy ===== *)
theory Engine_Shape
  imports Engine_Mail Engine_Tree
begin

text \<open>
  Two invariants of the goroutines that the absence of deadlocks rests on. A poisoning is aimed: the
  context, the pill and the cancel function reach the process whose ID was poisoned, and a pill
  never travels as an ordinary message. And stacks have shapes: what lies under an instruction
  that waits is known, so a goroutine that waits has nothing to do that another needs, except
  what it waits to do.
\<close>

section \<open>What a poisoning aims at\<close>

text \<open>
  \<open>targets s c r\<close>: the context \<open>c\<close> was made to poison the ID of process \<open>r\<close>. \<open>aim\<close> is what an instruction
  has to respect, and \<open>aims_proc\<close> what the waiters, the queue and the message of a process do.
\<close>

definition targets :: "'u engine \<Rightarrow> nat \<Rightarrow> nat \<Rightarrow> bool" where
  "targets s c r \<longleftrightarrow> c < length (gtarget s) \<and> r < length (procs s) \<and>
     (\<exists>pid. gtarget s ! c = Some pid \<and> ID pid = ID (ppid (procs s ! r)))"

definition aimed :: "'u engine \<Rightarrow> nat \<Rightarrow> 'u Envelope \<Rightarrow> bool" where
  "aimed s r e \<longleftrightarrow> (\<forall>c. pill_for c e \<longrightarrow> targets s c r)"

fun aim :: "'u engine \<Rightarrow> 'u instr \<Rightarrow> bool" where
  "aim s (IPoison pid c) = (c < length (gtarget s) \<and> gtarget s ! c = pid)"
| "aim s (IAfter pid c) = (c < length (gtarget s) \<and> gtarget s ! c = pid)"
| "aim s (IAddCancel r c) = targets s c r"
| "aim s (IDeliver r e) = aimed s r e"
| "aim s (IInvoke r batch) = (\<forall>e \<in> set batch. aimed s r e)"
| "aim s (IHandlePoison r cancel) = (\<forall>c. cancel = Some c \<longrightarrow> targets s c r)"
| "aim s (IInvokeMsg r e) = exported (Msg e)"
| "aim s (IEvent f) = (\<forall>t. exported (f t))"
| "aim s (IBroadcast m) = exported m"
| "aim s (IBroadcastScan entries live m) = exported m"
| "aim s (ISendMessage to m sender) = exported m"
| "aim s (ISendMiss pid m sender) = exported m"
| "aim s (IRequest to m) = exported m"
| "aim s (IRequestSend to m i) = exported m"
| "aim s (IRepeat i to m interval) = exported m"
| "aim s (IRepeatLoop i to m) = exported m"
| "aim s (ISendAfterTimer i to m) = exported m"
| "aim s _ = True"

definition aims_proc :: "'u engine \<Rightarrow> nat \<Rightarrow> bool" where
  "aims_proc s r \<longleftrightarrow> (\<forall>c \<in> set (cancels (procs s ! r)). targets s c r) \<and>
     (\<forall>e \<in> set (rb (inbox (procs s ! r))). aimed s r e) \<and>
     (\<forall>m. cmessage (procs s ! r) = Some m \<longrightarrow> exported m)"

definition aims_ok :: "'u engine \<Rightarrow> bool" where
  "aims_ok s \<longleftrightarrow> length (gtarget s) = length (ctxs s) \<and> length (gwgs s) = length (wgs s) \<and>
     (\<forall>r < length (procs s). aims_proc s r)"

text \<open>What the invariants below read of the state only grows.\<close>

definition grows :: "'u engine \<Rightarrow> 'u engine \<Rightarrow> bool" where
  "grows s s' \<longleftrightarrow> same_ids s s' \<and> length (repeaters s) \<le> length (repeaters s') \<and> (\<exists>ts ws. gtarget s' = gtarget s @ ts \<and> gwgs s' = gwgs s @ ws \<and>
     length (ctxs s') = length (ctxs s) + length ts \<and> length (wgs s') = length (wgs s) + length ws)"

lemma targets_grows: "grows s s' \<Longrightarrow> targets s c r \<Longrightarrow> targets s' c r"
  by (auto simp: grows_def targets_def same_ids_def nth_append)

lemma aimed_grows: "grows s s' \<Longrightarrow> aimed s r e \<Longrightarrow> aimed s' r e"
  by (auto simp: aimed_def intro: targets_grows)

lemma aim_grows: "grows s s' \<Longrightarrow> aim s i \<Longrightarrow> aim s' i"
proof (cases i)
  case (IPoison pid c)
  then show "grows s s' \<Longrightarrow> aim s i \<Longrightarrow> aim s' i" by (auto simp: grows_def nth_append)
next
  case (IAfter pid c)
  then show "grows s s' \<Longrightarrow> aim s i \<Longrightarrow> aim s' i" by (auto simp: grows_def nth_append)
qed (auto intro: targets_grows aimed_grows)

lemma exec_api_grows:
  "exec_api a ch s = Some (s', js, x, gos) \<Longrightarrow> length (repeaters s) \<le> length (repeaters s') \<and> (\<exists>ts. gtarget s' = gtarget s @ ts \<and> gwgs s' = gwgs s \<and> wgs s' = wgs s \<and>
     length (ctxs s') = length (ctxs s) + length ts)"
  by (cases a) (auto simp: eff_defs Let_def new_ctx_def log_line_def split: if_splits option.splits)

lemma exec_instr_grows:
  assumes e: "exec_instr i U ch v s = Some (s', js, x, gos)"
  shows "length (repeaters s) \<le> length (repeaters s') \<and> (\<exists>ts ws. gtarget s' = gtarget s @ ts \<and> gwgs s' = gwgs s @ ws \<and>
     length (ctxs s') = length (ctxs s) + length ts \<and> length (wgs s') = length (wgs s) + length ws)"
proof (cases i)
  case (IApi a)
  with e exec_api_grows [of a ch s s' js x gos] show ?thesis by auto
next
  case (ISpawn p kind opts)
  with e Spawn_shape [of p kind opts s] show ?thesis by (auto simp: eff_defs)
next
  case (ISpawnChild c p kind opts)
  with e SpawnChild_shape [of "ppid (procs s ! c)" p kind opts s] show ?thesis by (auto simp: eff_defs)
qed (use e in \<open>auto simp: eff_defs Let_def new_ctx_def spawnProc_def
      removeFromParent_def addChildOf_def processor_turn_def
      split: if_splits option.splits prod.splits prog.splits list.splits Processer.splits ret.splits outcome.splits\<close>)

lemma newProcess_cmessage [simp]: "cmessage (newProcess o') = None"
  by (simp add: newProcess_def)

text \<open>Where the waiters, the queue and the current message of a process come from.\<close>

definition feeds :: "'u engine \<Rightarrow> 'u instr \<Rightarrow> nat \<Rightarrow> 'u process \<Rightarrow> bool" where
  "feeds s i r p' \<longleftrightarrow>
     set (cancels p') \<subseteq> (if r < length (procs s) then set (cancels (procs s ! r)) else {}) \<union> {c. i = IAddCancel r c} \<and>
     set (rb (inbox p')) \<subseteq> (if r < length (procs s) then set (rb (inbox (procs s ! r))) else {}) \<union> {e. i = IDeliver r e} \<and>
     (cmessage p' = None \<or> r < length (procs s) \<and> cmessage p' = cmessage (procs s ! r) \<or>
      (\<exists>e. i = IInvokeMsg r e \<and> cmessage p' = Some (Msg e)))"

lemma process_next_subset:
  "process_next list_popn (seen_len exact) ib pc = Return (ib', pc') \<Longrightarrow>
   set (rb ib') \<subseteq> set (rb ib) \<and> (\<forall>b. pc' = RunInvoke b \<longrightarrow> set b \<subseteq> set (rb ib)) \<and> pc \<noteq> Exited"
  by (cases pc) (auto simp: list_popn_def cas_status_def dest: in_set_takeD in_set_dropD split: if_splits)

lemma exec_instr_feeds:
  assumes refs: "instr_refs i \<subseteq> {..<length (procs s)}" and e: "exec_instr i U ch v s = Some (s', js, x, gos)"
    and r: "r < length (procs s')"
  shows "feeds s i r (procs s' ! r)"
proof (cases i)
  case (IApi a)
  with e r exec_api_waiters [of a ch s s' js x gos] show ?thesis by (simp add: feeds_def)
next
  case (ITryRestart q y trace)
  with e r refs show ?thesis
    by (auto simp: eff_defs feeds_def tryRestart_def Let_def split: if_splits prod.splits)
next
  case (IShutdown q)
  with e r refs show ?thesis by (auto simp: eff_defs feeds_def Shutdown_def split: if_splits prod.splits)
next
  case (IBroadcastScan entries live m)
  with e r show ?thesis by (auto simp: eff_defs Let_def feeds_def split: list.splits if_splits)
next
  case (ISpawn p kind opts)
  with e r Spawn_shape [of p kind opts s] show ?thesis by (auto simp: eff_defs feeds_def nth_append)
next
  case (ISpawnChild c p kind opts)
  with e r SpawnChild_shape [of "ppid (procs s ! c)" p kind opts s] show ?thesis
    by (auto simp: eff_defs feeds_def nth_append)
next
  case (IProcessor q pc)
  with e r refs show ?thesis
    by (auto simp: eff_defs feeds_def processor_turn_def dest!: process_next_subset split: outcome.splits prod.splits if_splits)
next
  case (IDeliver q e)
  with assms show ?thesis by (auto simp: eff_defs feeds_def Inbox_push_def list_push_def split: if_splits)
next
  case (ISchedule q)
  with assms show ?thesis by (auto simp: eff_defs feeds_def schedule_def cas_status_def split: if_splits prod.splits)
qed (use e r refs in \<open>auto simp: eff_defs Let_def new_ctx_def feeds_def Inbox_Start_def Inbox_Stop_def
      spawnProc_def addChild_def removeChild_def withEnvelope_def addCancel_def
      split: if_splits option.splits prod.splits prog.splits list.splits Processer.splits ret.splits outcome.splits\<close>)

lemma aims_proc_step:
  assumes K: "aims_ok s" and g: "grows s s'" and i: "aim s i" and f: "feeds s i r (procs s' ! r)" "r < length (procs s')"
  shows "aims_proc s' r"
proof -
  have old: "aims_proc s r" if "r < length (procs s)" using K that by (simp add: aims_ok_def)
  show ?thesis
    using f i old targets_grows [OF g] aimed_grows [OF g]
    unfolding aims_proc_def feeds_def by (cases "r < length (procs s)") (auto simp: subset_iff)
qed

text \<open>Nothing an instruction leaves to do carries a pill, or a context, to the wrong process.\<close>

lemma exec_api_aim:
  assumes "exec_api a ch s = Some (s', js, x, gos)" "aims_ok s"
  shows "\<forall>j \<in> set js \<union> set (concat gos). aim s' j"
  using assms
  by (cases a) (auto simp: eff_defs Let_def new_ctx_def Context_Respond_def aims_ok_def aims_proc_def nth_append
      split: if_splits option.splits)

lemma aimed_exported: "exported (Msg e) \<Longrightarrow> aimed s r e"
  by (auto simp: aimed_def pill_for_def)

lemma aimed_pill: "aimed s r e \<Longrightarrow> Msg e = poisonPill (Some c) g \<Longrightarrow> targets s c r"
  by (auto simp: aimed_def pill_for_def)

lemma Invoke_aim: "\<forall>e \<in> set batch. aimed s r e \<Longrightarrow> \<forall>j \<in> set (Invoke_code r batch). aim s j"
  by (cases "(r, batch)" rule: Invoke_code.cases) (auto dest: aimed_pill split: msg.splits)

lemma poison_aim:
  assumes "registry_ok s" "c < length (gtarget s)" "gtarget s ! c = pid" "j \<in> set (poison pid c s)"
  shows "aim s j"
proof (cases pid)
  case None
  then show ?thesis using assms by (auto simp: poison_def resolve_def reg_get_def)
next
  case (Some p)
  then show ?thesis using assms resolve_same_ID [OF assms(1), of p]
    by (auto simp: poison_def targets_def split: option.splits Processer.splits)
qed

lemma exec_instr_aim:
  assumes K: "aims_ok s" "registry_ok s" and i: "aim s i" and refs: "instr_refs i \<subseteq> {..<length (procs s)}"
    and g: "grows s s'" and e: "exec_instr i U ch v s = Some (s', js, x, gos)"
  shows "\<forall>j \<in> set js \<union> set (concat gos). aim s' j"
proof (cases i)
  case (IApi a)
  with e exec_api_aim [of a ch s s' js x gos] K show ?thesis by simp
next
  case (IPoison pid c)
  with e i poison_aim [OF K(2)] show ?thesis by (auto simp: eff_defs)
next
  case (IProcessor r pc)
  then have "\<forall>e \<in> set (rb (inbox (procs s ! r))). aimed s' r e"
    using K refs aimed_grows [OF g] by (auto simp: aims_ok_def aims_proc_def)
  with IProcessor e show ?thesis
    by (auto simp: eff_defs processor_turn_def subset_iff dest!: process_next_subset
        split: outcome.splits prod.splits processor_pc.splits)
next
  case (IInvoke r batch)
  with i have "\<forall>e \<in> set batch. aimed s' r e" using aimed_grows [OF g] by simp
  from Invoke_aim [OF this] show ?thesis using IInvoke e by (simp add: eff_defs)
next
  case (IAddCancel r c)
  with e i targets_grows [OF g] show ?thesis
    by (auto simp: eff_defs aimed_def pill_for_def env_of_def split: prod.splits if_splits)
next
  case (ITryRestart r y trace)
  with e show ?thesis
    by (auto simp: eff_defs tryRestart_def Let_def Start_code_def env_of_def split: if_splits prod.splits)
next
  case (ISpawnProc r)
  with e show ?thesis by (auto simp: eff_defs spawnProc_def Start_code_def env_of_def split: option.splits)
next
  case (IPoisonWait pid)
  with e K show ?thesis by (auto simp: eff_defs new_ctx_def aims_ok_def nth_append)
next
  case (ISendMessage to m sender)
  with e i show ?thesis
    by (auto simp: eff_defs sendMessage_def aimed_exported split: option.splits Processer.splits)
qed (use e i targets_grows [OF g] in \<open>auto simp: eff_defs Let_def new_ctx_def sendMiss_def handlePoison_code_def Shutdown_def env_of_def
      removeFromParent_def addChildOf_def
      split: if_splits option.splits prod.splits prog.splits list.splits Processer.splits ret.splits outcome.splits\<close>)

section \<open>The shapes of stacks\<close>

text \<open>What lies under an instruction that waits, or that leads to a wait.\<close>

definition under :: "'u engine \<Rightarrow> nat \<Rightarrow> 'u instr list \<Rightarrow> bool" where
  "under s r rest \<longleftrightarrow> (\<exists>pc. rest = [IShutdown r, IProcessor r pc] \<or>
     (\<exists>c. rest = [IShutdown r, ICancel c, IProcessor r pc] \<and> targets s c r))"

definition awaited :: "'u engine \<Rightarrow> PID option \<Rightarrow> 'u instr list \<Rightarrow> bool" where
  "awaited s pid rest \<longleftrightarrow> (\<exists>i. rest = [ICloseResponse i]) \<or>
     (\<exists>w p. rest = [IWgDone w] \<and> w < length (gwgs s) \<and> pid = Some p \<and> longer s (gwgs s ! w) p)"

fun caller :: "'u instr list \<Rightarrow> bool" where
  "caller (IResume ro k # rest) = True"
| "caller _ = False"

fun fit :: "'u engine \<Rightarrow> 'u instr \<Rightarrow> 'u instr list \<Rightarrow> bool" where
  "fit s (IProcessor r pc) rest = (rest = [] \<and> pc \<noteq> Exited)"
| "fit s (IInvoke r batch) rest = (\<exists>pc. rest = [IProcessor r pc])"
| "fit s (IHandlePoison r cancel) rest = (\<exists>pc. rest = [IProcessor r pc])"
| "fit s (IShutdownChildren r) rest = under s r rest"
| "fit s (IGoPoison pids w) rest = (w < length (gwgs s) \<and> under s (gwgs s ! w) rest \<and>
     (\<forall>pid \<in> set pids. longer s (gwgs s ! w) pid))"
| "fit s (IWgWait w) rest = (w < length (gwgs s) \<and> under s (gwgs s ! w) rest)"
| "fit s (IPoisonWait pid) rest = awaited s pid rest"
| "fit s (IAwaitCtx c) rest = (c < length (gtarget s) \<and> awaited s (gtarget s ! c) rest)"
| "fit s (IAwait i ci pid) rest = (rest = [])"
| "fit s (IProg None p) rest = (rest = [])"
| "fit s (IResume None k) rest = (rest = [])"
| "fit s (IApi a) rest = caller rest"
| "fit s (IAwaitRepeater i) rest = (i < length (repeaters s) \<and> caller rest)"
| "fit s _ rest = True"

fun fits :: "'u engine \<Rightarrow> 'u instr list \<Rightarrow> bool" where
  "fits s [] = True"
| "fits s (i # rest) = (fit s i rest \<and> fits s rest)"

fun loose :: "'u instr \<Rightarrow> bool" where
  "loose (IProcessor r pc) = False"
| "loose (IInvoke r batch) = False"
| "loose (IHandlePoison r cancel) = False"
| "loose (IShutdownChildren r) = False"
| "loose (IGoPoison pids w) = False"
| "loose (IWgWait w) = False"
| "loose (IPoisonWait pid) = False"
| "loose (IAwaitCtx c) = False"
| "loose (IAwait i ci pid) = False"
| "loose (IProg ro p) = (ro \<noteq> None)"
| "loose (IResume ro k) = (ro \<noteq> None)"
| "loose (IApi a) = False"
| "loose (IAwaitRepeater i) = False"
| "loose _ = True"

lemma loose_fit: "loose i \<Longrightarrow> fit s i rest"
  by (cases "(s, i, rest)" rule: fit.cases) auto

lemma fits_loose: "\<forall>j \<in> set js. loose j \<Longrightarrow> fits s rest \<Longrightarrow> fits s (js @ rest)"
  by (induction js) (auto simp: loose_fit)

lemma under_grows: "grows s s' \<Longrightarrow> under s r rest \<Longrightarrow> under s' r rest"
  by (auto simp: under_def intro: targets_grows)

lemma awaited_grows: "grows s s' \<Longrightarrow> awaited s pid rest \<Longrightarrow> awaited s' pid rest"
  by (auto simp: awaited_def grows_def nth_append intro: longer_mono)

lemma fit_grows:
  assumes g: "grows s s'" and f: "fit s i rest"
  shows "fit s' i rest"
proof -
  have "same_ids s s'" using g by (simp add: grows_def)
  note longer_mono [OF this]
  moreover have "w < length (gwgs s) \<Longrightarrow> w < length (gwgs s') \<and> gwgs s' ! w = gwgs s ! w" for w
    using g by (auto simp: grows_def nth_append)
  moreover have "c < length (gtarget s) \<Longrightarrow> c < length (gtarget s') \<and> gtarget s' ! c = gtarget s ! c" for c
    using g by (auto simp: grows_def nth_append)
  ultimately show ?thesis using f under_grows [OF g] awaited_grows [OF g] g
    by (cases "(s, i, rest)" rule: fit.cases) (auto simp: grows_def)
qed

lemma fits_grows: "grows s s' \<Longrightarrow> fits s c \<Longrightarrow> fits s' c"
  by (induction c) (auto intro: fit_grows)

lemma exec_api_fits:
  "exec_api a ch s = Some (s', js, x, gos) \<Longrightarrow> caller rest \<Longrightarrow> fits s' rest \<Longrightarrow>
   fits s' (js @ rest) \<and> (\<forall>g \<in> set gos. fits s' g)"
  by (cases a) (auto simp: eff_defs Let_def new_ctx_def code_defs split: if_splits option.splits)

lemma exec_instr_loose:
  assumes e: "exec_instr i U ch v s = Some (s', js, x, gos)" and "loose i" "\<forall>ro p. i \<noteq> IProg ro p"
  shows "(\<forall>j \<in> set js. loose j) \<and> (\<forall>g \<in> set gos. fits s' g)"
proof (cases i)
  case (ISpawn p kind opts)
  with e Spawn_shape [of p kind opts s] show ?thesis by (auto simp: eff_defs)
next
  case (ISpawnChild c p kind opts)
  with e SpawnChild_shape [of "ppid (procs s ! c)" p kind opts s] show ?thesis by (auto simp: eff_defs)
qed (use assms in \<open>auto simp: eff_defs Let_def new_ctx_def log_line_def code_defs Shutdown_def
      tryRestart_def spawnProc_def removeFromParent_def addChildOf_def
      split: if_splits option.splits prod.splits prog.splits list.splits Processer.splits ret.splits outcome.splits\<close>)

lemma fits_step:
  assumes tree: "tree_ok s" and K: "aims_ok s" and a: "aim s i" and f: "fits s (i # rest)"
    and refs: "instr_refs i \<subseteq> {..<length (procs s)}"
    and g: "grows s s'" and e: "exec_instr i U ch v s = Some (s', js, x, gos)"
  shows "fits s' (js @ rest) \<and> (\<forall>g \<in> set gos. fits s' g)"
proof -
  have rest: "fits s' rest" and fi: "fit s' i rest" and ai: "aim s' i"
    using f a fits_grows [OF g] fit_grows [OF g] aim_grows [OF g] by auto
  show ?thesis
  proof (cases "loose i \<and> (\<forall>ro p. i \<noteq> IProg ro p)")
    case True
    then show ?thesis using exec_instr_loose [OF e] fits_loose [OF _ rest] by blast
  next
    case False
    then show ?thesis
    proof (cases i)
      case (IApi a)
      with e exec_api_fits [of a ch s s' js x gos rest] fi rest show ?thesis by simp
    next
      case (IProg ro p)
      with e fi rest show ?thesis by (cases ro) (auto simp: eff_defs split: prog.splits)
    next
      case (IResume ro k)
      with e fi rest False show ?thesis by (auto simp: eff_defs)
    next
      case (IProcessor r pc)
      with e fi show ?thesis
        by (auto simp: eff_defs processor_turn_def split: outcome.splits prod.splits processor_pc.splits)
    next
      case (IInvoke r batch)
      with e fi rest show ?thesis
        by (cases "(r, batch)" rule: Invoke_code.cases) (auto simp: eff_defs split: msg.splits)
    next
      case (IHandlePoison r cancel)
      with e fi rest ai show ?thesis
        by (cases cancel) (auto simp: eff_defs handlePoison_code_def under_def)
    next
      case (IShutdownChildren r)
      have ids: "same_ids s s'" using g by (simp add: grows_def)
      have "\<forall>pid \<in> set (childPIDs ch (procs s ! r)). longer s' r pid"
        using tree refs IShutdownChildren by (auto simp: childPIDs_children tree_ok_def intro!: longer_mono [OF ids])
      with IShutdownChildren e fi rest K show ?thesis
        by (auto simp: eff_defs Let_def nth_append aims_ok_def split: if_splits)
    next
      case (IGoPoison pids w)
      with e fi rest show ?thesis by (cases pids) (auto simp: eff_defs awaited_def)
    next
      case (IPoisonWait pid)
      with e fi rest K show ?thesis by (auto simp: eff_defs new_ctx_def nth_append aims_ok_def)
    next
      case (IAwait n ci pid)
      with e fi show ?thesis by (auto simp: eff_defs awaited_def split: if_splits option.splits)
    qed (use e rest False in \<open>auto simp: eff_defs split: if_splits\<close>)
  qed
qed

definition shape_state :: "'u engine \<Rightarrow> bool" where
  "shape_state s \<longleftrightarrow> tree_ok s \<and> aims_ok s"

definition shape_stack :: "'u engine \<Rightarrow> 'u instr list \<Rightarrow> 'u ret \<Rightarrow> bool" where
  "shape_stack s c v \<longleftrightarrow> kin_stack s c v \<and> (\<forall>i \<in> set c. aim s i) \<and> fits s c"

lemma shape_step:
  assumes K: "shape_state s" and J: "shape_stack s (i # rest) v" and e: "exec_instr i U ch v s = Some (s', js, x, gos)"
  shows "grows s s' \<and> shape_state s' \<and> shape_stack s' (js @ rest) (case x of None \<Rightarrow> v | Some y \<Rightarrow> y) \<and>
    (\<forall>g \<in> set gos. shape_stack s' g RUnit)"
proof -
  have K1: "tree_ok s" "aims_ok s" "registry_ok s" using K by (auto simp: shape_state_def tree_ok_def)
  have J1: "kin_stack s (i # rest) v" "aim s i" "fits s (i # rest)" "instr_refs i \<subseteq> {..<length (procs s)}"
    using J by (auto simp: shape_stack_def kin_stack_def)
  note tree = tree_step [OF K1(1) J1(1) e]
  have g: "grows s s'" using tree exec_instr_grows [OF e] by (simp add: grows_def)
  note aim = exec_instr_aim [OF K1(2,3) J1(2,4) g e]
  have "aims_proc s' r" if "r < length (procs s')" for r
    using aims_proc_step [OF K1(2) g J1(2) exec_instr_feeds [OF J1(4) e that] that] .
  then have "aims_ok s'" using K1(2) g by (auto simp: aims_ok_def grows_def)
  moreover have "\<forall>j \<in> set rest. aim s' j" using J aim_grows [OF g] by (auto simp: shape_stack_def)
  ultimately show ?thesis
    using g tree aim fits_step [OF K1(1,2) J1(2,3,4) g e] by (auto simp: shape_state_def shape_stack_def)
qed

lemma shape_cong:
  assumes "procs s' = procs s" "gtarget s' = gtarget s" "gwgs s' = gwgs s" "repeaters s' = repeaters s"
    "ctxs s' = ctxs s" "wgs s' = wgs s"
  shows "aims_ok s' = aims_ok s" "aim s' i = aim s i" "fits s' c = fits s c"
proof -
  have g: "grows s s'" "grows s' s" using assms by (simp_all add: grows_def same_ids_def)
  have "targets s' c r = targets s c r" for c r using g targets_grows by blast
  then show "aims_ok s' = aims_ok s" using assms by (simp add: aims_ok_def aims_proc_def aimed_def)
  show "aim s' i = aim s i" using g aim_grows by blast
  show "fits s' c = fits s c" using g fits_grows by blast
qed

interpretation shapes: engine_goroutine_invariant U shape_state shape_stack for U
proof unfold_locales
  fix cfg :: "'a Producer option" and mem n m
  show "shape_state (eng_init cfg mem n m) \<and> shape_stack (eng_init cfg mem n m) (NewEngine_code cfg) RUnit"
    using tree.init [of cfg mem n m]
    by (simp add: shape_state_def shape_stack_def aims_ok_def NewEngine_code_def) (simp add: eng_init_def)
next
  fix s :: "'a engine" and i rest v ch s' js x gos c y
  assume a: "shape_state s" "shape_stack s (i # rest) v" "exec_instr i U ch v s = Some (s', js, x, gos)"
  note step = shape_step [OF a]
  show "shape_state s' \<and> shape_stack s' (js @ rest) (case x of None \<Rightarrow> v | Some y \<Rightarrow> y) \<and>
    (\<forall>g \<in> set gos. shape_stack s' g RUnit)" using step by blast
  have g: "grows s s'" using step by blast
  have "kin_stack s c y \<Longrightarrow> kin_stack s' c y"
    using tree.other [OF _ _ a(3)] a unfolding shape_state_def shape_stack_def by blast
  then show "shape_stack s c y \<Longrightarrow> shape_stack s' c y"
    using aim_grows [OF g] fits_grows [OF g] by (simp add: shape_stack_def)
next
  fix s :: "'a engine" and p
  show "shape_stack s [IProg None p] RUnit" using tree.go by (simp add: shape_stack_def)
next
  fix s :: "'a engine" and d ts c y
  note cong = shape_cong [of "s\<lparr>clock := d\<rparr>" s] shape_cong [of "s\<lparr>threads := ts\<rparr>" s]
  show "shape_state (s\<lparr>clock := d\<rparr>) \<longleftrightarrow> shape_state s" "shape_state (s\<lparr>threads := ts\<rparr>) \<longleftrightarrow> shape_state s"
    "shape_stack (s\<lparr>clock := d\<rparr>) c y \<longleftrightarrow> shape_stack s c y" "shape_stack (s\<lparr>threads := ts\<rparr>) c y \<longleftrightarrow> shape_stack s c y"
    using cong by (simp_all add: shape_state_def shape_stack_def tree.tick tree.threads_irrelevant)
qed

end
