(* ===== verification/Engine_Stream.thy ===== *)
theory Engine_Stream
  imports Engine_Life Engine_Route Engine_Run
begin

text \<open>
  The lock of the event stream: it is held exactly while one goroutine scans the subscribers, that
  goroutine has nothing else to do first, and every step of a scan can run, so the lock is always
  given back; and every subscriber of the scan is looked up once.
\<close>

fun scans :: "'u instr \<Rightarrow> bool" where
  "scans (IBroadcastScan entries live m) = True"
| "scans _ = False"

definition scan_count :: "'u instr multiset \<Rightarrow> nat" where
  "scan_count P = size (filter_mset scans P)"

lemma scan_count_simps [simp]:
  "scan_count {#} = 0" "scan_count (P + Q) = scan_count P + scan_count Q"
  "scan_count (add_mset i P) = (if scans i then 1 else 0) + scan_count P"
  by (auto simp: scan_count_def)

lemma scan_count_none: "\<forall>j \<in># Q. \<not> scans j \<Longrightarrow> scan_count Q = 0"
  by (induction Q) auto

definition lock_ok :: "'u engine \<Rightarrow> 'u instr multiset \<Rightarrow> bool" where
  "lock_ok s P \<longleftrightarrow> scan_count P = (if es_mu s then 1 else 0)"

definition on_top :: "'u instr list \<Rightarrow> bool" where
  "on_top c \<longleftrightarrow> (\<forall>i \<in> set (List.tl c). \<not> scans i)"

lemma exec_api_lock:
  "exec_api a ch s = Some (s', js, x, gos) \<Longrightarrow> es_mu s' = es_mu s \<and> (\<forall>j \<in> set js \<union> set (concat gos). \<not> scans j)"
  by (cases a) (auto simp: eff_defs Let_def new_ctx_def code_defs log_line_def split: if_splits option.splits)

lemma exec_instr_lock:
  assumes e: "exec_instr i U ch v s = Some (s', js, x, gos)" and "\<not> is_broadcast i" "\<not> scans i"
  shows "es_mu s' = es_mu s \<and> (\<forall>j \<in> set js \<union> set (concat gos). \<not> scans j)"
proof (cases i)
  case (IApi a)
  with e exec_api_lock [of a ch s s' js x gos] show ?thesis by simp
next
  case (ISpawn p kind opts)
  with e Spawn_shape [of p kind opts s] show ?thesis by (auto simp: eff_defs)
next
  case (ISpawnChild c p kind opts)
  with e SpawnChild_shape [of "ppid (procs s ! c)" p kind opts s] show ?thesis by (auto simp: eff_defs)
next
  case (IInvoke r batch)
  with e show ?thesis
    by (cases "(r, batch)" rule: Invoke_code.cases) (auto simp: eff_defs split: msg.splits)
qed (use assms in \<open>auto simp: eff_defs Let_def new_ctx_def log_line_def code_defs Shutdown_def
      tryRestart_def spawnProc_def removeFromParent_def addChildOf_def processor_turn_def
      split: if_splits option.splits prod.splits prog.splits list.splits Processer.splits ret.splits outcome.splits
        processor_pc.splits\<close>)

lemma exec_instr_scan:
  assumes e: "exec_instr i U ch v s = Some (s', js, x, gos)" and "is_broadcast i \<or> scans i"
  shows "gos = [] \<and> (is_broadcast i \<longrightarrow> \<not> es_mu s) \<and>
    ((\<exists>es live m. js = [IBroadcastScan es live m]) \<and> es_mu s' = (es_mu s \<or> is_broadcast i) \<or>
     scans i \<and> \<not> es_mu s' \<and> (\<forall>j \<in> set js. \<not> scans j))"
  using assms by (cases i) (auto simp: eff_defs Let_def split: if_splits list.splits)

lemma lock_step:
  assumes inv: "lock_ok s (add_mset i P)" and e: "exec_instr i U ch v s = Some (s', js, x, gos)"
  shows "lock_ok s' (P + mset js + mset (concat gos))"
proof (cases "is_broadcast i \<or> scans i")
  case True
  have "\<not> (is_broadcast i \<and> scans i)" by (cases i) auto
  then show ?thesis using exec_instr_scan [OF e True] inv scan_count_none [of "mset js"] True
    by (auto simp: lock_ok_def split: if_splits)
next
  case False
  then show ?thesis using exec_instr_lock [OF e] inv scan_count_none [of "mset js + mset (concat gos)"]
    by (auto simp: lock_ok_def)
qed

interpretation lock: engine_invariant U lock_ok for U
proof unfold_locales
  fix s :: "'a engine" and i P ch v s' js x gos
  assume "lock_ok s (add_mset i P)" "exec_instr i U ch v s = Some (s', js, x, gos)"
  then show "lock_ok s' (P + mset js + mset (concat gos))" by (rule lock_step)
qed (simp_all add: lock_ok_def eng_init_def NewEngine_code_def)

lemma on_top_step:
  assumes "on_top (i # rest)" and e: "exec_instr i U ch v s = Some (s', js, x, gos)"
  shows "on_top (js @ rest) \<and> (\<forall>g \<in> set gos. on_top g)"
proof -
  have rest: "\<forall>j \<in> set rest. \<not> scans j" using assms(1) by (simp add: on_top_def)
  have sub: "set (List.tl c) \<subseteq> set c" for c :: "'a instr list" by (cases c) auto
  show ?thesis
  proof (cases "is_broadcast i \<or> scans i")
    case True
    then show ?thesis using exec_instr_scan [OF e True] rest sub [of "js @ rest"] by (auto simp: on_top_def)
  next
    case False
    then have "\<forall>j \<in> set js \<union> set (concat gos). \<not> scans j" using exec_instr_lock [OF e] by blast
    then show ?thesis using rest sub [of "js @ rest"] sub by (fastforce simp: on_top_def)
  qed
qed

interpretation top: engine_code_invariant U "\<lambda>_. True" "\<lambda>_. on_top" for U
proof unfold_locales
  fix s :: "'a engine" and i rest ch v s' js x gos
  assume "on_top (i # rest)" "exec_instr i U ch v s = Some (s', js, x, gos)"
  then show "True \<and> on_top (js @ rest) \<and> (\<forall>g \<in> set gos. on_top g)" using on_top_step by blast
qed (simp_all add: on_top_def NewEngine_code_def)

section \<open>Properties\<close>

lemma scan_step:
  assumes "t < length (threads s)" "code (threads s ! t) = IBroadcastScan (e # es) live m # rest"
  obtains s' live' where "exec U ch t s = Some s'" "t < length (threads s')"
    "code (threads s' ! t) = IBroadcastScan es live' m # rest"
proof (cases "resolve s (Some (snd e)) = None")
  case True
  then show ?thesis using assms that by (simp add: exec_def eff_defs nth_append)
next
  case False
  then show ?thesis using assms that by (simp add: exec_def eff_defs nth_append)
qed

lemma scan_ends:
  assumes "t < length (threads s)" "code (threads s ! t) = IBroadcastScan es live m # rest"
  shows "\<not> es_mu (burst U ch t (Suc (length es)) s)"
  using assms
proof (induction es arbitrary: s live)
  case Nil
  then show ?case by (simp add: exec_def eff_defs)
next
  case (Cons e es)
  obtain s' live' where "exec U ch t s = Some s'" "t < length (threads s')"
    "code (threads s' ! t) = IBroadcastScan es live' m # rest"
    using Cons.prems by (rule scan_step)
  then show ?case using Cons.IH [of s' live'] by simp
qed

lemma lock_holder:
  assumes "eng_reach U s" "es_mu s"
  obtains t entries live m rest where "t < length (threads s)"
    "code (threads s ! t) = IBroadcastScan entries live m # rest"
proof -
  have "scan_count (pool s) \<noteq> 0" using lock.reachable [OF assms(1)] assms(2) by (simp add: lock_ok_def)
  then obtain i where "i \<in># pool s" "scans i" using scan_count_none [of "pool s"] by fastforce
  then obtain g where "g \<in> set (threads s)" "i \<in> set (code g)" by (auto simp: pool_def)
  then obtain t where t: "t < length (threads s)" "i \<in> set (code (threads s ! t))" by (metis in_set_conv_nth)
  then obtain j rest where c: "code (threads s ! t) = j # rest" by (cases "code (threads s ! t)") auto
  have "on_top (code (threads s ! t))" using top.reachable [OF assms(1)] t by (simp add: top.all_ok_def)
  then have "scans j" using t c \<open>scans i\<close> by (auto simp: on_top_def)
  then show ?thesis using t c that by (cases j) auto
qed

definition scan_run :: "nat sched list" where
  "scan_run = [Go (call (E_BroadcastEvent (User 5))), Run 1 3 []]"

lemma scan_run_result: "es_mu (boot scan_run)"
  by code_simp

text \<open>
  C14. The event stream's lock is safe. In every reachable state it is held by no goroutine or by exactly
  one, which is scanning the subscribers; and that goroutine, left to run, gives it back after
  one step for each subscriber left and one more, whatever it finds in the registry. So a
  broadcast or a subscription that waits for the lock does not wait forever.
\<close>
theorem stream_lock_released:
  assumes "eng_reach U s"
  shows "scan_count (pool s) = (if es_mu s then 1 else 0) \<and>
    (es_mu s \<longrightarrow> (\<exists>t entries live m rest. t < length (threads s) \<and>
       code (threads s ! t) = IBroadcastScan entries live m # rest \<and>
       (\<forall>ch. \<not> es_mu (burst U ch t (Suc (length entries)) s))))"
proof
  show "scan_count (pool s) = (if es_mu s then 1 else 0)"
    using lock.reachable [OF assms] by (simp add: lock_ok_def)
  show "es_mu s \<longrightarrow> (\<exists>t entries live m rest. t < length (threads s) \<and>
       code (threads s ! t) = IBroadcastScan entries live m # rest \<and>
       (\<forall>ch. \<not> es_mu (burst U ch t (Suc (length entries)) s)))"
    using lock_holder [OF assms] scan_ends by metis
qed

theorem stream_lock_released_witness:
  "scan_count (pool (boot scan_run)) = 1"
  using stream_lock_released [OF boot_reach, of scan_run] scan_run_result by simp

end
