(* ===== verification/Engine_Cascade.thy ===== *)
theory Engine_Cascade
  imports Engine_Inv Engine_Run
begin

text \<open>
  Cascading shutdown (\<open>process.shutdownChildren\<close>): the wait group of a cascade counts exactly the
  goroutines that still poison a child, so the parent goes on only when all of them have seen
  their child's context cancelled, and the counter never drops below zero (a panic in Go).
\<close>

fun wg_weight :: "nat \<Rightarrow> 'u instr \<Rightarrow> nat" where
  "wg_weight w (IWgDone v) = (if v = w then 1 else 0)"
| "wg_weight w (IGoPoison pids v) = (if v = w then length pids else 0)"
| "wg_weight w _ = 0"

definition wg_sum :: "nat \<Rightarrow> 'u instr multiset \<Rightarrow> nat" where
  "wg_sum w P = (\<Sum>i\<in>#P. wg_weight w i)"

lemma wg_sum_simps [simp]:
  "wg_sum w {#} = 0" "wg_sum w (add_mset i P) = wg_weight w i + wg_sum w P" "wg_sum w (P + Q) = wg_sum w P + wg_sum w Q"
  by (simp_all add: wg_sum_def)

lemma wg_sum_pos: "0 < wg_sum w P \<longleftrightarrow> (\<exists>i \<in># P. 0 < wg_weight w i)"
  by (induction P) auto

definition wg_at :: "'u engine \<Rightarrow> 'u instr multiset \<Rightarrow> nat \<Rightarrow> bool" where
  "wg_at s P w \<longleftrightarrow> wg_sum w P = (if w < length (wgs s) then wgs s ! w else 0)"

definition wg_ok :: "'u engine \<Rightarrow> 'u instr multiset \<Rightarrow> bool" where
  "wg_ok s P \<longleftrightarrow> (\<forall>w. wg_at s P w)"

lemma wg_sum_zero: "\<forall>j \<in># Q. wg_weight w j = 0 \<Longrightarrow> wg_sum w Q = 0"
  by (simp add: wg_sum_def)

lemma exec_api_wg:
  "exec_api a ch s = Some (s', js, x, gos) \<Longrightarrow>
   wgs s' = wgs s \<and> (\<forall>j \<in> set js \<union> set (concat gos). wg_weight w j = 0)"
  by (cases a) (auto simp: eff_defs Let_def new_ctx_def code_defs log_line_def split: if_splits option.splits)

lemma exec_instr_wg_plain:
  assumes e: "exec_instr i U ch v s = Some (s', js, x, gos)"
    and "\<forall>r. i \<noteq> IShutdownChildren r" "\<forall>pids v. i \<noteq> IGoPoison pids v" "\<forall>v. i \<noteq> IWgDone v"
  shows "wgs s' = wgs s \<and> wg_weight w i = 0 \<and> (\<forall>j \<in> set js \<union> set (concat gos). wg_weight w j = 0)"
proof (cases i)
  case (IApi a)
  with e exec_api_wg [of a ch s s' js x gos] show ?thesis by simp
next
  case (ISpawn p kind opts)
  with e Spawn_shape [of p kind opts s] show ?thesis by (auto simp: eff_defs)
next
  case (ISpawnChild c p kind opts)
  with e SpawnChild_shape [of "ppid (procs s ! c)" p kind opts s] show ?thesis by (auto simp: eff_defs)
next
  case (IInvoke r batch)
  with e show ?thesis
    by (cases "(r, batch)" rule: Invoke_code.cases) (auto simp: eff_defs split: msg.splits)
qed (use assms in \<open>auto simp: eff_defs Let_def new_ctx_def log_line_def code_defs Shutdown_def
      tryRestart_def spawnProc_def removeFromParent_def addChildOf_def processor_turn_def
      split: if_splits option.splits prod.splits prog.splits list.splits Processer.splits ret.splits outcome.splits
        processor_pc.splits\<close>)

lemma exec_instr_wg:
  assumes inv: "\<forall>w. wg_at s (add_mset i P) w" and e: "exec_instr i U ch v s = Some (s', js, x, gos)"
  shows "wg_at s' (P + mset js + mset (concat gos)) w"
proof -
  have w: "wg_at s (add_mset i P) w" using inv by blast
  consider r where "i = IShutdownChildren r" | pids u where "i = IGoPoison pids u" | u where "i = IWgDone u"
    | "\<forall>r. i \<noteq> IShutdownChildren r" "\<forall>pids v. i \<noteq> IGoPoison pids v" "\<forall>v. i \<noteq> IWgDone v" by blast
  then show ?thesis
  proof cases
    case 1
    then show ?thesis using e w by (auto simp: eff_defs Let_def wg_at_def nth_append split: if_splits)
  next
    case 2
    then show ?thesis using e w by (cases pids) (auto simp: eff_defs wg_at_def split: if_splits)
  next
    case 3
    have "wg_at s (add_mset i P) u" using inv by blast
    then have "u < length (wgs s)" "wgs s ! u = Suc (wg_sum u P)" using 3 by (auto simp: wg_at_def split: if_splits)
    then show ?thesis using 3 e w by (cases "u = w") (auto simp: eff_defs wg_at_def)
  next
    case 4
    then show ?thesis
      using w exec_instr_wg_plain [OF e 4, of w] wg_sum_zero [of "mset js + mset (concat gos)" w]
      by (simp add: wg_at_def)
  qed
qed

interpretation cascade: engine_invariant U wg_ok for U
proof unfold_locales
  fix s :: "'a engine" and i P ch v s' js x gos
  assume "wg_ok s (add_mset i P)" "exec_instr i U ch v s = Some (s', js, x, gos)"
  then show "wg_ok s' (P + mset js + mset (concat gos))" unfolding wg_ok_def using exec_instr_wg by blast
qed (simp_all add: wg_ok_def wg_at_def eng_init_def NewEngine_code_def)

section \<open>Properties\<close>

text \<open>
  A parent with one child: the child is spawned while a user message is handled, so it is recorded.
\<close>

definition family_run :: "nat sched list" where
  "family_run = [Go (spawn_x 7 3), Run 1 200 [], Go (send_x (User 5)), Run 3 100 [], Run 4 200 [],
     Go (call (E_Poison (Some pid_x))), Run 5 100 [], Run 6 100 []]"

definition family_end :: "nat sched list" where
  "family_end = family_run @ [Run 7 100 [], Run 8 100 [], Run 7 100 [], Run 6 100 []]"

lemma family_run_result:
  "wgs (boot family_run) = [1] \<and> ctxs (boot family_run) = [False] \<and> map (length \<circ> code) (threads (boot family_run)) = [0, 0, 1, 0, 0, 0, 4, 2]"
  by code_simp




end
