(* ===== verification/Engine_Futures.thy ===== *)
theory Engine_Futures
  imports Engine_Inv Engine_Run
begin

text \<open>
  \<^verbatim>\<open>src/actor/response.go\<close> and \<^verbatim>\<open>repeat.go\<close> inside the engine: a \<open>Response\<close> has exactly one goroutine that
  resolves it and is resolved once, and a repeater that is done has no goroutine left that
  could tick. The invariants count the goroutines of each object.
\<close>

definition cnt :: "('u instr \<Rightarrow> bool) \<Rightarrow> 'u instr multiset \<Rightarrow> nat" where
  "cnt p P = size (filter_mset p P)"

lemma cnt_simps [simp]:
  "cnt p {#} = 0" "cnt p (P + Q) = cnt p P + cnt p Q"
  "cnt p (add_mset i P) = (if p i then 1 else 0) + cnt p P"
  by (auto simp: cnt_def)

lemma cnt_none: "\<forall>j \<in># Q. \<not> p j \<Longrightarrow> cnt p Q = 0"
  by (induction Q) auto

lemma cnt_zero_iff: "cnt p P = 0 \<longleftrightarrow> (\<forall>i \<in># P. \<not> p i)"
  by (auto simp: cnt_def)

fun awaits :: "nat \<Rightarrow> 'u instr \<Rightarrow> bool" where
  "awaits i (IAwait k ci pid) = (k = i)"
| "awaits i _ = False"

fun closes :: "nat \<Rightarrow> 'u instr \<Rightarrow> bool" where
  "closes i (ICloseResponse k) = (k = i)"
| "closes i _ = False"

fun ticks :: "nat \<Rightarrow> 'u instr \<Rightarrow> bool" where
  "ticks i (IRepeat k to m interval) = (k = i)"
| "ticks i (IRepeatLoop k to m) = (k = i)"
| "ticks i (ISendAfterTimer k to m) = (k = i)"
| "ticks i _ = False"

fun ends :: "nat \<Rightarrow> 'u instr \<Rightarrow> bool" where
  "ends i (ICloseRepeater k) = (k = i)"
| "ends i _ = False"

definition response_ok :: "'u engine \<Rightarrow> 'u instr multiset \<Rightarrow> nat \<Rightarrow> bool" where
  "response_ok s P i \<longleftrightarrow>
     (if i < length (responses s) then
        cnt (awaits i) P + cnt (closes i) P + (if resp_done (responses s ! i) then 1 else 0) = 1 \<and>
        (if cnt (awaits i) P = 1 then resp_result (responses s ! i) = None \<and> \<not> resp_err (responses s ! i)
         else (resp_result (responses s ! i) \<noteq> None) \<noteq> resp_err (responses s ! i))
      else cnt (awaits i) P + cnt (closes i) P = 0)"

definition repeater_ok :: "'u engine \<Rightarrow> 'u instr multiset \<Rightarrow> nat \<Rightarrow> bool" where
  "repeater_ok s P i \<longleftrightarrow>
     cnt (ticks i) P + cnt (ends i) P =
       (if i < length (repeaters s) \<and> \<not> rep_done (repeaters s ! i) then 1 else 0)"

definition futures_ok :: "'u engine \<Rightarrow> 'u instr multiset \<Rightarrow> bool" where
  "futures_ok s P \<longleftrightarrow> (\<forall>i. response_ok s P i \<and> repeater_ok s P i)"

text \<open>Instructions that have nothing to do with responses and repeaters.\<close>

fun future_instr :: "'u instr \<Rightarrow> bool" where
  "future_instr (IAwait k ci pid) = True"
| "future_instr (ICloseResponse k) = True"
| "future_instr (IRepeat k to m interval) = True"
| "future_instr (IRepeatLoop k to m) = True"
| "future_instr (ISendAfterTimer k to m) = True"
| "future_instr (ICloseRepeater k) = True"
| "future_instr _ = False"

fun future_api :: "'u api \<Rightarrow> bool" where
  "future_api (E_SendRepeat to m interval) = True"
| "future_api (E_SendAfter to m) = True"
| "future_api (Repeater_Stop rep) = True"
| "future_api _ = False"

lemma not_future [simp]:
  "\<not> future_instr j \<Longrightarrow> \<not> awaits i j \<and> \<not> closes i j \<and> \<not> ticks i j \<and> \<not> ends i j"
  by (cases j) auto

lemma exec_api_plain:
  "exec_api a ch s = Some (s', js, x, gos) \<Longrightarrow> \<not> future_api a \<Longrightarrow>
   responses s' = responses s \<and> repeaters s' = repeaters s \<and> (\<forall>j \<in> set js \<union> set (concat gos). \<not> future_instr j)"
  by (cases a) (auto simp: eff_defs Let_def new_ctx_def code_defs log_line_def split: if_splits option.splits)

lemma exec_instr_plain:
  assumes e: "exec_instr i U ch v s = Some (s', js, x, gos)" and "\<not> future_instr i" "\<forall>pid k. i \<noteq> IGoAwait pid k"
    and "\<forall>a. i = IApi a \<longrightarrow> \<not> future_api a"
  shows "responses s' = responses s \<and> repeaters s' = repeaters s \<and> (\<forall>j \<in> set js \<union> set (concat gos). \<not> future_instr j)"
proof (cases i)
  case (IApi a)
  with assms exec_api_plain [of a ch s s' js x gos] show ?thesis by simp
next
  case (ISpawn p kind opts)
  with e Spawn_shape [of p kind opts s] show ?thesis by (auto simp: eff_defs)
next
  case (ISpawnChild c p kind opts)
  with e SpawnChild_shape [of "ppid (procs s ! c)" p kind opts s] show ?thesis by (auto simp: eff_defs)
next
  case (IInvoke r batch)
  with e show ?thesis
    by (cases "(r, batch)" rule: Invoke_code.cases) (auto simp: eff_defs split: msg.splits)
qed (use assms in \<open>auto simp: eff_defs Let_def new_ctx_def upd_proc_def log_line_def code_defs Shutdown_def
      tryRestart_def spawnProc_def removeFromParent_def addChildOf_def processor_turn_def
      split: if_splits option.splits prod.splits prog.splits list.splits Processer.splits ret.splits outcome.splits
        processor_pc.splits\<close>)

lemma response_ok_cong:
  assumes "responses s' = responses s" "cnt (awaits k) P' = cnt (awaits k) P" "cnt (closes k) P' = cnt (closes k) P"
  shows "response_ok s' P' k \<longleftrightarrow> response_ok s P k"
  using assms by (simp only: response_ok_def)

lemma repeater_ok_cong:
  assumes "repeaters s' = repeaters s" "cnt (ticks k) P' + cnt (ends k) P' = cnt (ticks k) P + cnt (ends k) P"
  shows "repeater_ok s' P' k \<longleftrightarrow> repeater_ok s P k"
  using assms by (simp only: repeater_ok_def)

lemma futures_frame:
  assumes "futures_ok s (add_mset i P)" "\<not> future_instr i" "responses s' = responses s" "repeaters s' = repeaters s"
    and "\<forall>j \<in># Q. \<not> future_instr j"
  shows "futures_ok s' (P + Q)"
proof -
  have "cnt (awaits k) Q = 0" "cnt (closes k) Q = 0" "cnt (ticks k) Q = 0" "cnt (ends k) Q = 0" for k
    using assms(5) by (auto intro!: cnt_none)
  then have "response_ok s' (P + Q) k \<longleftrightarrow> response_ok s (add_mset i P) k"
    "repeater_ok s' (P + Q) k \<longleftrightarrow> repeater_ok s (add_mset i P) k" for k
    using assms(2-4) by (intro response_ok_cong repeater_ok_cong; simp)+
  then show ?thesis using assms(1) by (simp add: futures_ok_def)
qed

text \<open>The instructions of responses.\<close>

lemma response_GoAwait:
  assumes "response_ok s (add_mset (IGoAwait pid ci) P) k"
  shows "response_ok (s\<lparr>responses := responses s @ [\<lparr>resp_pid = pid, resp_done = False, resp_result = None, resp_err = False\<rparr>]\<rparr>)
    (add_mset (IAwait (length (responses s)) ci pid) P) k"
proof (cases "k < length (responses s)")
  case True
  then have "k \<noteq> length (responses s)" by simp
  then show ?thesis using assms True by (auto simp: response_ok_def nth_append split: if_splits)
next
  case False
  then show ?thesis using assms by (simp add: response_ok_def nth_append)
qed

lemma response_Await:
  assumes inv: "response_ok s (add_mset (IAwait i ci pid) P) k" and own: "i < length (responses s)"
    and r: "r = (responses s ! i)\<lparr>resp_result := Some m\<rparr> \<or> r = (responses s ! i)\<lparr>resp_err := True\<rparr>"
  shows "response_ok (s\<lparr>chans := cs, responses := (responses s)[i := r]\<rparr>) (P + {#IPoisonWait pid, ICloseResponse i#}) k"
proof (cases "k = i")
  case True
  then show ?thesis using assms by (auto simp: response_ok_def split: if_splits)
next
  case False
  then show ?thesis using inv by (auto simp: response_ok_def split: if_splits)
qed

lemma response_Close:
  assumes inv: "response_ok s (add_mset (ICloseResponse i) P) k" and own: "i < length (responses s)"
  shows "response_ok (s\<lparr>responses := (responses s)[i := (responses s ! i)\<lparr>resp_done := True\<rparr>]\<rparr>) P k"
proof (cases "k = i")
  case True
  then show ?thesis using assms by (auto simp: response_ok_def split: if_splits)
next
  case False
  then show ?thesis using inv by (auto simp: response_ok_def split: if_splits)
qed

lemma response_token_valid:
  assumes "response_ok s (add_mset j P) i" "awaits i j \<or> closes i j"
  shows "i < length (responses s)"
  using assms by (auto simp: response_ok_def split: if_splits)

lemma repeater_token_valid:
  assumes "repeater_ok s (add_mset j P) i" "ticks i j \<or> ends i j"
  shows "i < length (repeaters s)" "\<not> rep_done (repeaters s ! i)"
  using assms by (auto simp: repeater_ok_def split: if_splits)

text \<open>The instructions of repeaters.\<close>

lemma repeater_alloc:
  assumes inv: "repeater_ok s (add_mset j P) k" and j: "\<not> ticks k j" "\<not> ends k j"
    and q: "ticks (length (repeaters s)) q" "\<And>n. n \<noteq> length (repeaters s) \<Longrightarrow> \<not> ticks n q" "\<And>n. \<not> ends n q"
  shows "repeater_ok (s\<lparr>repeaters := repeaters s @ [\<lparr>rep_stop = False, rep_done = False\<rparr>]\<rparr>) (add_mset q P) k"
proof (cases "k = length (repeaters s)")
  case True
  then show ?thesis using inv j q by (simp add: repeater_ok_def)
next
  case False
  then show ?thesis using inv j q(2) [OF False] q(3) by (auto simp: repeater_ok_def nth_append)
qed

lemma repeater_done:
  assumes inv: "repeater_ok s (add_mset j P) k" and j: "ticks i j \<or> ends i j"
    "\<And>n. n \<noteq> i \<Longrightarrow> \<not> ticks n j \<and> \<not> ends n j" and own: "i < length (repeaters s)" "\<not> rep_done (repeaters s ! i)"
  shows "repeater_ok (s\<lparr>repeaters := (repeaters s)[i := (repeaters s ! i)\<lparr>rep_done := True\<rparr>]\<rparr>) P k"
proof (cases "k = i")
  case True
  then show ?thesis using inv j(1) own by (auto simp: repeater_ok_def split: if_splits)
next
  case False
  then show ?thesis using inv j(2) [OF False] by (simp add: repeater_ok_def)
qed

lemma futures_api:
  assumes inv: "futures_ok s (add_mset (IApi a) P)" and e: "exec_api a ch s = Some (s', js, x, gos)" and a: "future_api a"
  shows "futures_ok s' (P + mset js + mset (concat gos))"
proof -
  have resp: "responses s' = responses s" and no: "\<forall>j \<in> set js \<union> set (concat gos). \<not> awaits k j \<and> \<not> closes k j" for k
    using e a by (cases a; auto simp: eff_defs split: if_splits option.splits)+
  then have "cnt (awaits k) (mset js + mset (concat gos)) = 0" "cnt (closes k) (mset js + mset (concat gos)) = 0" for k
    by (auto intro!: cnt_none)
  then have "response_ok s' (P + mset js + mset (concat gos)) k \<longleftrightarrow> response_ok s (add_mset (IApi a) P) k" for k
    using resp by (intro response_ok_cong) (simp_all add: add.assoc)
  moreover have "repeater_ok s' (P + mset js + mset (concat gos)) k" for k
  proof -
    have inv_k: "repeater_ok s (add_mset (IApi a) P) k" using inv by (simp add: futures_ok_def)
    show ?thesis
    proof (cases a)
      case (E_SendRepeat to m interval)
      then show ?thesis
        using e repeater_alloc [OF inv_k, of "IRepeat (length (repeaters s)) to m interval"]
        by (auto simp: eff_defs repeater_ok_def split: if_splits)
    next
      case (E_SendAfter to m)
      then show ?thesis
        using e repeater_alloc [OF inv_k, of "ISendAfterTimer (length (repeaters s)) to m"]
        by (auto simp: eff_defs split: if_splits)
    next
      case (Repeater_Stop rep)
      then show ?thesis using e inv_k
        by (auto simp: eff_defs repeater_ok_def nth_list_update_if split: if_splits option.splits)
    qed (use a in auto)
  qed
  ultimately show ?thesis using inv by (simp add: futures_ok_def)
qed

lemma futures_response_instr:
  assumes inv: "futures_ok s (add_mset i P)" and e: "exec_instr i U ch v s = Some (s', js, x, gos)"
    and i: "(\<exists>pid ci. i = IGoAwait pid ci) \<or> (\<exists>k ci pid. i = IAwait k ci pid) \<or> (\<exists>k. i = ICloseResponse k)"
  shows "futures_ok s' (P + mset js + mset (concat gos))"
proof -
  have inv_k: "response_ok s (add_mset i P) k" "repeater_ok s (add_mset i P) k" for k
    using inv by (simp_all add: futures_ok_def)
  have "repeaters s' = repeaters s" "\<forall>j \<in> set js \<union> set (concat gos). \<not> ticks k j \<and> \<not> ends k j" "\<not> ticks k i" "\<not> ends k i" for k
    using e i by (auto simp: eff_defs split: if_splits option.splits)
  then have "repeater_ok s' (P + mset js + mset (concat gos)) k" for k
    using inv_k(2) [of k] cnt_none [of "mset js + mset (concat gos)" "ticks k"] cnt_none [of "mset js + mset (concat gos)" "ends k"]
    by (simp add: repeater_ok_def add.assoc)
  moreover have "response_ok s' (P + mset js + mset (concat gos)) k" for k
    using i
  proof (elim disjE exE)
    fix pid ci assume "i = IGoAwait pid ci"
    then show ?thesis using e response_GoAwait [of s pid ci P k] inv_k(1) [of k] by (auto simp: eff_defs)
  next
    fix n ci pid assume n: "i = IAwait n ci pid"
    have "n < length (responses s)" using response_token_valid [of s i P n] inv_k(1) [of n] n by simp
    then show ?thesis using e n inv_k(1) [of k] response_Await [of s n ci pid P k _ _ "chans s"]
        response_Await [of s n ci pid P k]
      by (auto simp: eff_defs split: if_splits option.splits) blast
  next
    fix n assume n: "i = ICloseResponse n"
    have "n < length (responses s)" using response_token_valid [of s i P n] inv_k(1) [of n] n by simp
    then show ?thesis using e n inv_k(1) [of k] response_Close [of s n P k] by (auto simp: eff_defs)
  qed
  ultimately show ?thesis by (simp add: futures_ok_def)
qed

lemma repeater_instrE:
  assumes "ticks n i \<or> ends n i"
  obtains to m interval where "i = IRepeat n to m interval" | to m where "i = IRepeatLoop n to m"
  | to m where "i = ISendAfterTimer n to m" | "i = ICloseRepeater n"
  using assms by (cases i) auto

lemma futures_repeater_instr:
  assumes inv: "futures_ok s (add_mset i P)" and e: "exec_instr i U ch v s = Some (s', js, x, gos)"
    and i: "ticks n i \<or> ends n i"
  shows "futures_ok s' (P + mset js + mset (concat gos))"
proof -
  have inv_k: "response_ok s (add_mset i P) k" "repeater_ok s (add_mset i P) k" for k
    using inv by (simp_all add: futures_ok_def)
  have "responses s' = responses s" "\<forall>j \<in> set js \<union> set (concat gos). \<not> awaits k j \<and> \<not> closes k j" "\<not> awaits k i" "\<not> closes k i" for k
    using i e by (cases rule: repeater_instrE; auto simp: eff_defs split: if_splits)+
  then have "response_ok s' (P + mset js + mset (concat gos)) k \<longleftrightarrow> response_ok s (add_mset i P) k" for k
    using cnt_none [of "mset js + mset (concat gos)" "awaits k"] cnt_none [of "mset js + mset (concat gos)" "closes k"]
    by (intro response_ok_cong) (simp_all add: add.assoc)
  moreover have "repeater_ok s' (P + mset js + mset (concat gos)) k" for k
  proof -
    have own: "n < length (repeaters s)" "\<not> rep_done (repeaters s ! n)"
      using repeater_token_valid [OF inv_k(2) i] by simp_all
    have only: "\<not> ticks q i \<and> \<not> ends q i" if "q \<noteq> n" for q using i that by (cases rule: repeater_instrE) auto
    note done' = repeater_done [OF inv_k(2) [of k] i only own]
    from i show ?thesis
      by (cases rule: repeater_instrE) (use e done' inv_k(2) [of k] in \<open>auto simp: eff_defs repeater_ok_def split: if_splits\<close>)
  qed
  ultimately show ?thesis using inv_k(1) by (simp add: futures_ok_def)
qed

interpretation futures: engine_invariant U futures_ok for U
proof unfold_locales
  fix s :: "'a engine" and i P ch v s' js x gos
  assume inv: "futures_ok s (add_mset i P)" and e: "exec_instr i U ch v s = Some (s', js, x, gos)"
  consider a where "i = IApi a" "future_api a"
    | "(\<exists>pid ci. i = IGoAwait pid ci) \<or> (\<exists>k ci pid. i = IAwait k ci pid) \<or> (\<exists>k. i = ICloseResponse k)"
    | n where "ticks n i \<or> ends n i"
    | "\<not> future_instr i" "\<forall>pid k. i \<noteq> IGoAwait pid k" "\<forall>a. i = IApi a \<longrightarrow> \<not> future_api a"
    by (cases i) auto
  then show "futures_ok s' (P + mset js + mset (concat gos))"
  proof cases
    case 1
    then show ?thesis using futures_api inv e by auto
  next
    case 2
    then show ?thesis by (rule futures_response_instr [OF inv e])
  next
    case 3
    then show ?thesis by (rule futures_repeater_instr [OF inv e])
  next
    case 4
    then show ?thesis
      using exec_instr_plain [OF e 4] futures_frame [OF inv, of s' "mset js + mset (concat gos)"]
      by (simp add: add.assoc)
  qed
next
  fix s :: "'a engine" and P p
  assume "futures_ok s P"
  moreover have "response_ok s (add_mset (IProg None p) P) k \<longleftrightarrow> response_ok s P k"
    "repeater_ok s (add_mset (IProg None p) P) k \<longleftrightarrow> repeater_ok s P k" for k
    by (intro response_ok_cong repeater_ok_cong; simp)+
  ultimately show "futures_ok s (add_mset (IProg None p) P)" by (simp add: futures_ok_def)
qed (simp_all add: futures_ok_def response_ok_def repeater_ok_def eng_init_def NewEngine_code_def)

text \<open>A resolved response and a finished repeater do not change any more.\<close>

definition settled :: "'u engine \<Rightarrow> nat \<Rightarrow> 'u Response \<Rightarrow> bool" where
  "settled s i r \<longleftrightarrow> i < length (responses s) \<and> responses s ! i = r \<and> resp_done r"

definition finished :: "'u engine \<Rightarrow> nat \<Rightarrow> bool" where
  "finished s i \<longleftrightarrow> i < length (repeaters s) \<and> rep_done (repeaters s ! i)"

lemma exec_instr_settled:
  assumes inv: "futures_ok s (add_mset i P)" and e: "exec_instr i U ch v s = Some (s', js, x, gos)"
  shows "(settled s k r \<longrightarrow> settled s' k r) \<and> (finished s k \<longrightarrow> finished s' k)"
proof (cases "future_instr i \<or> (\<exists>pid n. i = IGoAwait pid n) \<or> (\<exists>a. i = IApi a \<and> future_api a)")
  case False
  then show ?thesis using exec_instr_plain [OF e] by (auto simp: settled_def finished_def)
next
  case True
  have "response_ok s (add_mset i P) k" "repeater_ok s (add_mset i P) k" using inv by (simp_all add: futures_ok_def)
  then have "settled s k r \<Longrightarrow> \<not> awaits k i \<and> \<not> closes k i" "finished s k \<Longrightarrow> \<not> ticks k i \<and> \<not> ends k i"
    by (auto simp: response_ok_def settled_def repeater_ok_def finished_def split: if_splits)
  then show ?thesis using True e
    by (cases i)
      (auto simp: eff_defs settled_def finished_def nth_append nth_list_update_if
        elim!: future_api.elims(2) split: if_splits option.splits)
qed

lemma step_settled:
  assumes "eng_step U s s'" "futures_ok s (pool s)"
  shows "(settled s k r \<longrightarrow> settled s' k r) \<and> (finished s k \<longrightarrow> finished s' k)"
  using assms(1)
proof cases
  case (run ch t)
  obtain i v s1 js x gos P ts where "pool s = add_mset i P" "exec_instr i U ch v s = Some (s1, js, x, gos)"
    and s': "s' = s1\<lparr>threads := ts\<rparr>"
    using run by (rule exec_pool)
  with assms(2) have "(settled s k r \<longrightarrow> settled s1 k r) \<and> (finished s k \<longrightarrow> finished s1 k)"
    using exec_instr_settled by metis
  then show ?thesis by (simp add: s' settled_def finished_def)
qed (auto simp: settled_def finished_def)

lemma steps_settled:
  assumes "(eng_step U)\<^sup>*\<^sup>* s s'" "eng_reach U s"
  shows "(settled s k r \<longrightarrow> settled s' k r) \<and> (finished s k \<longrightarrow> finished s' k) \<and> eng_reach U s'"
  using assms
proof (induction rule: rtranclp_induct)
  case (step t u)
  then have "eng_reach U u" unfolding eng_reach_def by (meson rtranclp.rtrancl_into_rtrancl)
  with step step_settled [OF step(2) futures.reachable, where k = k and r = r] show ?case by blast
qed simp

section \<open>Properties\<close>

definition ask_x :: "nat prog" where
  "ask_x = Do (E_Request (Some pid_x) (User 5)) (\<lambda>r. case r of RRef i \<Rightarrow> call (Response_Result i) | _ \<Rightarrow> Done)"

definition ask_run :: "nat sched list" where
  "ask_run = [Go (spawn_x 6 3), Run 1 200 [], Go ask_x, Run 3 200 [], Run 4 100 [], Run 6 100 [], Run 5 1 []]"

definition ask_end :: "nat sched list" where
  "ask_end = [Run 5 100 [], Run 7 100 [], Run 5 100 [], Run 3 100 []]"

definition repeat_x :: "nat prog" where
  "repeat_x = Do (E_SendRepeat (Some pid_x) (User 5) 1000)
     (\<lambda>r. case r of RRef i \<Rightarrow> call (Repeater_Stop (Some i)) | _ \<Rightarrow> Done)"

definition repeat_run :: "nat sched list" where
  "repeat_run = [Go (spawn_x 0 3), Run 1 200 [], Go repeat_x, Run 3 100 [], Run 5 8 [], Run 5 1 [1], Run 5 1 []]"

lemma boot_append_steps: "(eng_step demo)\<^sup>*\<^sup>* (boot es) (boot (es @ fs))"
proof -
  have "eng_run demo (es @ fs) s = eng_run demo fs (eng_run demo es s)" for s
    by (induction demo es s rule: eng_run.induct) simp_all
  then show ?thesis by (simp add: boot_def eng_run_steps)
qed

lemma ask_run_result:
  "map resp_done (responses (boot (ask_run @ ask_end))) = [True] \<and>
   map resp_result (responses (boot (ask_run @ ask_end))) = [Some (User 7)]"
  by code_simp

lemma repeat_run_result:
  "map rep_done (repeaters (boot repeat_run)) = [True]"
  by code_simp

text \<open>
  C16. A request is answered once. In every reachable state a \<open>Response\<close> that is done carries a
  reply or the timeout error and not both, one that is not done has exactly one goroutine
  that will resolve or close it, and whatever happens afterwards the response, once
  done, stays as it is.
\<close>
theorem request_resolves_once:
  assumes "eng_reach U s" and "i < length (responses s)"
  shows "(resp_done (responses s ! i) \<longrightarrow> (resp_result (responses s ! i) \<noteq> None) \<noteq> resp_err (responses s ! i)) \<and>
    cnt (awaits i) (pool s) + cnt (closes i) (pool s) = (if resp_done (responses s ! i) then 0 else 1) \<and>
    (\<forall>s'. (eng_step U)\<^sup>*\<^sup>* s s' \<and> resp_done (responses s ! i) \<longrightarrow> responses s' ! i = responses s ! i)"
proof (intro conjI allI impI)
  have ok: "response_ok s (pool s) i" using futures.reachable [OF assms(1)] by (simp add: futures_ok_def)
  show "(resp_result (responses s ! i) \<noteq> None) \<noteq> resp_err (responses s ! i)" if "resp_done (responses s ! i)"
    using ok assms(2) that by (auto simp: response_ok_def split: if_splits)
  show "cnt (awaits i) (pool s) + cnt (closes i) (pool s) = (if resp_done (responses s ! i) then 0 else 1)"
    using ok assms(2) by (auto simp: response_ok_def split: if_splits)
  fix s' assume "(eng_step U)\<^sup>*\<^sup>* s s' \<and> resp_done (responses s ! i)"
  then show "responses s' ! i = responses s ! i"
    using steps_settled [OF _ assms(1), of s' i "responses s ! i"] assms(2) by (simp add: settled_def)
qed

theorem request_resolves_once_witness:
  "\<not> resp_err (responses (boot (ask_run @ ask_end)) ! 0) \<and>
   responses (boot ((ask_run @ ask_end) @ [Go ask_x, Run 8 200 []])) ! 0 = responses (boot (ask_run @ ask_end)) ! 0"
proof -
  define s where "s = boot (ask_run @ ask_end)"
  define s' where "s' = boot ((ask_run @ ask_end) @ [Go ask_x, Run 8 200 []])"
  have "(eng_step demo)\<^sup>*\<^sup>* s s'" "eng_reach demo s"
    unfolding s_def s'_def by (rule boot_append_steps, rule boot_reach)
  moreover have "0 < length (responses s)" "resp_done (responses s ! 0)" "resp_result (responses s ! 0) = Some (User 7)"
    using ask_run_result unfolding s_def by (auto simp: map_eq_Cons_conv)
  ultimately have "\<not> resp_err (responses s ! 0)" "responses s' ! 0 = responses s ! 0"
    using request_resolves_once [of demo s 0] by blast+
  then show ?thesis unfolding s_def s'_def by simp
qed



end
