(* ===== verification/Engine_Deadlock.thy ===== *)
theory Engine_Deadlock
  imports Engine_Shape Engine_Stream Engine_Cascade Engine_Futures
begin

text \<open>
  The absence of deadlocks. \<open>waits_for\<close> is the wait-for graph of the goroutines: for every instruction that
  can block, which goroutines hold what it waits for. A goroutine is \<open>doomed\<close> if no path of the
  graph leads from it to one that can run, or to user code that is stuck. The stack of a doomed
  goroutine has one of four shapes, and a doomed wait for a poisoned actor leads to a doomed
  wait for one of its children, whose ID is longer, so no goroutine is doomed.
\<close>

section \<open>A message always finds a handler\<close>

text \<open>
  \<open>made\<close> are the processes whose producer has run. \<open>supplied D c\<close>: with the processes \<open>D\<close> made, every
  delivery on the stack \<open>c\<close> is to a process that is made by then.
\<close>

definition made :: "'u engine \<Rightarrow> nat set" where
  "made s = {r. r < length (procs s) \<and> receiver (procs s ! r) \<noteq> None}"

fun makes :: "'u instr \<Rightarrow> nat set" where
  "makes (IProduce r) = {r}"
| "makes _ = {}"

fun calls :: "'u instr \<Rightarrow> nat set" where
  "calls (IInvokeMsg r e) = {r}"
| "calls _ = {}"

fun supplied :: "nat set \<Rightarrow> 'u instr list \<Rightarrow> bool" where
  "supplied D [] = True"
| "supplied D (i # js) = (calls i \<subseteq> D \<and> supplied (D \<union> makes i) js)"

lemma supplied_mono: "supplied D c \<Longrightarrow> D \<subseteq> D' \<Longrightarrow> supplied D' c"
  by (induction c arbitrary: D D') (auto, blast)

lemma supplied_append: "supplied D c \<Longrightarrow> supplied D c' \<Longrightarrow> supplied D (c @ c')"
  by (induction c arbitrary: D) (auto intro: supplied_mono)

lemma supplied_simple: "\<forall>i \<in> set c. calls i \<subseteq> D \<Longrightarrow> supplied D c"
  by (induction c) (auto intro: supplied_mono)

lemma supplied_Start: "supplied D (Start_code r pid)"
  by (simp add: Start_code_def)

lemma exec_instr_made:
  assumes refs: "instr_refs i \<subseteq> {..<length (procs s)}" and e: "exec_instr i U ch v s = Some (s', js, x, gos)"
  shows "made s \<union> makes i \<subseteq> made s'"
proof (cases i)
  case (IApi a)
  with e exec_api_waiters [of a ch s s' js x gos] show ?thesis by (simp add: made_def)
next
  case (ITryRestart q y trace)
  with e refs show ?thesis
    by (auto simp: eff_defs made_def tryRestart_def Let_def split: if_splits prod.splits)
next
  case (IShutdown q)
  with e refs show ?thesis by (auto simp: eff_defs made_def Shutdown_def split: if_splits prod.splits)
next
  case (IBroadcastScan entries live m)
  with e show ?thesis by (auto simp: eff_defs Let_def made_def split: list.splits if_splits)
next
  case (ISpawn p kind opts)
  with e Spawn_shape [of p kind opts s] show ?thesis by (auto simp: eff_defs made_def nth_append)
next
  case (ISpawnChild c p kind opts)
  with e SpawnChild_shape [of "ppid (procs s ! c)" p kind opts s] show ?thesis
    by (auto simp: eff_defs made_def nth_append)
qed (use e refs in \<open>auto simp: eff_defs Let_def new_ctx_def made_def
      spawnProc_def addChild_def removeChild_def withEnvelope_def addCancel_def processor_turn_def
      split: if_splits option.splits prod.splits prog.splits list.splits Processer.splits ret.splits outcome.splits\<close>)

lemma exec_api_calls: "exec_api a ch s = Some (s', js, x, gos) \<Longrightarrow> \<forall>j \<in> set js \<union> set (concat gos). calls j = {}"
  by (cases a) (auto simp: eff_defs Let_def new_ctx_def code_defs split: if_splits option.splits)

lemma exec_instr_supplied:
  assumes e: "exec_instr i U ch v s = Some (s', js, x, gos)" and i: "needs i \<subseteq> D"
  shows "supplied D js \<and> (\<forall>g \<in> set gos. supplied D g)"
proof (cases i)
  case (IApi a)
  with e exec_api_calls [of a ch s s' js x gos] show ?thesis by (auto intro!: supplied_simple)
next
  case (ITryRestart r y trace)
  with e show ?thesis
    by (auto simp: eff_defs tryRestart_def Let_def supplied_Start split: if_splits prod.splits)
next
  case (IShutdown r)
  with e i show ?thesis
    by (auto simp: eff_defs Shutdown_def intro!: supplied_simple split: if_splits prod.splits)
next
  case (IBroadcastScan entries live m)
  with e show ?thesis by (auto simp: eff_defs Let_def intro!: supplied_simple split: list.splits if_splits)
next
  case (IInvoke r batch)
  with e i show ?thesis
    by (cases "(r, batch)" rule: Invoke_code.cases) (auto simp: eff_defs split: msg.splits if_splits)
next
  case (ISpawnProc r)
  with e show ?thesis
    by (auto simp: eff_defs spawnProc_def supplied_Start intro!: supplied_append split: option.splits)
qed (use e i in \<open>auto simp: eff_defs Let_def new_ctx_def code_defs processor_turn_def removeFromParent_def addChildOf_def
      split: if_splits option.splits prod.splits prog.splits list.splits Processer.splits ret.splits outcome.splits
        processor_pc.splits\<close>)

definition made_state :: "'u engine \<Rightarrow> bool" where
  "made_state s \<longleftrightarrow> life_first s \<and> begun s \<subseteq> made s"

definition made_stack :: "'u engine \<Rightarrow> 'u instr list \<Rightarrow> bool" where
  "made_stack s c \<longleftrightarrow> stack_ok s c \<and> supplied (made s) c"

lemma begun_only_by_call:
  assumes J: "stack_ok s (i # rest)" and e: "exec_instr i U ch v s = Some (s', js, x, gos)"
  shows "begun s' \<subseteq> begun s \<union> calls i"
proof (cases "\<exists>r ev. i = IInvokeMsg r ev")
  case True
  then show ?thesis using J e by (auto simp: stack_ok_def eff_defs deliver_begun split: option.splits)
next
  case False
  then show ?thesis using same_history_begun [OF exec_instr_history [OF _ e]] J by (auto simp: stack_ok_def)
qed

lemma made_step:
  assumes K: "made_state s" and J: "made_stack s (i # rest)" and e: "exec_instr i U ch v s = Some (s', js, x, gos)"
  shows "made_state s' \<and> made_stack s' (js @ rest) \<and> (\<forall>g \<in> set gos. made_stack s' g) \<and> made s \<subseteq> made s'"
proof -
  have K1: "life_first s" "begun s \<subseteq> made s" using K by (simp_all add: made_state_def)
  have J1: "stack_ok s (i # rest)" "calls i \<subseteq> made s" "supplied (made s \<union> makes i) rest"
    "instr_refs i \<subseteq> {..<length (procs s)}" "needs i \<subseteq> begun s"
    using J by (auto simp: made_stack_def stack_ok_def)
  note life = life_first_step [OF K1(1) J1(1) e]
  have m: "made s \<union> makes i \<subseteq> made s'" using exec_instr_made [OF J1(4) e] .
  have "begun s' \<subseteq> made s'" using begun_only_by_call [OF J1(1) e] K1(2) J1(2) m by blast
  moreover have "supplied (made s') js \<and> (\<forall>g \<in> set gos. supplied (made s') g)"
    using exec_instr_supplied [OF e] J1(5) K1(2) m by blast
  moreover have "supplied (made s') rest" using J1(3) m by (rule supplied_mono)
  ultimately show ?thesis using life m by (auto simp: made_state_def made_stack_def intro: supplied_append)
qed

interpretation made: engine_code_invariant U made_state made_stack for U
proof unfold_locales
  fix cfg :: "'a Producer option" and mem n m
  show "made_state (eng_init cfg mem n m) \<and> made_stack (eng_init cfg mem n m) (NewEngine_code cfg)"
    using first.code_init [of cfg mem n m]
    by (simp add: made_state_def made_stack_def NewEngine_code_def) (simp add: begun_def eng_init_def)
next
  fix s :: "'a engine" and i rest ch v s' js x gos c
  assume a: "made_state s" "made_stack s (i # rest)" "exec_instr i U ch v s = Some (s', js, x, gos)"
  note step = made_step [OF a]
  show "made_state s' \<and> made_stack s' (js @ rest) \<and> (\<forall>g \<in> set gos. made_stack s' g)" using step by blast
  have "stack_ok s c \<Longrightarrow> stack_ok s' c"
    using first.code_other [OF _ _ a(3)] a unfolding made_state_def made_stack_def by blast
  then show "made_stack s c \<Longrightarrow> made_stack s' c" using step by (auto simp: made_stack_def intro: supplied_mono)
next
  fix s :: "'a engine" and d ts c p
  show "made_stack s [IProg None p]" using first.code_go by (simp add: made_stack_def)
  have "made (s\<lparr>clock := d\<rparr>) = made s" "made (s\<lparr>threads := ts\<rparr>) = made s"
    "begun (s\<lparr>clock := d\<rparr>) = begun s" "begun (s\<lparr>threads := ts\<rparr>) = begun s" by (simp_all add: made_def begun_def)
  then show "made_state (s\<lparr>clock := d\<rparr>) \<longleftrightarrow> made_state s" "made_state (s\<lparr>threads := ts\<rparr>) \<longleftrightarrow> made_state s"
    "made_stack (s\<lparr>clock := d\<rparr>) c \<longleftrightarrow> made_stack s c" "made_stack (s\<lparr>threads := ts\<rparr>) c \<longleftrightarrow> made_stack s c"
    by (simp_all add: made_state_def made_stack_def first.code_tick first.code_threads)
qed

section \<open>What a goroutine can wait for\<close>

text \<open>
  A user's wait: an API call that cannot proceed, other than for the event stream's lock. \<open>baseless\<close>
  calls wait for something the program was never given. A stack is \<open>user_stuck\<close> when the user's
  program has crashed, when a handler waits, or when a wait is baseless; a goroutine of the
  user's own that waits for a context, a response or a repeater it was given is not.
\<close>

fun blocks :: "'u engine \<Rightarrow> 'u api \<Rightarrow> bool" where
  "blocks s (E_Subscribe pid) = False"
| "blocks s (E_Unsubscribe pid) = False"
| "blocks s a = Option.is_none (exec_api a [] s)"

fun baseless :: "'u engine \<Rightarrow> 'u api \<Rightarrow> bool" where
  "baseless s (Ctx_Done c) = (length (ctxs s) \<le> c)"
| "baseless s (Response_Result i) = (length (responses s) \<le> i)"
| "baseless s _ = True"

fun in_handler :: "'u instr list \<Rightarrow> bool" where
  "in_handler (IResume ro k # rest) = (ro \<noteq> None)"
| "in_handler _ = False"

fun panics :: "'u prog \<Rightarrow> bool" where
  "panics (PanicWith x stack) = True"
| "panics _ = False"

fun top_stuck :: "'u engine \<Rightarrow> 'u instr \<Rightarrow> 'u instr list \<Rightarrow> bool" where
  "top_stuck s (IProg ro p) rest = (ro = None \<and> panics p)"
| "top_stuck s (IApi a) rest = (blocks s a \<and> (in_handler rest \<or> baseless s a))"
| "top_stuck s (IAwaitRepeater i) rest = (in_handler rest \<and> \<not> rep_done (repeaters s ! i))"
| "top_stuck s _ rest = False"

definition user_stuck :: "'u engine \<Rightarrow> 'u instr list \<Rightarrow> bool" where
  "user_stuck s c = (case c of [] \<Rightarrow> False | i # rest \<Rightarrow> top_stuck s i rest)"

fun api_waits :: "'u engine \<Rightarrow> 'u api \<Rightarrow> bool" where
  "api_waits s (Ctx_Done c) = (c < length (ctxs s) \<and> \<not> ctxs s ! c)"
| "api_waits s (Response_Result i) = (i < length (responses s) \<and> \<not> resp_done (responses s ! i))"
| "api_waits s _ = False"

fun user_waits :: "'u engine \<Rightarrow> 'u instr \<Rightarrow> bool" where
  "user_waits s (IApi a) = api_waits s a"
| "user_waits s (IAwaitRepeater i) = (i < length (repeaters s) \<and> \<not> rep_done (repeaters s ! i))"
| "user_waits s _ = False"

lemma user_waitsE:
  assumes "user_waits s i"
  obtains a where "i = IApi a" "api_waits s a"
  | n where "i = IAwaitRepeater n" "n < length (repeaters s)" "\<not> rep_done (repeaters s ! n)"
  using assms by (cases i) auto

definition cancels_for :: "'u engine \<Rightarrow> nat \<Rightarrow> 'u instr \<Rightarrow> bool" where
  "cancels_for s c j \<longleftrightarrow> settles c j \<or>
     list_ex (\<lambda>q. \<not> stopped (procs s ! q) \<and> c \<in> set (cancels (procs s ! q)) \<and> (carries q c j \<or> wake_instr q j \<or> owner_instr q j))
       [0..<length (procs s)]"

fun api_unblocks :: "'u engine \<Rightarrow> 'u api \<Rightarrow> 'u instr \<Rightarrow> bool" where
  "api_unblocks s (Ctx_Done c) j = cancels_for s c j"
| "api_unblocks s (Response_Result i) j = (awaits i j \<or> closes i j)"
| "api_unblocks s (E_Subscribe pid) j = scans j"
| "api_unblocks s (E_Unsubscribe pid) j = scans j"
| "api_unblocks s _ j = False"

fun unblocks :: "'u engine \<Rightarrow> 'u instr \<Rightarrow> 'u instr \<Rightarrow> bool" where
  "unblocks s (IApi a) j = api_unblocks s a j"
| "unblocks s (IAwaitCtx c) j = cancels_for s c j"
| "unblocks s (IWgWait w) j = (0 < wg_weight w j)"
| "unblocks s (IAwaitRepeater i) j = (ticks i j \<or> ends i j)"
| "unblocks s (IBroadcast m) j = scans j"
| "unblocks s ISubscribeDeadletter j = scans j"
| "unblocks s _ j = False"

definition waits_for :: "'u engine \<Rightarrow> nat \<Rightarrow> nat \<Rightarrow> bool" where
  "waits_for s t t' \<longleftrightarrow> t < length (threads s) \<and> t' < length (threads s) \<and>
     (case code (threads s ! t) of [] \<Rightarrow> False | i # rest \<Rightarrow> list_ex (unblocks s i) (code (threads s ! t')))"

lemma api_blocked:
  assumes "exec_api a [] s = None" "\<not> blocks s a \<or> h \<and> \<not> baseless s a"
  shows "h \<and> api_waits s a \<or> es_mu s \<and> (\<forall>j. scans j \<longrightarrow> api_unblocks s a j)"
  using assms by (cases a) (auto simp: eff_defs split: if_splits)

lemma caller_obtain:
  assumes "caller rest"
  obtains ro k rest' where "rest = IResume ro k # rest'"
  using assms by (cases rest rule: caller.cases) auto

lemma blocked_top:
  assumes f: "fits s (i # rest)" and m: "calls i \<subseteq> made s" and u: "\<not> user_stuck s (i # rest)"
    and b: "\<And>ch. exec_instr i U ch v s = None"
  shows "(\<exists>c. i = IAwaitCtx c \<and> \<not> ctxs s ! c) \<or> (\<exists>w. i = IWgWait w \<and> wgs s ! w \<noteq> 0) \<or>
    (\<exists>k. rest = [IResume None k] \<and> user_waits s i) \<or> es_mu s \<and> (\<forall>j. scans j \<longrightarrow> unblocks s i j)"
proof (cases i)
  case (IApi a)
  then obtain ro k rest' where rest: "rest = IResume ro k # rest'" using f by (auto elim: caller_obtain)
  moreover have "ro = None \<and> user_waits s i \<or> es_mu s \<and> (\<forall>j. scans j \<longrightarrow> unblocks s i j)"
    using api_blocked [of a s "ro = None"] u b [of "[]"] IApi rest by (auto simp: user_stuck_def)
  ultimately show ?thesis using f by auto
next
  case (IAwaitRepeater n)
  then obtain ro k rest' where rest: "rest = IResume ro k # rest'" using f by (auto elim: caller_obtain)
  then show ?thesis using f u b [of "[]"] IAwaitRepeater by (cases ro) (auto simp: eff_defs user_stuck_def split: if_splits)
next
  case (IProg ro p)
  then show ?thesis using u b [of "[]"] by (cases ro; cases p) (auto simp: eff_defs user_stuck_def)
next
  case (IAwait n ci pid)
  then show ?thesis using b [of "[1]"] by (simp add: eff_defs first_branch_def)
next
  case (IInvokeMsg r e)
  then show ?thesis using b [of "[]"] m by (auto simp: eff_defs handler_def made_def split: option.splits)
next
  case (IProcessor r pc)
  then show ?thesis using b [of "[]"] f
    by (cases pc) (auto simp: eff_defs processor_turn_def list_popn_def split: outcome.splits prod.splits if_splits)
next
  case (IDeliver r e)
  then show ?thesis using b [of "[]"] by (simp add: eff_defs Inbox_push_def list_push_def)
qed (use b [of "[]"] in \<open>auto simp: eff_defs Let_def new_ctx_def spawnProc_def first_branch_def
      split: if_splits option.splits prod.splits list.splits\<close>)

section \<open>A goroutine that waits for nothing that can run\<close>

definition doomed :: "'u user_code \<Rightarrow> 'u engine \<Rightarrow> nat \<Rightarrow> bool" where
  "doomed U s t \<longleftrightarrow> eng_reach U s \<and> t < length (threads s) \<and> code (threads s ! t) \<noteq> [] \<and>
     (\<forall>t'. (waits_for s)\<^sup>*\<^sup>* t t' \<longrightarrow> (\<forall>ch. exec U ch t' s = None) \<and> \<not> user_stuck s (code (threads s ! t')))"

definition open_ctx :: "'u engine \<Rightarrow> nat \<Rightarrow> bool" where
  "open_ctx s c \<longleftrightarrow> c < length (ctxs s) \<and> \<not> ctxs s ! c"

definition top_of :: "'u engine \<Rightarrow> nat \<Rightarrow> 'u instr" where
  "top_of s t = List.hd (code (threads s ! t))"

lemma doomed_next:
  assumes d: "doomed U s t" and j: "j \<in># pool s" "unblocks s (top_of s t) j"
  obtains t' where "doomed U s t'" "j \<in> set (code (threads s ! t'))"
proof -
  obtain g where "g \<in> set (threads s)" "j \<in> set (code g)" using j(1) by (auto simp: pool_def)
  then obtain t' where t': "t' < length (threads s)" "j \<in> set (code (threads s ! t'))" by (metis in_set_conv_nth)
  then have w: "waits_for s t t'"
    using d j(2) by (auto simp: waits_for_def doomed_def top_of_def list_ex_iff split: list.splits)
  have "(\<forall>ch. exec U ch n s = None) \<and> \<not> user_stuck s (code (threads s ! n))" if "(waits_for s)\<^sup>*\<^sup>* t' n" for n
    using d converse_rtranclp_into_rtranclp [of "waits_for s", OF w that] by (simp add: doomed_def)
  moreover have "code (threads s ! t') \<noteq> []" using t'(2) by auto
  ultimately show ?thesis using that [OF _ t'(2)] t'(1) d by (simp add: doomed_def)
qed

lemma reach_shapes:
  assumes "eng_reach U s"
  shows "shape_state s" "g \<in> set (threads s) \<Longrightarrow> fits s (code g)" "g \<in> set (threads s) \<Longrightarrow> supplied (made s) (code g)"
  using shapes.reachable [OF assms] made.reachable [OF assms] unfolding shapes.all_ok_def made.all_ok_def
  by (simp_all add: shape_stack_def made_stack_def)

lemma doomed_unlocked:
  assumes d: "doomed U s t" and "es_mu s" "\<forall>j. scans j \<longrightarrow> unblocks s (top_of s t) j"
  shows False
proof -
  have "eng_reach U s" using d by (simp add: doomed_def)
  from lock_holder [OF this \<open>es_mu s\<close>] obtain t' entries live m rest
    where t': "t' < length (threads s)" "code (threads s ! t') = IBroadcastScan entries live m # rest" by blast
  then have "waits_for s t t'"
    using d assms(3) by (auto simp: waits_for_def doomed_def top_of_def split: list.splits)
  moreover have "exec U [] t' s \<noteq> None" using t' by (cases entries) (auto simp: exec_def eff_defs Let_def split: prod.splits)
  ultimately show False using d by (auto simp: doomed_def)
qed

text \<open>The stacks that a doomed goroutine can have.\<close>

lemma doomed_stack:
  assumes d: "doomed U s t"
  obtains
    (response) c i where "code (threads s ! t) = [IAwaitCtx c, ICloseResponse i]" "open_ctx s c"
  | (child) c w p where "code (threads s ! t) = [IAwaitCtx c, IWgDone w]" "open_ctx s c" "gtarget s ! c = Some p" "longer s (gwgs s ! w) p"
  | (parent) w pc cs where "code (threads s ! t) = IWgWait w # IShutdown (gwgs s ! w) # map ICancel cs @ [IProcessor (gwgs s ! w) pc]"
      "w < length (wgs s)" "wgs s ! w \<noteq> 0" "\<forall>c \<in> set cs. targets s c (gwgs s ! w)"
  | (user) i k where "code (threads s ! t) = [i, IResume None k]" "user_waits s i"
proof -
  let ?g = "threads s ! t"
  obtain i rest where c: "code ?g = i # rest" using d by (cases "code ?g") (auto simp: doomed_def)
  have t: "t < length (threads s)" "?g \<in> set (threads s)" and r: "eng_reach U s" and u: "\<not> user_stuck s (i # rest)"
    and none: "exec U ch t s = None" for ch
    using d c by (auto simp: doomed_def)
  have b: "exec_instr i U ch (acc ?g) s = None" for ch
    using none [of ch] t c by (auto simp: exec_def split: option.splits prod.splits)
  have f: "fits s (i # rest)" and m: "calls i \<subseteq> made s" using reach_shapes(2,3) [OF r t(2)] c by auto
  have len: "length (gtarget s) = length (ctxs s)" "length (gwgs s) = length (wgs s)"
    using reach_shapes(1) [OF r] by (simp_all add: shape_state_def aims_ok_def)
  have "\<not> (es_mu s \<and> (\<forall>j. scans j \<longrightarrow> unblocks s i j))" using doomed_unlocked [OF d] c by (auto simp: top_of_def)
  then consider (ctx) n where "i = IAwaitCtx n" "\<not> ctxs s ! n" | (wg) w where "i = IWgWait w" "wgs s ! w \<noteq> 0"
    | (own) k where "rest = [IResume None k]" "user_waits s i"
    using blocked_top [OF f m u b] by blast
  then show ?thesis
  proof cases
    case ctx
    then show ?thesis using f c len that(1,2) by (auto simp: awaited_def open_ctx_def)
  next
    case wg
    then have "under s (gwgs s ! w) rest" "w < length (wgs s)" using f len by simp_all
    then show ?thesis using wg c that(3) [of w "[]"] that(3) [of w "[_]"] by (auto simp: under_def)
  next
    case own
    then show ?thesis using c that(4) by simp
  qed
qed

lemma own_pos: "own P r = Suc n \<Longrightarrow> \<exists>i \<in># P. owner_instr r i"
  by (induction P arbitrary: n) (auto split: if_splits)

text \<open>Somebody always has the cancel function of an open context, and works on it.\<close>

lemma open_ctx_canceller:
  assumes r: "eng_reach U s" and c: "open_ctx s c"
  shows "\<exists>j \<in># pool s. cancels_for s c j"
proof (cases "\<exists>i \<in># pool s. settles c i")
  case True
  then show ?thesis by (auto simp: cancels_for_def)
next
  case False
  then have "held s c" using waiters.reachable [OF r] c by (auto simp: waiters_ok_def open_ctx_def)
  then obtain q where q: "q < length (procs s)" "\<not> stopped (procs s ! q)" "c \<in> set (cancels (procs s ! q))"
    by (auto simp: held_def)
  have mail: "mail_ok1 q (procs s ! q) (pool s)" using mail.reachable [OF r] q(1) by (simp add: mail_ok_def)
  then have "sched_ok q (inbox (procs s ! q)) (pool s)" "procStatus (inbox (procs s ! q)) \<noteq> StateStopped"
    "pill_coming q (rb (inbox (procs s ! q))) (pool s) c" using q by (auto simp: mail_ok1_def)
  then obtain i where "i \<in># pool s" "carries q c i \<or> wake_instr q i \<or> owner_instr q i"
    by (cases "procStatus (inbox (procs s ! q))") (auto simp: sched_ok_def pill_coming_def dest!: own_pos)
  moreover from this(2) have "cancels_for s c i" using q by (auto simp: cancels_for_def list_ex_iff)
  ultimately show ?thesis by blast
qed

lemma cancels_for_targets:
  assumes "shape_state s" "cancels_for s c j" "j = IShutdown r \<or> (\<exists>pc. j = IProcessor r pc)"
  shows "targets s c r"
  using assms by (auto simp: cancels_for_def list_ex_iff shape_state_def aims_ok_def aims_proc_def)

lemma doomed_wg:
  assumes d: "doomed U s t" and w: "top_of s t = IWgWait w" "w < length (wgs s)" "wgs s ! w \<noteq> 0"
  obtains t' c p where "doomed U s t'" "top_of s t' = IAwaitCtx c" "open_ctx s c" "gtarget s ! c = Some p" "longer s (gwgs s ! w) p"
proof -
  have "wg_at s (pool s) w" using cascade.reachable d by (auto simp: doomed_def wg_ok_def)
  then have "0 < wg_sum w (pool s)" using w by (simp add: wg_at_def)
  then obtain j where j: "j \<in># pool s" "0 < wg_weight w j" by (auto simp: wg_sum_pos)
  then have "unblocks s (top_of s t) j" using w(1) by simp
  from doomed_next [OF d j(1) this] obtain t' where t': "doomed U s t'" "j \<in> set (code (threads s ! t'))" .
  from t'(1) show ?thesis
    by (cases rule: doomed_stack)
      (use t' j(2) that in \<open>auto simp: top_of_def elim!: user_waitsE split: if_splits\<close>)
qed

text \<open>
  A doomed wait for a context leads to a doomed wait for one with a longer target: the wait of a
  cascade goes from parents to children.
\<close>

lemma doomed_ctx:
  assumes d: "doomed U s t" and c: "open_ctx s c" and top: "top_of s t = IAwaitCtx c \<or> top_of s t = IApi (Ctx_Done c)"
  obtains t' c' p p' where "doomed U s t'" "top_of s t' = IAwaitCtx c'" "open_ctx s c'"
    "gtarget s ! c = Some p" "gtarget s ! c' = Some p'" "length (ID p) < length (ID p')"
proof -
  have r: "eng_reach U s" using d by (simp add: doomed_def)
  obtain j where j: "j \<in># pool s" "cancels_for s c j" using open_ctx_canceller [OF r c] by blast
  then have "unblocks s (top_of s t) j" using top by auto
  from doomed_next [OF d j(1) this] obtain t1 where t1: "doomed U s t1" "j \<in> set (code (threads s ! t1))" .
  have "\<exists>w. top_of s t1 = IWgWait w \<and> w < length (wgs s) \<and> wgs s ! w \<noteq> 0 \<and> targets s c (gwgs s ! w)"
    using t1(1)
  proof (cases rule: doomed_stack)
    case (parent w pc cs)
    then have "j = ICancel c \<and> c \<in> set cs \<or> j = IShutdown (gwgs s ! w) \<or> j = IProcessor (gwgs s ! w) pc"
      using t1(2) j(2) by (auto simp: cancels_for_def list_ex_iff)
    then have "targets s c (gwgs s ! w)" using parent(4) cancels_for_targets [OF reach_shapes(1) [OF r] j(2)] by blast
    then show ?thesis using parent by (simp add: top_of_def)
  qed (use t1(2) j(2) in \<open>auto simp: cancels_for_def list_ex_iff elim!: user_waitsE\<close>)
  then obtain w where w: "top_of s t1 = IWgWait w" "w < length (wgs s)" "wgs s ! w \<noteq> 0" "targets s c (gwgs s ! w)" by blast
  obtain t' c' p' where t': "doomed U s t'" "top_of s t' = IAwaitCtx c'" "open_ctx s c'" "gtarget s ! c' = Some p'"
    "longer s (gwgs s ! w) p'" using doomed_wg [OF t1(1) w(1-3)] .
  obtain p where "gtarget s ! c = Some p" "length (ID p) < length (ID p')"
    using w(4) t'(5) by (auto simp: targets_def longer_def)
  then show ?thesis using that t' by blast
qed

lemma not_doomed_ctx:
  assumes "doomed U s t" "open_ctx s c" "top_of s t = IAwaitCtx c \<or> top_of s t = IApi (Ctx_Done c)"
  shows False
proof -
  define len where "len n = (case gtarget s ! n of None \<Rightarrow> 0 | Some p \<Rightarrow> length (ID p))" for n
  define C where "C = {c. open_ctx s c \<and> (\<exists>t. doomed U s t \<and> top_of s t = IAwaitCtx c)}"
  have up: "\<exists>n' \<in> C. len n < len n'" if n: "doomed U s u" "open_ctx s n" "top_of s u = IAwaitCtx n \<or> top_of s u = IApi (Ctx_Done n)" for u n
  proof -
    obtain t' c' p p' where "doomed U s t'" "top_of s t' = IAwaitCtx c'" "open_ctx s c'"
      "gtarget s ! n = Some p" "gtarget s ! c' = Some p'" "length (ID p) < length (ID p')"
      using doomed_ctx [OF n] .
    then show ?thesis by (auto simp: C_def len_def intro!: bexI [of _ c'])
  qed
  have fin: "finite C" by (rule finite_subset [of _ "{..<length (ctxs s)}"]) (auto simp: C_def open_ctx_def)
  have "C \<noteq> {}" using up [OF assms] by blast
  then have "Max (len ` C) \<in> len ` C" using fin by (intro Max_in) auto
  then obtain n where n: "n \<in> C" "len n = Max (len ` C)" by auto
  then obtain u where "doomed U s u" "open_ctx s n" "top_of s u = IAwaitCtx n" by (auto simp: C_def)
  then obtain n' where n': "n' \<in> C" "len n < len n'" using up by blast
  have "len n' \<le> Max (len ` C)" using fin n'(1) by (intro Max_ge) auto
  then show False using n(2) n'(2) by simp
qed

lemma not_doomed_child:
  assumes d: "doomed U s t" and j: "j \<in> set (code (threads s ! t))"
  shows "\<not> awaits n j \<and> \<not> closes n j \<and> \<not> ticks n j \<and> \<not> ends n j"
  using d
proof (cases rule: doomed_stack)
  case (response c i)
  then show ?thesis using not_doomed_ctx [OF d] by (auto simp: top_of_def)
qed (use j in \<open>auto elim!: user_waitsE\<close>)

lemma cnt_pos: "cnt p P \<noteq> 0 \<Longrightarrow> \<exists>j \<in># P. p j"
  by (auto simp: cnt_zero_iff)

lemma user_waits_future:
  assumes "eng_reach U s" "user_waits s i" "\<forall>c. i \<noteq> IApi (Ctx_Done c)"
  obtains j n where "j \<in># pool s" "unblocks s i j" "awaits n j \<or> closes n j \<or> ticks n j \<or> ends n j"
proof -
  have ok: "response_ok s (pool s) n" "repeater_ok s (pool s) n" for n
    using futures.reachable [OF assms(1)] by (simp_all add: futures_ok_def)
  consider n where "i = IApi (Response_Result n)" "n < length (responses s)" "\<not> resp_done (responses s ! n)"
    | n where "i = IAwaitRepeater n" "n < length (repeaters s)" "\<not> rep_done (repeaters s ! n)"
    using assms(2)
  proof (cases rule: user_waitsE)
    case (1 a)
    then show ?thesis using assms(3) that(1) by (cases a) auto
  next
    case (2 n)
    then show ?thesis using that(2) by blast
  qed
  then show ?thesis
  proof cases
    case 1
    then have "cnt (awaits n) (pool s) \<noteq> 0 \<or> cnt (closes n) (pool s) \<noteq> 0" using ok(1) [of n] by (auto simp: response_ok_def)
    then show ?thesis using 1(1) that by (metis cnt_pos unblocks.simps(1) api_unblocks.simps(2))
  next
    case 2
    then have "cnt (ticks n) (pool s) \<noteq> 0 \<or> cnt (ends n) (pool s) \<noteq> 0" using ok(2) [of n] by (auto simp: repeater_ok_def)
    then show ?thesis using 2(1) that by (metis cnt_pos unblocks.simps(4))
  qed
qed

lemma not_doomed: "\<not> doomed U s t"
proof
  assume d: "doomed U s t"
  then have r: "eng_reach U s" by (simp add: doomed_def)
  note no_ctx = not_doomed_ctx [OF d]
  from d show False
  proof (cases rule: doomed_stack)
    case (parent w pc cs)
    then have "top_of s t = IWgWait w" by (simp add: top_of_def)
    then show False using doomed_wg [OF d _ parent(2,3)] not_doomed_ctx by metis
  next
    case (user i k)
    then have top: "top_of s t = i" by (simp add: top_of_def)
    show False
    proof (cases "\<exists>c. i = IApi (Ctx_Done c)")
      case True
      then obtain c where "i = IApi (Ctx_Done c)" ..
      then show False using user(2) no_ctx [of c] top by (simp add: open_ctx_def)
    next
      case False
      then obtain j n where j: "j \<in># pool s" "unblocks s i j" "awaits n j \<or> closes n j \<or> ticks n j \<or> ends n j"
        using user_waits_future [OF r user(2)] by blast
      from doomed_next [OF d j(1)] j(2) top obtain t' where "doomed U s t'" "j \<in> set (code (threads s ! t'))" by blast
      then show False using not_doomed_child j(3) by blast
    qed
  qed (use no_ctx in \<open>auto simp: top_of_def\<close>)
qed

section \<open>Property\<close>

definition family_wait_run :: "nat sched list" where
  "family_wait_run = family_run @ [Run 7 100 []]"

text \<open>
  C1. The engine does not deadlock, not even in part. In every reachable state every unfinished goroutine
  waits, directly or through others, for a goroutine that can take a step, or for user code
  that is itself stuck: it has crashed outside a handler, waits inside a handler, or waits
  for a context, a response or a repeater it was never given. So as long as handlers do not wait, no
  wait is for nothing: neither a user's (for a \<open>Poison\<close> context, a \<open>Result\<close>, a \<open>SendRepeater.Stop\<close>) nor
  the engine's own (for the children in a cascading shutdown, for the responder of a request,
  for the lock of the event stream).
\<close>
theorem engine_deadlock_free:
  assumes "eng_reach U s" and "t < length (threads s)" and "code (threads s ! t) \<noteq> []"
  shows "\<exists>t'. (waits_for s)\<^sup>*\<^sup>* t t' \<and> ((\<exists>ch s'. exec U ch t' s = Some s') \<or> user_stuck s (code (threads s ! t')))"
proof (rule ccontr)
  assume no: "\<not> ?thesis"
  have "(\<forall>ch. exec U ch t' s = None) \<and> \<not> user_stuck s (code (threads s ! t'))" if "(waits_for s)\<^sup>*\<^sup>* t t'" for t'
    using no that by (metis option.exhaust)
  then have "doomed U s t" using assms by (simp add: doomed_def)
  then show False using not_doomed by blast
qed

lemma family_wait:
  "map (length \<circ> code) (threads (boot family_wait_run)) = [0, 0, 1, 0, 0, 0, 4, 2, 1] \<and>
   Option.is_none (exec demo [] 6 (boot family_wait_run)) \<and> Option.is_none (exec demo [] 7 (boot family_wait_run)) \<and>
   waits_for (boot family_wait_run) 6 7 \<and> waits_for (boot family_wait_run) 7 8"
  by code_simp

theorem engine_deadlock_free_witness:
  "exec demo [] 6 (boot family_wait_run) = None \<and>
   (\<exists>t'. (waits_for (boot family_wait_run))\<^sup>*\<^sup>* 6 t' \<and> ((\<exists>ch s'. exec demo ch t' (boot family_wait_run) = Some s') \<or>
      user_stuck (boot family_wait_run) (code (threads (boot family_wait_run) ! t'))))"
proof -
  let ?ts = "threads (boot family_wait_run)"
  have l: "map (length \<circ> code) ?ts = [0, 0, 1, 0, 0, 0, 4, 2, 1]" using family_wait by blast
  have "length (map (length \<circ> code) ?ts) = 9" "map (length \<circ> code) ?ts ! 6 = 4" unfolding l by simp_all
  then have "6 < length ?ts" "code (?ts ! 6) \<noteq> []" by auto
  then show ?thesis using engine_deadlock_free [OF boot_reach] family_wait by (simp add: Option.is_none_def split: option.splits)
qed

end
