(* ===== verification/Probe.thy ===== *)
theory Probe
  imports Engine_Life Engine_Run "HOL-Library.Sublist"
begin

text \<open>
  \<^verbatim>\<open>src/actortest/probe.go\<close>: an actor that records what it receives, and the assertions a test makes
  about it. The probe's \<open>Receive\<close> runs on the actor's goroutine and the assertions on the
  test's; a list of events says how they interleave and which ready branch a \<open>select\<close> takes.

  Messages are of any type. \<open>reflect.DeepEqual\<close> and \<open>reflect.TypeOf\<close> are arguments, \<open>testing.TB\<close> is the
  report that \<open>Fatalf\<close> gets, and time is an integer in nanoseconds, as \<open>time.Duration\<close> is.
\<close>

section \<open>The probe\<close>

text \<open>
  \<open>offering\<close> is the program counter of \<open>Receive\<close>: the message that has been recorded and not yet
  offered to the channel. The channel \<open>msgs\<close> is its queue; \<open>msgs_cap\<close> is its capacity.
\<close>

record 'm Probe =
  pr_pid :: "PID option"
  timeout :: int
  received :: "'m list"
  msgs :: "'m list"
  offering :: "'m option"

definition msgs_cap :: nat where
  "msgs_cap = 1024"

definition NewProbe :: "PID option \<Rightarrow> 'm Probe" where
  "NewProbe pid = \<lparr>pr_pid = pid, timeout = 2000000000, received = [], msgs = [], offering = None\<rparr>"

definition Receive_record :: "'m \<Rightarrow> 'm Probe \<Rightarrow> 'm Probe" where
  "Receive_record msg p =
     (if offering p = None then p\<lparr>received := received p @ [msg], offering := Some msg\<rparr> else p)"

definition Receive_offer :: "'m Probe \<Rightarrow> 'm Probe" where
  "Receive_offer p =
     (case offering p of
        None \<Rightarrow> p
      | Some msg \<Rightarrow> p\<lparr>msgs := (if length (msgs p) < msgs_cap then msgs p @ [msg] else msgs p), offering := None\<rparr>)"

definition Probe_Receive :: "'m \<Rightarrow> 'm Probe \<Rightarrow> 'm Probe" where
  "Probe_Receive msg p = Receive_offer (Receive_record msg p)"

definition Probe_PID :: "'m Probe \<Rightarrow> PID option" where
  "Probe_PID p = pr_pid p"

definition WithTimeout :: "int \<Rightarrow> 'm Probe \<Rightarrow> 'm Probe" where
  "WithTimeout d p = p\<lparr>timeout := d\<rparr>"

definition Received :: "'m Probe \<Rightarrow> 'm list" where
  "Received p = received p"

section \<open>Assertions\<close>

text \<open>
  What \<open>Fatalf\<close> is told. \<open>Expect\<close> reports the value it wanted, \<open>ExpectType\<close> the type of its sample.
\<close>

datatype ('m, 'ty) expected = Value 'm | Type 'ty

datatype ('m, 'ty) report =
    TimedOut "PID option" int "('m, 'ty) expected" "'m list"
  | NotSilent "PID option" int 'm "'m list"

datatype ('m, 'ty) verdict = Found 'm | Failed "('m, 'ty) report" | Silent | Undecided

text \<open>
  \<open>Arrive\<close> and \<open>Offer\<close> are the two halves of \<open>Receive\<close>, \<open>Take\<close> is the branch of the \<open>select\<close> that receives
  from the channel, and \<open>Fire now\<close> the branch of the timer, ready once its duration has passed.
\<close>

datatype 'm probe_event = Arrive 'm | Offer | Take | Fire int

definition failf :: "('m, 'ty) expected \<Rightarrow> int \<Rightarrow> 'm Probe \<Rightarrow> ('m, 'ty) verdict" where
  "failf want elapsed p = Failed (TimedOut (pr_pid p) elapsed want (Received p))"

text \<open>The loop of \<open>Expect\<close> and \<open>ExpectType\<close>, which differ in the test and in what they report.\<close>

fun expect_loop :: "('m \<Rightarrow> bool) \<Rightarrow> ('m, 'ty) expected \<Rightarrow> int \<Rightarrow> 'm probe_event list \<Rightarrow> 'm Probe
    \<Rightarrow> ('m, 'ty) verdict \<times> 'm Probe" where
  "expect_loop ok want start [] p = (Undecided, p)"
| "expect_loop ok want start (Arrive msg # es) p = expect_loop ok want start es (Receive_record msg p)"
| "expect_loop ok want start (Offer # es) p = expect_loop ok want start es (Receive_offer p)"
| "expect_loop ok want start (Take # es) p =
     (case msgs p of
        [] \<Rightarrow> expect_loop ok want start es p
      | msg # q \<Rightarrow>
          if ok msg then (Found msg, p\<lparr>msgs := q\<rparr>) else expect_loop ok want start es (p\<lparr>msgs := q\<rparr>))"
| "expect_loop ok want start (Fire now # es) p =
     (if timeout p \<le> now - start then (failf want (now - start) p, p) else expect_loop ok want start es p)"

definition Expect :: "('m \<Rightarrow> 'm \<Rightarrow> bool) \<Rightarrow> 'm \<Rightarrow> int \<Rightarrow> 'm probe_event list \<Rightarrow> 'm Probe
    \<Rightarrow> ('m, 'ty) verdict \<times> 'm Probe" where
  "Expect deepEqual want start es p = expect_loop (\<lambda>msg. deepEqual msg want) (Value want) start es p"

definition ExpectType :: "('m \<Rightarrow> 'ty) \<Rightarrow> 'm \<Rightarrow> int \<Rightarrow> 'm probe_event list \<Rightarrow> 'm Probe
    \<Rightarrow> ('m, 'ty) verdict \<times> 'm Probe" where
  "ExpectType typeOf sample start es p =
     expect_loop (\<lambda>msg. typeOf msg = typeOf sample) (Type (typeOf sample)) start es p"

fun ExpectNoMessage :: "int \<Rightarrow> int \<Rightarrow> 'm probe_event list \<Rightarrow> 'm Probe \<Rightarrow> ('m, 'ty) verdict \<times> 'm Probe" where
  "ExpectNoMessage d start [] p = (Undecided, p)"
| "ExpectNoMessage d start (Arrive msg # es) p = ExpectNoMessage d start es (Receive_record msg p)"
| "ExpectNoMessage d start (Offer # es) p = ExpectNoMessage d start es (Receive_offer p)"
| "ExpectNoMessage d start (Take # es) p =
     (case msgs p of
        [] \<Rightarrow> ExpectNoMessage d start es p
      | msg # q \<Rightarrow> (Failed (NotSilent (pr_pid p) d msg (Received p)), p\<lparr>msgs := q\<rparr>))"
| "ExpectNoMessage d start (Fire now # es) p =
     (if d \<le> now - start then (Silent, p) else ExpectNoMessage d start es p)"

section \<open>What the probe keeps\<close>

text \<open>
  The channel holds at most its capacity, and what it holds was received, in that order.
\<close>

definition probe_ok :: "'m Probe \<Rightarrow> bool" where
  "probe_ok p \<longleftrightarrow> length (msgs p) \<le> msgs_cap \<and>
     subseq (msgs p @ (case offering p of None \<Rightarrow> [] | Some msg \<Rightarrow> [msg])) (received p)"

lemma probe_ok_new: "probe_ok (NewProbe pid)"
  by (simp add: probe_ok_def NewProbe_def)

lemma probe_ok_record: "probe_ok p \<Longrightarrow> probe_ok (Receive_record msg p)"
  by (auto simp: probe_ok_def Receive_record_def intro: list_emb_append_mono)

lemma subseq_drop_last: "subseq (xs @ [x]) ys \<Longrightarrow> subseq xs ys"
  by (metis list_emb_append2 subseq_order.dual_order.trans subseq_order.eq_refl append_Nil2 list_emb_Nil list_emb_append_mono)

lemma probe_ok_offer: "probe_ok p \<Longrightarrow> probe_ok (Receive_offer p)"
  by (auto simp: probe_ok_def Receive_offer_def split: option.splits dest: subseq_drop_last)

lemma probe_ok_take: "probe_ok p \<Longrightarrow> msgs p = msg # q \<Longrightarrow> probe_ok (p\<lparr>msgs := q\<rparr>)"
  by (auto simp: probe_ok_def dest: subseq_Cons')

lemma probe_ok_expect: "probe_ok p \<Longrightarrow> probe_ok (snd (expect_loop ok want start es p))"
  by (induction ok want start es p rule: expect_loop.induct)
    (auto simp: probe_ok_record probe_ok_offer probe_ok_take split: list.splits)

text \<open>The messages that enter the channel while an assertion runs.\<close>

fun entered :: "('m \<Rightarrow> bool) \<Rightarrow> int \<Rightarrow> 'm probe_event list \<Rightarrow> 'm Probe \<Rightarrow> 'm list" where
  "entered ok start [] p = []"
| "entered ok start (Arrive msg # es) p = entered ok start es (Receive_record msg p)"
| "entered ok start (Offer # es) p = drop (length (msgs p)) (msgs (Receive_offer p)) @ entered ok start es (Receive_offer p)"
| "entered ok start (Take # es) p =
     (case msgs p of [] \<Rightarrow> entered ok start es p | msg # q \<Rightarrow> if ok msg then [] else entered ok start es (p\<lparr>msgs := q\<rparr>))"
| "entered ok start (Fire now # es) p = (if timeout p \<le> now - start then [] else entered ok start es p)"

lemma offer_appends: "msgs (Receive_offer p) = msgs p @ drop (length (msgs p)) (msgs (Receive_offer p))"
  by (simp add: Receive_offer_def split: option.splits)

definition scanned :: "('m \<Rightarrow> bool) \<Rightarrow> 'm list \<Rightarrow> ('m, 'ty) verdict \<Rightarrow> 'm Probe \<Rightarrow> bool" where
  "scanned ok stream v p' \<longleftrightarrow> (\<exists>skipped. (\<forall>x \<in> set skipped. \<not> ok x) \<and>
     (case v of
        Found msg \<Rightarrow> ok msg \<and> stream = skipped @ msg # msgs p'
      | Failed (TimedOut pid elapsed want rs) \<Rightarrow> stream = skipped @ msgs p' \<and> timeout p' \<le> elapsed \<and> rs = received p'
      | Undecided \<Rightarrow> stream = skipped @ msgs p'
      | _ \<Rightarrow> False))"

lemma scanned_Cons:
  assumes "\<not> ok x" "scanned ok stream v p'"
  shows "scanned ok (x # stream) v p'"
proof -
  obtain skipped where "\<forall>y \<in> set skipped. \<not> ok y" "case v of
        Found msg \<Rightarrow> ok msg \<and> stream = skipped @ msg # msgs p'
      | Failed (TimedOut pid elapsed want rs) \<Rightarrow> stream = skipped @ msgs p' \<and> timeout p' \<le> elapsed \<and> rs = received p'
      | Undecided \<Rightarrow> stream = skipped @ msgs p'
      | _ \<Rightarrow> False"
    using assms(2) by (auto simp: scanned_def)
  then show ?thesis using assms(1) unfolding scanned_def
    by (intro exI [of _ "x # skipped"]) (auto split: verdict.splits report.splits)
qed

lemma expect_loop_scans:
  assumes "expect_loop ok want start es p = (v, p')"
  shows "scanned ok (msgs p @ entered ok start es p) v p'"
  using assms
proof (induction ok want start es p rule: expect_loop.induct)
  case (1 ok want start p)
  then show ?case by (auto simp: scanned_def intro: exI [of _ "[]"])
next
  case (2 ok want start msg es p)
  moreover have "msgs (Receive_record msg p) = msgs p" by (simp add: Receive_record_def)
  ultimately show ?case by simp
next
  case (3 ok want start es p)
  then have "scanned ok (msgs (Receive_offer p) @ entered ok start es (Receive_offer p)) v p'" by simp
  then show ?case by (subst (asm) offer_appends) simp
next
  case (4 ok want start es p)
  show ?case
  proof (cases "msgs p")
    case Nil
    then show ?thesis using 4 by simp
  next
    case (Cons msg q)
    show ?thesis
    proof (cases "ok msg")
      case True
      then show ?thesis using 4(3) Cons by (auto simp: scanned_def intro: exI [of _ "[]"])
    next
      case False
      then show ?thesis using 4 Cons by (auto intro: scanned_Cons)
    qed
  qed
next
  case (5 ok want start now es p)
  then show ?case by (auto simp: scanned_def failf_def Received_def intro: exI [of _ "[]"] split: if_splits)
qed


lemma expect_loop_takes:
  assumes "msgs p = skipped @ msg # rest" "\<forall>x \<in> set skipped. \<not> ok x" "ok msg"
  shows "expect_loop ok want start (replicate (Suc (length skipped)) Take @ es) p = (Found msg, p\<lparr>msgs := rest\<rparr>)"
  using assms
proof (induction skipped arbitrary: p)
  case (Cons x skipped)
  then show ?case using Cons.IH [of "p\<lparr>msgs := skipped @ msg # rest\<rparr>"] by simp
qed simp

lemma Probe_Receive_fold:
  assumes "offering p = None"
  shows "fold Probe_Receive ms p =
    p\<lparr>received := received p @ ms, msgs := msgs p @ take (msgs_cap - length (msgs p)) ms\<rparr>"
  using assms
proof (induction ms arbitrary: p)
  case (Cons m ms)
  define p' where "p' = Probe_Receive m p"
  have p': "p' = p\<lparr>received := received p @ [m], msgs := msgs p @ take (msgs_cap - length (msgs p)) [m]\<rparr>" "offering p' = None"
    using Cons.prems by (auto simp: p'_def Probe_Receive_def Receive_record_def Receive_offer_def)
  have "fold Probe_Receive (m # ms) p = fold Probe_Receive ms p'" by (simp add: p'_def)
  also have "\<dots> = p'\<lparr>received := received p' @ ms, msgs := msgs p' @ take (msgs_cap - length (msgs p')) ms\<rparr>"
    using Cons.IH p'(2) by blast
  also have "\<dots> = p\<lparr>received := received p @ m # ms, msgs := msgs p @ take (msgs_cap - length (msgs p)) (m # ms)\<rparr>"
    using p'(1) by (cases "msgs_cap - length (msgs p)") (auto simp: diff_Suc split: nat.splits)
  finally show ?case .
qed simp

fun quiet :: "'m probe_event \<Rightarrow> bool" where
  "quiet Take = True"
| "quiet (Fire now) = True"
| "quiet _ = False"

lemma entered_quiet: "list_all quiet es \<Longrightarrow> entered ok start es p = []"
  by (induction ok start es p rule: entered.induct) (auto split: list.splits)

lemma expect_loop_report:
  "expect_loop ok want start es p = (Failed r, p') \<Longrightarrow> list_all quiet es \<Longrightarrow>
   \<exists>elapsed. timeout p \<le> elapsed \<and> r = TimedOut (pr_pid p) elapsed want (received p)"
  by (induction ok want start es p rule: expect_loop.induct)
    (auto simp: failf_def Received_def split: list.splits if_splits)

section \<open>Properties\<close>

text \<open>
  C29. \<open>Expect\<close> and \<open>ExpectType\<close> scan the channel in order. Whatever arrives meanwhile and however the \<open>select\<close> chooses: a message
  that is returned is equal to the wanted one (of its type) and the first such in the channel's stream;
  everything before it is discarded and everything behind it is kept. If the assertion fails
  instead, its timeout has passed, nothing it took matched, and the report lists everything received. And
  if the wanted message is in the channel, taking messages finds it.
\<close>
theorem Expect_first_match:
  fixes v :: "('m, 'ty) verdict"
  shows "(Expect deepEqual want start es p = (v, p') \<longrightarrow>
      scanned (\<lambda>m. deepEqual m want) (msgs p @ entered (\<lambda>m. deepEqual m want) start es p) v p') \<and>
   (ExpectType typeOf want start es p = (v, p') \<longrightarrow>
      scanned (\<lambda>m. typeOf m = typeOf want) (msgs p @ entered (\<lambda>m. typeOf m = typeOf want) start es p) v p') \<and>
   (msgs p = skipped @ msg # rest \<and> (\<forall>x \<in> set skipped. \<not> deepEqual x want) \<and> deepEqual msg want \<longrightarrow>
      Expect deepEqual want start (replicate (Suc (length skipped)) Take @ es) p = (Found msg :: ('m, 'ty) verdict, p\<lparr>msgs := rest\<rparr>))"
  unfolding Expect_def ExpectType_def by (auto intro: expect_loop_scans simp del: replicate_Suc simp: expect_loop_takes)

theorem Expect_first_match_witness:
  "Expect (=) 7 0 [Take, Take] (\<lparr>pr_pid = None, timeout = 5, received = [3, 7, 9], msgs = [3, 7, 9], offering = None\<rparr> :: nat Probe) =
     ((Found 7, \<lparr>pr_pid = None, timeout = 5, received = [3, 7, 9], msgs = [9], offering = None\<rparr>) :: (nat, unit) verdict \<times> nat Probe)"
  using Expect_first_match [of "(=)" "7 :: nat" 0 "[]" "\<lparr>pr_pid = None, timeout = 5, received = [3, 7, 9], msgs = [3, 7, 9], offering = None\<rparr>"
      "Undecided :: (nat, unit) verdict" "NewProbe None" "\<lambda>_. ()" "[3]" 7 "[9]"]
  by (simp add: numeral_2_eq_2)

text \<open>
  C39. The channel overflows silently. \<open>Received\<close> returns every message the probe was sent, in order, but only
  the first 1024 that nobody takes are in the channel: a later message is dropped, and \<open>Expect\<close> for
  it fails, however the \<open>select\<close> chooses, although its report lists it as received.
\<close>
theorem probe_channel_overflow:
  assumes "\<forall>m \<in> set (take 1024 ms). \<not> deepEqual m want" and "list_all quiet es"
    and "Expect deepEqual want start es (fold Probe_Receive ms (NewProbe pid)) = (v, p')"
  shows "Received (fold Probe_Receive ms (NewProbe pid)) = ms \<and> (\<forall>m. v \<noteq> Found m) \<and>
    (\<forall>r. v = Failed r \<longrightarrow> (\<exists>elapsed. 2000000000 \<le> elapsed \<and> r = TimedOut pid elapsed (Value want) ms))"
proof (intro conjI)
  let ?p = "fold Probe_Receive ms (NewProbe pid)"
  have p: "?p = \<lparr>pr_pid = pid, timeout = 2000000000, received = ms, msgs = take 1024 ms, offering = None\<rparr>"
    using Probe_Receive_fold [of "NewProbe pid" ms] by (simp add: NewProbe_def msgs_cap_def)
  then show "Received ?p = ms" by (simp add: Received_def)
  have "scanned (\<lambda>m. deepEqual m want) (take 1024 ms) v p'"
    using expect_loop_scans [OF assms(3) [unfolded Expect_def]] entered_quiet [OF assms(2)] p by simp
  then show "\<forall>m. v \<noteq> Found m" using assms(1) by (auto simp: scanned_def)
  show "\<forall>r. v = Failed r \<longrightarrow> (\<exists>elapsed. 2000000000 \<le> elapsed \<and> r = TimedOut pid elapsed (Value want) ms)"
    using assms(3) p by (auto simp: Expect_def dest!: expect_loop_report [OF _ assms(2)])
qed

theorem probe_channel_overflow_witness:
  "fst (Expect (=) 1 0 [Take, Fire 2000000000] (fold Probe_Receive (replicate 1024 0 @ [1]) (NewProbe None))) =
     (Failed (TimedOut None 2000000000 (Value 1) (replicate 1024 0 @ [1])) :: (nat, unit) verdict)"
proof -
  let ?ms = "replicate 1024 (0 :: nat) @ [1]"
  let ?e = "Expect (=) 1 0 [Take, Fire 2000000000] (fold Probe_Receive ?ms (NewProbe None)) :: (nat, unit) verdict \<times> nat Probe"
  have "take 1024 ?ms = replicate 1024 0" by simp
  then have "Received (fold Probe_Receive ?ms (NewProbe None)) = ?ms"
    using probe_channel_overflow [of ?ms "(=)" 1 "[Take, Fire 2000000000]" 0 None "fst ?e" "snd ?e"] by simp
  then show ?thesis
    using Probe_Receive_fold [of "NewProbe None" ?ms]
    by (simp add: NewProbe_def msgs_cap_def Expect_def failf_def Received_def numeral_eq_Suc)
qed


lemma fresh_probe_run:
  "map (\<lambda>p. (ppid p, map Msg (gdelivered p))) (procs (boot [Go (spawn_x 0 3), Run 1 200 []])) =
     [(NewPID ''local'' ''deadletter/deadletter'', [Initialized, Started]), (pid_x, [Initialized, Started])]"
  by code_simp


end
