(* ===== verification/Spec2Isabelle.thy ===== *)
theory Spec2Isabelle
  imports RingBuffer_Link Inbox_Atomic Engine_Props Engine_Fifo Engine_Deadlock Probe
begin

text \<open>
  A verification of the Go actor library under \<^verbatim>\<open>src/\<close> (packages \<^verbatim>\<open>ringbuffer\<close>, \<^verbatim>\<open>actor\<close> and
  \<^verbatim>\<open>actortest\<close>).

  \<^bold>\<open>The program.\<close> An \<open>Engine\<close> (\<^verbatim>\<open>engine.go\<close>) spawns actors. An actor is a \<open>process\<close> (\<^verbatim>\<open>process.go\<close>): a
  \<open>Receiver\<close> made by a \<open>Producer\<close>, wrapped in middleware (\<^verbatim>\<open>middleware.go\<close>), with a reused \<open>Context\<close>
  (\<^verbatim>\<open>context.go\<close>) and an \<open>Inbox\<close> (\<^verbatim>\<open>inbox.go\<close>) over a growable ring buffer (\<^verbatim>\<open>ringbuffer.go\<close>). Processes
  are found by \<open>PID\<close> (\<^verbatim>\<open>pid.go\<close>) in a registry (\<^verbatim>\<open>registry.go\<close>). A send pushes an envelope and, if the
  inbox is idle, starts the goroutine that drains it in batches. A panic in \<open>Receive\<close> restarts
  the actor with a fresh receiver, up to a bound, or shuts it down. \<open>Poison\<close> sends a pill through
  the mailbox and gives the caller a context that is cancelled by the teardown. Events go to
  the subscribers of an event stream (\<^verbatim>\<open>eventstream.go\<close>); sends that miss become dead letters.
  \<open>Request\<close> (\<^verbatim>\<open>response.go\<close>) and the repeaters (\<^verbatim>\<open>repeat.go\<close>) are built on top. \<open>Probe\<close> (\<^verbatim>\<open>probe.go\<close>) is
  an actor for tests, which asserts what it has received.

  \<^bold>\<open>The theories\<close>, each with the sources it models:

  \<^item> \<open>Prelude\<close>: 64-bit and 32-bit integers as words, Go slices with their bounds checks, the outcome
    of a Go function (\<open>Return\<close>, \<open>Panic\<close>, \<open>Block\<close>), and the lemmas on words, windows of
    circular arrays and lists that the components share. \<open>GoMap\<close>: Go maps, whose range order is an
    argument.
  \<^item> \<open>RingBuffer\<close>: every operation of \<^verbatim>\<open>ringbuffer.go\<close>, run to completion on words. The invariant
    \<open>rb_inv\<close>, the queue \<open>rb_list\<close> it stands for, and the locale \<open>fifo_queue\<close>, the contract
    the inbox relies on, interpreted on the ring buffer.
  \<^item> \<open>RingBuffer_Conc\<close>: the same code interleaved, one step per atomic access, any number of
    producers and one consumer: mutual exclusion of growing and popping, no data race, no deadlock,
    linearizability. \<open>RingBuffer_Link\<close>: run without interference, the interleaved code computes what the
    sequential code on words computes.
  \<^item> \<open>Inbox\<close>: \<^verbatim>\<open>inbox.go\<close> over any FIFO queue: one processor at a time, order, no lost wake-up (as
    termination of the work under way in a state where everything was handed over), \<open>Stop\<close>.
    \<open>Mailbox\<close>: the inbox over the ring buffer refines the inbox over a list, which the engine uses.
  \<^item> \<open>Inbox_Conc\<close>: \<^verbatim>\<open>inbox.go\<close> and \<^verbatim>\<open>ringbuffer.go\<close> as one machine, every atomic access of both interleaved: a single
    consumer at any time, so the results of \<open>RingBuffer_Conc\<close> carry over; order; and delivery of everything
    pushed, by a measure that every step except a spin decreases. \<open>Inbox_Atomic\<close>: this machine refines
    the mailbox over a list in which a push and a batch pop are one step each.
  \<^item> \<open>Pid\<close>, \<open>Opts\<close>, \<open>Trace\<close>, \<open>Registry\<close>, \<open>EventStream\<close>, \<open>Message\<close>, \<open>Middleware\<close>: \<^verbatim>\<open>pid.go\<close>, \<^verbatim>\<open>opts.go\<close>, \<open>cleanTrace\<close>
    of \<^verbatim>\<open>process.go\<close>, \<^verbatim>\<open>registry.go\<close>, \<^verbatim>\<open>eventstream.go\<close>, the messages, receivers and user code, and
    \<^verbatim>\<open>middleware.go\<close>. The registry and the event stream have their contracts as locales
    (\<open>process_table\<close>, \<open>subscriber_table\<close>).
  \<^item> \<open>Engine\<close>: \<^verbatim>\<open>process.go\<close>, \<^verbatim>\<open>engine.go\<close>, \<^verbatim>\<open>context.go\<close>, \<^verbatim>\<open>response.go\<close> and \<^verbatim>\<open>repeat.go\<close> as one machine.
    A goroutine is a stack of instructions, each one atomic action of the Go code;
    \<open>exec_instr\<close> and \<open>exec_api\<close> say what it does, by calling the definition named after the Go
    function. \<open>eng_step\<close> interleaves the goroutines, \<open>eng_reach\<close> are the states of every run of
    every user program.
  \<^item> \<open>Engine_Inv\<close>: the locale \<open>engine_invariant\<close> (what makes a predicate hold in every reachable
    state) and its first two interpretations: references are valid, no poison waiter is forgotten.
    \<open>Engine_Mail\<close>: the mailbox protocol inside the engine. \<open>Engine_Life\<close>: restarts and teardown, and
    the order of \<open>Initialized\<close>. \<open>Engine_Route\<close>: sends terminate. \<open>Engine_Stream\<close>: the
    event stream's lock. \<open>Engine_Fifo\<close>: the order of
    the messages of each process, and what a poison pill waits for. \<open>Engine_Cascade\<close>: a parent waits for its
    children. \<open>Engine_Tree\<close>: the children form a forest. \<open>Engine_Futures\<close>: responses and repeaters.
    \<open>Engine_Shape\<close>: who brings about what a goroutine waits for (the pill of a poison, the children behind
    a wait group, the lock). \<open>Engine_Deadlock\<close>: the wait-for graph of the goroutines, and that every wait
    in it leads to a goroutine that can run.
  \<^item> \<open>Engine_Run\<close>: an executable scheduler and a small user program, to evaluate the machine on
    concrete runs. \<open>Engine_Props\<close>: the properties of the engine, and the reachable states in which the
    code does something its documentation excludes.
  \<^item> \<open>Probe\<close>: \<^verbatim>\<open>actortest/probe.go\<close>, the probe and its assertions, interleaved with what arrives: what \<open>Expect\<close>
    finds, skips and reports, and what a probe of the engine has received before anyone sends to it.

  \<^bold>\<open>State.\<close> A Go struct is a record with the same fields; a pointer to a process, a cancellable context,
  a wait group, a channel, a response or a repeater is an index into a list of the engine
  record. The fields of \<open>Context\<close> are in the record of its process, since a process has exactly
  one. Fields with names in \<open>g\<close>, and \<open>hist\<close>, \<open>out\<close>, \<open>sentH\<close>, \<open>invokedH\<close>, \<open>handed\<close>, are history variables that no step
  reads.

  \<^bold>\<open>Bounds.\<close> The ring buffer's cursors are 64-bit; \<open>rb_room n\<close> says that \<open>n\<close> more pushes stay below
  \<open>2 ^ 63\<close>, which is a hypothesis of the lemmas on \<open>Push\<close>. In \<open>RingBuffer_Conc\<close> cursors are naturals.
  \<open>restarts\<close> is a 32-bit word, so the exact count of restarts is for fewer than \<open>2 ^ 31\<close> panics. Loops
  are total functions with their measure, or steps of a relation; there is no fuel in the
  model. The step counts in the schedules of \<open>Engine_Run\<close> only say how far a concrete run goes.

  \<^bold>\<open>Granularity.\<close> A critical section under one lock is one step, except that the ring buffer's lock is
  explicit in \<open>RingBuffer_Conc\<close> and \<open>Inbox_Conc\<close>. In the engine a push and a batch pop are one step each, and the
  \<open>Len\<close> of a processor that re-checks its buffer is exact or, while another one drains, too large; the refinement in
  \<open>Inbox_Atomic\<close> shows that the atomic accesses do nothing else. The scan of
  \<open>eventStream.broadcast\<close> holds the stream's lock over several look-ups in the registry, so the
  lock is explicit and every look-up is a step. Timers and timeouts may fire at any moment, and the
  restart delay takes no step, so every timing is covered. A nil \<open>registry\<close> or \<open>events\<close> field, which
  only unit tests create, and a panic of user code outside \<open>Receive\<close>, which ends a Go program,
  have no step.

  \<^bold>\<open>Not modelled.\<close> \<open>NewEngine\<close> of \<^verbatim>\<open>probe.go\<close> registers an empty clean-up with \<open>testing.TB\<close>; it and the call of \<open>Spawn\<close> in
  \<open>NewProbe\<close> are written for an earlier API of the package and do not type-check, so the model of \<open>NewProbe\<close>
  takes the \<open>PID\<close> as an argument. \<open>reflect\<close> and \<open>testing\<close> are arguments or reports there. The accessors
  \<open>Engine.Address\<close>, \<open>Engine.Registry\<close>, \<open>Context.Engine\<close> and \<open>Context.Receiver\<close> return a field, and \<open>process.Send\<close>, which nothing calls,
  is \<open>sendMessage\<close>. What is logged is modelled as log records, not as text. \<^verbatim>\<open>doc.go\<close> files have no code.
\<close>

end
